(* ===== verification/Prelude.thy ===== *)
theory Prelude
  imports Main "HOL-Library.Char_ord" "HOL-Library.List_Lexorder" "HOL-Library.Sublist"
begin

text \<open>
  Shared vocabulary of the development: results of fallible code, ordered maps
  (the \<open>BTreeMap\<close> of the standard library, as association lists sorted by key),
  folds that stop at the first error, and the generic lemmas the components share.
  Nothing in this theory is specific to one component.
\<close>

section \<open>Results\<close>

text \<open>
  A Rust \<open>Result<T, E>\<close> is a sum: \<open>Inl e\<close> is \<open>Err(e)\<close>, \<open>Inr a\<close> is \<open>Ok(a)\<close>.
  \<open>bindE\<close> is the question-mark operator.
\<close>

named_theorems result_simps \<open>rewrite rules for results and early returns\<close>
named_theorems omap_simps \<open>rewrite rules for ordered maps\<close>

definition bindE :: "'e + 'a \<Rightarrow> ('a \<Rightarrow> 'e + 'b) \<Rightarrow> 'e + 'b" where
  "bindE r f = (case r of Inl e \<Rightarrow> Inl e | Inr a \<Rightarrow> f a)"

lemma bindE_simps [simp, result_simps]:
  "bindE (Inl e) f = Inl e"
  "bindE (Inr a) f = f a"
  by (simp_all add: bindE_def)

lemma bindE_eq_Inr [simp, result_simps]:
  "bindE r f = Inr b \<longleftrightarrow> (\<exists>a. r = Inr a \<and> f a = Inr b)"
  by (cases r) auto

lemma bindE_eq_Inl [result_simps]:
  "bindE r f = Inl e \<longleftrightarrow> r = Inl e \<or> (\<exists>a. r = Inr a \<and> f a = Inl e)"
  by (cases r) auto

lemma bindE_cong [fundef_cong]:
  "r = r' \<Longrightarrow> (\<And>a. r' = Inr a \<Longrightarrow> f a = g a) \<Longrightarrow> bindE r f = bindE r' g"
  by (cases r') (auto simp: bindE_def)

definition mapErr :: "('e \<Rightarrow> 'f) \<Rightarrow> 'e + 'a \<Rightarrow> 'f + 'a" where
  "mapErr h r = (case r of Inl e \<Rightarrow> Inl (h e) | Inr a \<Rightarrow> Inr a)"

lemma mapErr_simps [simp, result_simps]:
  "mapErr h (Inl e) = Inl (h e)"
  "mapErr h (Inr a) = Inr a"
  by (simp_all add: mapErr_def)

lemma mapErr_eq_Inr [simp, result_simps]: "mapErr h r = Inr a \<longleftrightarrow> r = Inr a"
  by (cases r) auto

definition ok_or :: "'e \<Rightarrow> 'a option \<Rightarrow> 'e + 'a" where
  "ok_or e x = (case x of None \<Rightarrow> Inl e | Some a \<Rightarrow> Inr a)"

lemma ok_or_simps [simp, result_simps]:
  "ok_or e None = Inl e"
  "ok_or e (Some a) = Inr a"
  by (simp_all add: ok_or_def)

lemma ok_or_eq_Inr [simp, result_simps]: "ok_or e x = Inr a \<longleftrightarrow> x = Some a"
  by (cases x) auto

text \<open>\<open>collect::<Result<Vec<_>, _>>()\<close>: the first error, or all results in order.\<close>

fun mapE :: "('a \<Rightarrow> 'e + 'b) \<Rightarrow> 'a list \<Rightarrow> 'e + 'b list" where
  "mapE f [] = Inr []"
| "mapE f (x # xs) = bindE (f x) (\<lambda>y. bindE (mapE f xs) (\<lambda>ys. Inr (y # ys)))"

lemma mapE_Inr_iff:
  "mapE f xs = Inr ys \<longleftrightarrow> list_all2 (\<lambda>x y. f x = Inr y) xs ys"
  by (induction xs arbitrary: ys) (auto simp: list_all2_Cons1)

lemma mapE_length: "mapE f xs = Inr ys \<Longrightarrow> length ys = length xs"
  by (auto simp: mapE_Inr_iff dest: list_all2_lengthD)

lemma mapE_Inr_map [simp]: "mapE (\<lambda>x. Inr (f x)) xs = Inr (map f xs)"
  by (induction xs) auto

lemma mapE_cong [fundef_cong]:
  "xs = ys \<Longrightarrow> (\<And>x. x \<in> set ys \<Longrightarrow> f x = g x) \<Longrightarrow> mapE f xs = mapE g ys"
  by (induction ys arbitrary: xs) auto

text \<open>A loop over a list that returns early with an error.\<close>

fun foldE :: "('a \<Rightarrow> 's \<Rightarrow> 'e + 's) \<Rightarrow> 'a list \<Rightarrow> 's \<Rightarrow> 'e + 's" where
  "foldE f [] s = Inr s"
| "foldE f (x # xs) s = bindE (f x s) (foldE f xs)"

lemma foldE_append [simp]: "foldE f (xs @ ys) s = bindE (foldE f xs s) (foldE f ys)"
  by (induction xs arbitrary: s) (auto simp: bindE_def split: sum.splits)

lemma foldE_invariant:
  assumes "foldE f xs s = Inr t" and "P s"
    and "\<And>x s s'. x \<in> set xs \<Longrightarrow> P s \<Longrightarrow> f x s = Inr s' \<Longrightarrow> P s'"
  shows "P t"
  using assms by (induction xs arbitrary: s) auto

section \<open>Ordered maps\<close>

text \<open>
  \<open>BTreeMap<K, V>\<close> (and \<open>serde_json::Map\<close>, which is one) as the association list in
  key order. \<open>omap_ok\<close> is the invariant of the container: strictly ascending keys.
  \<open>get\<close> is \<open>map_of\<close>; iteration is the list itself.
\<close>

definition omap_ok :: "('k::linorder \<times> 'v) list \<Rightarrow> bool" where
  "omap_ok m \<longleftrightarrow> sorted_wrt (<) (map fst m)"

fun omap_insert :: "'k::linorder \<Rightarrow> 'v \<Rightarrow> ('k \<times> 'v) list \<Rightarrow> ('k \<times> 'v) list" where
  "omap_insert k v [] = [(k, v)]"
| "omap_insert k v ((k', v') # m) =
     (if k < k' then (k, v) # (k', v') # m
      else if k = k' then (k, v) # m
      else (k', v') # omap_insert k v m)"

definition omap_remove :: "'k \<Rightarrow> ('k \<times> 'v) list \<Rightarrow> ('k \<times> 'v) list" where
  "omap_remove k m = filter (\<lambda>(k', _). k' \<noteq> k) m"

text \<open>\<open>*map.entry(k).or_insert(d) = f(...)\<close>.\<close>

definition omap_upd :: "'k::linorder \<Rightarrow> 'v \<Rightarrow> ('v \<Rightarrow> 'v) \<Rightarrow> ('k \<times> 'v) list \<Rightarrow> ('k \<times> 'v) list" where
  "omap_upd k d f m = omap_insert k (f (case map_of m k of None \<Rightarrow> d | Some v \<Rightarrow> v)) m"

lemma omap_ok_Nil [simp]: "omap_ok []"
  by (simp add: omap_ok_def)

lemma omap_ok_Cons [simp]:
  "omap_ok ((k, v) # m) \<longleftrightarrow> (\<forall>x \<in> set m. k < fst x) \<and> omap_ok m"
  by (auto simp: omap_ok_def)

lemma omap_insert_keys [simp, omap_simps]: "fst ` set (omap_insert k v m) = insert k (fst ` set m)"
  by (induction m rule: omap_insert.induct) (auto simp: insert_commute)

lemma omap_insert_set: "set (omap_insert k v m) \<subseteq> insert (k, v) (set m)"
  by (induction m) (auto split: if_splits)

lemma omap_insert_setD: "x \<in> set (omap_insert k v m) \<Longrightarrow> x = (k, v) \<or> x \<in> set m"
  using omap_insert_set by fastforce

lemma omap_ok_insert [intro, simp]: "omap_ok m \<Longrightarrow> omap_ok (omap_insert k v m)"
proof (induction m)
  case (Cons p m)
  obtain k' v' where p: "p = (k', v')" by (cases p)
  show ?case
    using Cons
    by (cases k k' rule: linorder_cases)
      (auto simp: p dest!: omap_insert_setD intro: less_trans)
qed simp

lemma omap_map_of_insert [simp, omap_simps]:
  "map_of (omap_insert k v m) = (map_of m)(k \<mapsto> v)"
  by (induction m) (auto simp: fun_eq_iff)

lemma omap_map_of_remove [simp, omap_simps]:
  "map_of (omap_remove k m) = (map_of m)(k := None)"
  by (induction m) (auto simp: omap_remove_def fun_eq_iff)

lemma omap_ok_remove [intro, simp]: "omap_ok m \<Longrightarrow> omap_ok (omap_remove k m)"
  unfolding omap_remove_def by (induction m) auto

lemma omap_map_of_upd [simp, omap_simps]:
  "map_of (omap_upd k d f m) =
     (map_of m)(k \<mapsto> f (case map_of m k of None \<Rightarrow> d | Some v \<Rightarrow> v))"
  by (simp add: omap_upd_def)

lemma omap_ok_upd [intro, simp]: "omap_ok m \<Longrightarrow> omap_ok (omap_upd k d f m)"
  by (simp add: omap_upd_def)

lemma omap_ok_distinct: "omap_ok m \<Longrightarrow> distinct (map fst m)"
  by (simp add: omap_ok_def strict_sorted_iff)

lemma omap_map_of_iff: "omap_ok m \<Longrightarrow> map_of m k = Some v \<longleftrightarrow> (k, v) \<in> set m"
  by (simp add: omap_ok_distinct)

lemma omap_ext:
  assumes "omap_ok m" and "omap_ok n" and "map_of m = map_of n"
  shows "m = n"
proof -
  have "set m = set n"
    using assms by (auto simp flip: omap_map_of_iff)
  moreover from this have "map fst m = map fst n"
    using assms by (auto simp: omap_ok_def intro!: strict_sorted_equal)
  ultimately show ?thesis
    using assms(1) by (metis omap_ok_distinct distinct_map inj_on_Un map_inj_on
        sup.idem)
qed

section \<open>Ordered sets\<close>

text \<open>\<open>BTreeSet<T>\<close> as its ascending list of elements; inserting is \<open>insort_insert\<close>.\<close>

lemma insort_insert_set [simp]: "set (insort_insert x xs) = insert x (set xs)"
  by (simp add: insort_insert_key_def set_insort_key insert_absorb)

definition oset_ok :: "'a::linorder list \<Rightarrow> bool" where
  "oset_ok xs \<longleftrightarrow> sorted_wrt (<) xs"

lemma oset_ok_Nil [simp]: "oset_ok []" "oset_ok [x]"
  by (simp_all add: oset_ok_def)

lemma oset_ok_insert [simp, intro]: "oset_ok xs \<Longrightarrow> oset_ok (insort_insert x xs)"
  unfolding oset_ok_def strict_sorted_iff by (simp add: sorted_insort_insert distinct_insort_insert)

lemma oset_ok_filter [simp, intro]: "oset_ok xs \<Longrightarrow> oset_ok (filter P xs)"
  by (simp add: oset_ok_def sorted_wrt_filter)

lemma oset_ok_distinct: "oset_ok xs \<Longrightarrow> distinct xs"
  by (simp add: oset_ok_def strict_sorted_iff)

lemma oset_ext: "oset_ok xs \<Longrightarrow> oset_ok ys \<Longrightarrow> set xs = set ys \<Longrightarrow> xs = ys"
  unfolding oset_ok_def by (rule strict_sorted_equal)

definition set_union :: "'a::linorder list \<Rightarrow> 'a list \<Rightarrow> 'a list" where
  "set_union xs ys = fold insort_insert ys xs"

lemma set_union_set [simp]: "set (set_union xs ys) = set xs \<union> set ys"
  unfolding set_union_def by (induction ys arbitrary: xs) auto

lemma oset_ok_union [simp, intro]: "oset_ok xs \<Longrightarrow> oset_ok (set_union xs ys)"
  unfolding set_union_def by (induction ys arbitrary: xs) auto

end
