(* ===== verification/Text_Model.thy ===== *)
theory Text_Model
  imports Prelude "HOL-Library.Word"
begin

text \<open>
  Rust strings. A \<open>&str\<close> or \<open>String\<close> is its UTF-8 bytes, so a \<open>string\<close> here is a list of
  bytes (\<open>char\<close> has 256 values): \<open>length\<close> is \<open>str::len\<close>, the lexicographic order of
  \<open>List_Lexorder\<close> is \<open>Ord\<close> for \<open>str\<close>, and the operations below are those of the standard
  library that the program uses, on bytes.  Characters are counted and split off through
  the bytes that start one.
\<close>

section \<open>Bytes and characters\<close>

definition byte :: "char \<Rightarrow> nat" where
  "byte c = of_char c"

definition is_cont :: "char \<Rightarrow> bool" where
  "is_cont c \<longleftrightarrow> 0x80 \<le> byte c \<and> byte c < 0xC0"

definition is_char_boundary :: "string \<Rightarrow> nat \<Rightarrow> bool" where
  "is_char_boundary s i \<longleftrightarrow> i = 0 \<or> i = length s \<or> (i < length s \<and> \<not> is_cont (s ! i))"

text \<open>\<open>s.chars().count()\<close> and \<open>s.chars().take(n).collect()\<close>.\<close>

definition chars_count :: "string \<Rightarrow> nat" where
  "chars_count s = length (filter (\<lambda>c. \<not> is_cont c) s)"

fun chars_take :: "nat \<Rightarrow> string \<Rightarrow> string" where
  "chars_take n [] = []"
| "chars_take n (c # s) =
     (if is_cont c then c # chars_take n s
      else case n of 0 \<Rightarrow> [] | Suc m \<Rightarrow> c # chars_take m s)"

text \<open>
  \<open>str::from_utf8\<close> succeeds: the well-formed byte sequences of the Unicode standard
  (no overlong forms, no surrogates, nothing above U+10FFFF).
\<close>

fun valid_utf8 :: "string \<Rightarrow> bool" where
  "valid_utf8 [] = True"
| "valid_utf8 (a # s) =
     (let x = byte a in
      if x < 0x80 then valid_utf8 s
      else if 0xC2 \<le> x \<and> x \<le> 0xDF then
        (case s of b # t \<Rightarrow> is_cont b \<and> valid_utf8 t | _ \<Rightarrow> False)
      else if 0xE0 \<le> x \<and> x \<le> 0xEF then
        (case s of b # c # t \<Rightarrow>
           is_cont b \<and> is_cont c \<and>
           (x = 0xE0 \<longrightarrow> 0xA0 \<le> byte b) \<and> (x = 0xED \<longrightarrow> byte b \<le> 0x9F) \<and> valid_utf8 t
         | _ \<Rightarrow> False)
      else if 0xF0 \<le> x \<and> x \<le> 0xF4 then
        (case s of b # c # d # t \<Rightarrow>
           is_cont b \<and> is_cont c \<and> is_cont d \<and>
           (x = 0xF0 \<longrightarrow> 0x90 \<le> byte b) \<and> (x = 0xF4 \<longrightarrow> byte b \<le> 0x8F) \<and> valid_utf8 t
         | _ \<Rightarrow> False)
      else False)"

declare valid_utf8.simps(2) [simp del]

text \<open>Well-formed text followed by any bytes.\<close>

lemma valid_utf8_append: "valid_utf8 s \<Longrightarrow> valid_utf8 (s @ t) = valid_utf8 t"
proof (induction "length s" arbitrary: s rule: less_induct)
  case less
  note IH = less.hyps
  show ?case
  proof (cases s)
    case (Cons a u)
    note v = less.prems [unfolded Cons valid_utf8.simps(2) Let_def]
    consider "byte a < 0x80" | "\<not> byte a < 0x80" "0xC2 \<le> byte a \<and> byte a \<le> 0xDF"
      | "\<not> byte a < 0x80" "\<not> (0xC2 \<le> byte a \<and> byte a \<le> 0xDF)" "0xE0 \<le> byte a \<and> byte a \<le> 0xEF"
      | "\<not> byte a < 0x80" "\<not> (0xC2 \<le> byte a \<and> byte a \<le> 0xDF)" "\<not> (0xE0 \<le> byte a \<and> byte a \<le> 0xEF)"
        "0xF0 \<le> byte a \<and> byte a \<le> 0xF4"
      using v by (auto split: if_splits)
    then show ?thesis
    proof cases
      case 1
      then show ?thesis using v IH [of u] by (simp add: Cons valid_utf8.simps(2))
    next
      case 2
      then obtain b t' where "u = b # t'" using v by (cases u) auto
      then show ?thesis using 2 v IH [of t'] by (simp add: Cons valid_utf8.simps(2))
    next
      case 3
      then obtain b c t' where "u = b # c # t'" using v by (cases u; cases "tl u") auto
      then show ?thesis using 3 v IH [of t'] by (simp add: Cons valid_utf8.simps(2))
    next
      case 4
      then obtain b c d t' where "u = b # c # d # t'"
        using v by (cases u; cases "tl u"; cases "tl (tl u)") auto
      then show ?thesis using 4 v IH [of t'] by (simp add: Cons valid_utf8.simps(2))
    qed
  qed simp
qed

lemma valid_utf8_split:
  "valid_utf8 (a @ c # b) \<Longrightarrow> byte c < 0x80 \<Longrightarrow> valid_utf8 a \<and> valid_utf8 b"
proof (induction "length a" arbitrary: a rule: less_induct)
  case less
  note IH = less.hyps
  show ?case
  proof (cases a)
    case Nil
    then show ?thesis using less.prems by (simp add: valid_utf8.simps(2))
  next
    case (Cons x u)
    note v = less.prems(1) [unfolded Cons append_Cons valid_utf8.simps(2) Let_def]
    have nc: "\<not> is_cont c" using less.prems(2) by (simp add: is_cont_def)
    consider "byte x < 0x80" | "\<not> byte x < 0x80" "0xC2 \<le> byte x \<and> byte x \<le> 0xDF"
      | "\<not> byte x < 0x80" "\<not> (0xC2 \<le> byte x \<and> byte x \<le> 0xDF)" "0xE0 \<le> byte x \<and> byte x \<le> 0xEF"
      | "\<not> byte x < 0x80" "\<not> (0xC2 \<le> byte x \<and> byte x \<le> 0xDF)" "\<not> (0xE0 \<le> byte x \<and> byte x \<le> 0xEF)"
        "0xF0 \<le> byte x \<and> byte x \<le> 0xF4"
      using v by (auto split: if_splits)
    then show ?thesis
    proof cases
      case 1
      then show ?thesis using v less.prems(2) IH [of u] by (simp add: Cons valid_utf8.simps(2))
    next
      case 2
      then obtain y t where "u = y # t" using v nc by (cases u) auto
      then show ?thesis using 2 v less.prems(2) IH [of t] by (simp add: Cons valid_utf8.simps(2))
    next
      case 3
      then obtain y z t where "u = y # z # t" using v nc by (cases u; cases "tl u"; cases b) auto
      then show ?thesis using 3 v less.prems(2) IH [of t] by (simp add: Cons valid_utf8.simps(2))
    next
      case 4
      then obtain y z w t where "u = y # z # w # t"
        using v nc by (cases u; cases "tl u"; cases "tl (tl u)"; cases b; cases "tl b") auto
      then show ?thesis using 4 v less.prems(2) IH [of t] by (simp add: Cons valid_utf8.simps(2))
    qed
  qed
qed

lemma valid_utf8_ascii: "(\<forall>c \<in> set s. byte c < 0x80) \<Longrightarrow> valid_utf8 s"
  by (induction s) (auto simp: valid_utf8.simps(2))

section \<open>ASCII\<close>

definition is_ascii_digit :: "char \<Rightarrow> bool" where
  "is_ascii_digit c \<longleftrightarrow> 48 \<le> byte c \<and> byte c \<le> 57"

definition is_ascii_hexdigit :: "char \<Rightarrow> bool" where
  "is_ascii_hexdigit c \<longleftrightarrow>
     is_ascii_digit c \<or> (65 \<le> byte c \<and> byte c \<le> 70) \<or> (97 \<le> byte c \<and> byte c \<le> 102)"

definition is_ascii_alphanumeric :: "char \<Rightarrow> bool" where
  "is_ascii_alphanumeric c \<longleftrightarrow>
     is_ascii_digit c \<or> (65 \<le> byte c \<and> byte c \<le> 90) \<or> (97 \<le> byte c \<and> byte c \<le> 122)"

definition lower_char :: "char \<Rightarrow> char" where
  "lower_char c = (if 65 \<le> byte c \<and> byte c \<le> 90 then char_of (byte c + 32) else c)"

definition upper_char :: "char \<Rightarrow> char" where
  "upper_char c = (if 97 \<le> byte c \<and> byte c \<le> 122 then char_of (byte c - 32) else c)"

definition to_ascii_lowercase :: "string \<Rightarrow> string" where
  "to_ascii_lowercase s = map lower_char s"

definition to_ascii_uppercase :: "string \<Rightarrow> string" where
  "to_ascii_uppercase s = map upper_char s"

definition eq_ignore_ascii_case :: "string \<Rightarrow> string \<Rightarrow> bool" where
  "eq_ignore_ascii_case s t \<longleftrightarrow> to_ascii_lowercase s = to_ascii_lowercase t"

section \<open>Searching and trimming\<close>

definition starts_with :: "string \<Rightarrow> string \<Rightarrow> bool" where
  "starts_with s p \<longleftrightarrow> prefix p s"

definition ends_with :: "string \<Rightarrow> string \<Rightarrow> bool" where
  "ends_with s p \<longleftrightarrow> suffix p s"

definition contains_str :: "string \<Rightarrow> string \<Rightarrow> bool" where
  "contains_str s p \<longleftrightarrow> sublist p s"

definition strip_prefix :: "string \<Rightarrow> string \<Rightarrow> string option" where
  "strip_prefix s p = (if prefix p s then Some (drop (length p) s) else None)"

text \<open>\<open>s.split_once(p)\<close>: the text before and after the first occurrence of \<open>p\<close>.\<close>

fun split_once :: "string \<Rightarrow> string \<Rightarrow> (string \<times> string) option" where
  "split_once [] p = (if p = [] then Some ([], []) else None)"
| "split_once (c # s) p =
     (if prefix p (c # s) then Some ([], drop (length p) (c # s))
      else map_option (\<lambda>(a, b). (c # a, b)) (split_once s p))"

text \<open>
  \<open>char::is_whitespace\<close> (Unicode \<open>White_Space\<close>), as the number of bytes of a leading
  whitespace character, 0 when the text does not start with one.
\<close>

fun ws_len :: "string \<Rightarrow> nat" where
  "ws_len [] = 0"
| "ws_len (a # s) =
     (if (9 \<le> byte a \<and> byte a \<le> 13) \<or> byte a = 32 then 1
      else (case s of
        [] \<Rightarrow> 0
      | b # t \<Rightarrow>
       (if byte a = 0xC2 \<and> (byte b = 0x85 \<or> byte b = 0xA0) then 2
        else (case t of
          [] \<Rightarrow> 0
        | c # _ \<Rightarrow>
          (if (byte a = 0xE1 \<and> byte b = 0x9A \<and> byte c = 0x80) \<or>
             (byte a = 0xE2 \<and> byte b = 0x80 \<and>
               ((0x80 \<le> byte c \<and> byte c \<le> 0x8A) \<or> byte c = 0xA8 \<or> byte c = 0xA9 \<or> byte c = 0xAF)) \<or>
             (byte a = 0xE2 \<and> byte b = 0x81 \<and> byte c = 0x9F) \<or>
             (byte a = 0xE3 \<and> byte b = 0x80 \<and> byte c = 0x80)
          then 3 else 0)))))"

declare ws_len.simps(2) [simp del]

lemma ws_len_shrinks: "ws_len s \<noteq> 0 \<Longrightarrow> length s - ws_len s < length s"
  by (cases s) auto

function trim_start :: "string \<Rightarrow> string" where
  "trim_start s = (if ws_len s = 0 then s else trim_start (drop (ws_len s) s))"
  by pat_completeness auto
termination
  by (relation "measure length") (auto simp: ws_len_shrinks)

declare trim_start.simps [simp del]

text \<open>The whitespace character that ends a text, by its last one, two or three bytes.\<close>

definition ws_len_end :: "string \<Rightarrow> nat" where
  "ws_len_end s =
     (let n = length s in
      if n \<ge> 1 \<and> ws_len (drop (n - 1) s) = 1 then 1
      else if n \<ge> 2 \<and> ws_len (drop (n - 2) s) = 2 then 2
      else if n \<ge> 3 \<and> ws_len (drop (n - 3) s) = 3 then 3
      else 0)"

function trim_end :: "string \<Rightarrow> string" where
  "trim_end s = (if ws_len_end s = 0 then s else trim_end (take (length s - ws_len_end s) s))"
  by pat_completeness auto
termination
  by (relation "measure length") (auto simp: ws_len_end_def Let_def split: if_splits)

declare trim_end.simps [simp del]

definition trim :: "string \<Rightarrow> string" where
  "trim s = trim_end (trim_start s)"

lemma trim_end_brace: "trim_end (s @ ''}'') = s @ ''}''"
proof -
  let ?n = "length s"
  have "ws_len_end (s @ ''}'') = 0"
  proof -
    have 1: "ws_len ''}'' = 0" by (simp add: ws_len.simps(2) byte_def)
    have 2: "ws_len [x, CHR ''}''] \<noteq> 2" for x by (simp add: ws_len.simps(2) byte_def)
    have 3: "ws_len [x, y, CHR ''}''] \<noteq> 3" for x y by (simp add: ws_len.simps(2) byte_def)
    have d2: "\<exists>x. drop (?n - 1) s = [x]" if "1 \<le> ?n"
      using that by (cases s rule: rev_cases) auto
    have d3: "\<exists>x y. drop (?n - 2) s = [x, y]" if "2 \<le> ?n"
      using that by (cases s rule: rev_cases; cases "butlast s" rule: rev_cases) auto
    show ?thesis using 1 2 3 d2 d3
      by (fastforce simp: ws_len_end_def Let_def)
  qed
  then show ?thesis by (simp add: trim_end.simps)
qed

lemma trim_braces: "trim (''{'' @ s @ ''}'') = ''{'' @ s @ ''}''"
proof -
  have "ws_len (''{'' @ s @ ''}'') = 0"
    by (cases s; cases "tl s") (simp_all add: ws_len.simps(2) byte_def)
  then have "trim_start (''{'' @ s @ ''}'') = ''{'' @ s @ ''}''"
    by (subst trim_start.simps) simp
  then show ?thesis using trim_end_brace [of "''{'' @ s"] by (simp add: trim_def)
qed
text \<open>\<open>trim_matches(c)\<close>, \<open>trim_end_matches(c)\<close> for one ASCII character, and
  \<open>trim_start_matches(p)\<close> for a text.\<close>

definition trim_end_char :: "char \<Rightarrow> string \<Rightarrow> string" where
  "trim_end_char c s = rev (dropWhile (\<lambda>x. x = c) (rev s))"

definition trim_matches_char :: "char \<Rightarrow> string \<Rightarrow> string" where
  "trim_matches_char c s = trim_end_char c (dropWhile (\<lambda>x. x = c) s)"

definition trim_matches_set :: "char list \<Rightarrow> string \<Rightarrow> string" where
  "trim_matches_set cs s =
     rev (dropWhile (\<lambda>x. x \<in> set cs) (rev (dropWhile (\<lambda>x. x \<in> set cs) s)))"

function trim_start_str :: "string \<Rightarrow> string \<Rightarrow> string" where
  "trim_start_str p s =
     (if p \<noteq> [] \<and> prefix p s then trim_start_str p (drop (length p) s) else s)"
  by pat_completeness auto
termination
  by (relation "measure (\<lambda>(p, s). length s)") (auto simp: prefix_def)

declare trim_start_str.simps [simp del]

text \<open>\<open>s.replace(a, b)\<close> of one ASCII character by a text.\<close>

definition replace_char :: "char \<Rightarrow> string \<Rightarrow> string \<Rightarrow> string" where
  "replace_char a b s = concat (map (\<lambda>c. if c = a then b else [c]) s)"

text \<open>The segments of \<open>s.split(c)\<close>; \<open>rsplit(c).next()\<close> is the last of them.\<close>

fun split_char :: "char \<Rightarrow> string \<Rightarrow> string list" where
  "split_char d [] = [[]]"
| "split_char d (c # s) =
     (if c = d then [] # split_char d s
      else case split_char d s of
        [] \<Rightarrow> [[c]]
      | w # ws \<Rightarrow> (c # w) # ws)"

text \<open>\<open>s.split_whitespace()\<close>, for the fuel of one step per byte.\<close>

fun split_ws_aux :: "nat \<Rightarrow> string \<Rightarrow> string \<Rightarrow> string list" where
  "split_ws_aux 0 w s = (if w = [] then [] else [w])"
| "split_ws_aux (Suc n) w s =
     (case s of
        [] \<Rightarrow> (if w = [] then [] else [w])
      | c # t \<Rightarrow>
          (if ws_len s = 0 then split_ws_aux n (w @ [c]) t
           else (if w = [] then [] else [w]) @ split_ws_aux n [] (drop (ws_len s) s)))"

definition split_whitespace :: "string \<Rightarrow> string list" where
  "split_whitespace s = split_ws_aux (Suc (length s)) [] s"

section \<open>Lines\<close>

abbreviation (input) newline :: char where
  "newline \<equiv> CHR 0x0A"

text \<open>\<open>split_inclusive('\\n')\<close>: the pieces keep their line feed; no empty last piece.\<close>

fun split_inclusive :: "string \<Rightarrow> string list" where
  "split_inclusive [] = []"
| "split_inclusive (c # s) =
     (if c = CHR 0x0A then [c] # split_inclusive s
      else case split_inclusive s of
        [] \<Rightarrow> [[c]]
      | w # ws \<Rightarrow> (c # w) # ws)"

text \<open>\<open>str::lines\<close> drops a final LF of each piece, and a CR before that LF.\<close>

definition strip_eol :: "string \<Rightarrow> string" where
  "strip_eol l =
     (if l \<noteq> [] \<and> last l = CHR 0x0A then
        (let m = butlast l in
         if m \<noteq> [] \<and> last m = CHR 0x0D then butlast m else m)
      else l)"

definition lines :: "string \<Rightarrow> string list" where
  "lines s = map strip_eol (split_inclusive s)"

lemma concat_split_inclusive [simp]: "concat (split_inclusive s) = s"
  by (induction s) (auto split: list.splits)

lemma split_inclusive_eq_Nil [simp]: "split_inclusive s = [] \<longleftrightarrow> s = []"
  by (cases s) (auto split: list.splits)

lemma split_inclusive_nonempty: "w \<in> set (split_inclusive s) \<Longrightarrow> w \<noteq> []"
  by (induction s arbitrary: w) (auto split: list.splits if_splits)

text \<open>A line on its own, and after a text that ends with a line feed.\<close>

lemma split_inclusive_line:
  "CHR 0x0A \<notin> set l \<Longrightarrow> split_inclusive (l @ [CHR 0x0A]) = [l @ [CHR 0x0A]]"
  by (induction l) auto

lemma split_inclusive_tail: "CHR 0x0A \<notin> set l \<Longrightarrow> l \<noteq> [] \<Longrightarrow> split_inclusive l = [l]"
proof (induction l)
  case (Cons c l)
  then show ?case by (cases "l = []") auto
qed simp

lemma split_inclusive_append:
  "s = [] \<or> last s = CHR 0x0A \<Longrightarrow> split_inclusive (s @ t) = split_inclusive s @ split_inclusive t"
proof (induction s)
  case (Cons c s)
  then show ?case
    by (cases "s = []") (auto split: list.splits)
qed simp

lemma lines_append:
  "s = [] \<or> last s = CHR 0x0A \<Longrightarrow> lines (s @ t) = lines s @ lines t"
  by (simp add: lines_def split_inclusive_append)

lemma strip_eol_line:
  "CHR 0x0A \<notin> set l \<Longrightarrow> CHR 0x0D \<notin> set l \<Longrightarrow> strip_eol (l @ [CHR 0x0A]) = l"
  by (auto simp: strip_eol_def Let_def dest: last_in_set)

lemma strip_eol_id: "CHR 0x0A \<notin> set l \<Longrightarrow> strip_eol l = l"
  by (auto simp: strip_eol_def dest: last_in_set)

definition one_line :: "string \<Rightarrow> bool" where
  "one_line l \<longleftrightarrow> CHR 0x0A \<notin> set l \<and> CHR 0x0D \<notin> set l"

lemma lines_line: "one_line l \<Longrightarrow> lines (l @ [CHR 0x0A]) = [l]"
  by (simp add: lines_def one_line_def split_inclusive_line strip_eol_line)

lemma lines_tail: "one_line l \<Longrightarrow> l \<noteq> [] \<Longrightarrow> lines l = [l]"
  by (simp add: lines_def one_line_def split_inclusive_tail strip_eol_id)

lemma lines_Nil [simp]: "lines [] = []"
  by (simp add: lines_def)

text \<open>The text of a list of lines, each ended by a line feed.\<close>

definition unlines :: "string list \<Rightarrow> string" where
  "unlines ls = concat (map (\<lambda>l. l @ [CHR 0x0A]) ls)"

lemma unlines_simps [simp]:
  "unlines [] = []"
  "unlines (l # ls) = l @ CHR 0x0A # unlines ls"
  "unlines (ls @ ms) = unlines ls @ unlines ms"
  by (simp_all add: unlines_def)

lemma unlines_last: "ls \<noteq> [] \<Longrightarrow> last (unlines ls) = CHR 0x0A"
  by (induction ls rule: rev_induct) auto

lemma lines_unlines: "\<forall>l \<in> set ls. one_line l \<Longrightarrow> lines (unlines ls) = ls"
proof (induction ls)
  case (Cons l ls)
  have "lines (unlines (l # ls)) = lines ((l @ [CHR 0x0A]) @ unlines ls)" by simp
  also have "\<dots> = lines (l @ [CHR 0x0A]) @ lines (unlines ls)"
    by (rule lines_append) simp
  finally show ?case using Cons by (simp add: lines_line)
qed simp

lemma valid_utf8_unlines: "(\<forall>l \<in> set ls. valid_utf8 l) \<Longrightarrow> valid_utf8 (unlines ls)"
proof (induction ls)
  case (Cons l ls)
  have "valid_utf8 (CHR 0x0A # t) = valid_utf8 t" for t
    by (simp add: valid_utf8.simps(2) byte_def)
  with Cons show ?case by (simp add: valid_utf8_append)
qed simp

lemma split_inclusive_valid: "valid_utf8 s \<Longrightarrow> w \<in> set (split_inclusive s) \<Longrightarrow> valid_utf8 w"
proof (induction "length s" arbitrary: s rule: less_induct)
  case less
  show ?case
  proof (cases "CHR 0x0A \<in> set s")
    case False
    then show ?thesis using less.prems by (cases "s = []") (auto simp: split_inclusive_tail)
  next
    case True
    then obtain a b where s: "s = a @ CHR 0x0A # b" "CHR 0x0A \<notin> set a" using split_list_first [OF True] by blast
    have "byte (CHR 0x0A) < 0x80" by (simp add: byte_def)
    then have v: "valid_utf8 a" "valid_utf8 b"
      using valid_utf8_split [of a "CHR 0x0A" b] less.prems(1) [unfolded s(1)] by simp_all
    have "split_inclusive s = [a @ [CHR 0x0A]] @ split_inclusive b"
      using split_inclusive_append [of "a @ [CHR 0x0A]" b] split_inclusive_line [OF s(2)] s(1) by simp
    then consider "w = a @ [CHR 0x0A]" | "w \<in> set (split_inclusive b)" using less.prems(2) by auto
    then show ?thesis
    proof cases
      case 1
      have "valid_utf8 (unlines [a])" using v(1) valid_utf8_unlines [of "[a]"] by simp
      then show ?thesis using 1 by simp
    next
      case 2
      then show ?thesis using less.hyps [of b] v(2) s(1) by simp
    qed
  qed
qed

lemma lines_valid:
  assumes "valid_utf8 s" and "l \<in> set (lines s)"
  shows "valid_utf8 l"
proof -
  obtain w where w: "w \<in> set (split_inclusive s)" "l = strip_eol w" using assms(2) by (auto simp: lines_def)
  have v: "valid_utf8 w" using split_inclusive_valid [OF assms(1) w(1)] .
  have butlast: "valid_utf8 (butlast x)" if "valid_utf8 x" "x \<noteq> []" "byte (last x) < 0x80" for x
    using valid_utf8_split [of "butlast x" "last x" "[]"] that by simp
  have "byte (CHR 0x0A) < 0x80" "byte (CHR 0x0D) < 0x80" by (simp_all add: byte_def)
  then show ?thesis
    using v butlast by (auto simp: w(2) strip_eol_def Let_def)
qed
section \<open>Numbers as text\<close>

fun nat_digits :: "nat \<Rightarrow> string" where
  "nat_digits n =
     (if n < 10 then [char_of (48 + n)] else nat_digits (n div 10) @ [char_of (48 + n mod 10)])"

declare nat_digits.simps [simp del]

text \<open>\<open>{:0w$}\<close> for a natural number.\<close>

definition pad_digits :: "nat \<Rightarrow> nat \<Rightarrow> string" where
  "pad_digits w n = (let d = nat_digits n in replicate (w - length d) (CHR ''0'') @ d)"

definition join_with :: "string \<Rightarrow> string list \<Rightarrow> string" where
  "join_with sep xs = concat (case xs of [] \<Rightarrow> [] | y # ys \<Rightarrow> y # map (\<lambda>z. sep @ z) ys)"

text \<open>Printable ASCII.\<close>

definition plain :: "string \<Rightarrow> bool" where
  "plain s \<longleftrightarrow> list_all (\<lambda>c. 32 \<le> byte c \<and> byte c < 128) s"

lemma plain_simps [simp]:
  "plain []" "plain (c # s) \<longleftrightarrow> 32 \<le> byte c \<and> byte c < 128 \<and> plain s"
  "plain (s @ t) \<longleftrightarrow> plain s \<and> plain t"
  by (auto simp: plain_def)

lemma plain_nth: "plain s \<Longrightarrow> i < length s \<Longrightarrow> 32 \<le> byte (s ! i) \<and> byte (s ! i) < 128"
  by (simp add: plain_def list_all_length)

lemma plain_concat: "plain (concat ss) \<longleftrightarrow> (\<forall>s \<in> set ss. plain s)"
  by (induction ss) auto

lemma plain_one_line: "plain s \<Longrightarrow> one_line s"
  by (auto simp: plain_def list_all_iff one_line_def byte_def)

lemma plain_valid: "plain s \<Longrightarrow> valid_utf8 s"
  by (rule valid_utf8_ascii) (auto simp: plain_def list_all_iff)

lemma plain_nat_digits: "plain (nat_digits n)"
  by (induction n rule: nat_digits.induct)
    (subst nat_digits.simps, auto simp: byte_def)

text \<open>Reading the digits gives the number back, so numbers print differently.\<close>

lemma nat_digits_value: "foldl (\<lambda>a c. 10 * a + (byte c - 48)) 0 (nat_digits n) = n"
  by (induction n rule: nat_digits.induct) (subst nat_digits.simps, auto simp: byte_def)

lemma nat_digits_inj: "nat_digits m = nat_digits n \<Longrightarrow> m = n"
  by (metis nat_digits_value)

lemma nat_digits_digit: "c \<in> set (nat_digits n) \<Longrightarrow> is_ascii_digit c"
proof (induction n rule: nat_digits.induct)
  case (1 n)
  then show ?case
    by (subst (asm) (2) nat_digits.simps) (auto simp: byte_def is_ascii_digit_def split: if_splits)
qed

lemma plain_pad_digits: "plain (pad_digits w n)"
  by (auto simp: pad_digits_def Let_def plain_nat_digits plain_def list_all_iff byte_def [of "CHR ''0''"]
      plain_nat_digits [unfolded plain_def list_all_iff, rule_format])

text \<open>Evaluation of the text operations on literals.\<close>

lemmas text_eval =
  byte_def is_cont_def trim_def trim_start.simps trim_end.simps ws_len_end_def ws_len.simps(2)
  trim_end_char_def trim_matches_char_def trim_start_str.simps replace_char_def strip_prefix_def
  starts_with_def ends_with_def contains_str_def eq_ignore_ascii_case_def to_ascii_lowercase_def
  to_ascii_uppercase_def lower_char_def upper_char_def char_of_def bit_Suc bit_0

end
