(* ===== verification/Json_Model.thy ===== *)
theory Json_Model
  imports Text_Model
begin

text \<open>
  \<open>serde_json::Value\<close> and the accessors the program uses.  The crate is built without the
  \<open>preserve_order\<close> feature, so an object is a \<open>BTreeMap\<close>: an association list in
  ascending key order (\<open>wf_json\<close>).  A number is an unsigned, a negative or a floating
  point number; a float is its 64 bits, and two floats are equal when their bits are or
  when both are zeros (\<open>serde_json\<close> holds no infinities and no NaN).
  Printing and parsing belong to the crate and are parameters of the definitions that use
  them.
\<close>

section \<open>Values\<close>

datatype num = PosInt nat | NegInt int | Flt "64 word"

datatype json =
    JNull
  | JBool bool
  | JNum num
  | JStr string
  | JArr "json list"
  | JObj "(string \<times> json) list"

type_synonym jobject = "(string \<times> json) list"

fun is_object :: "json \<Rightarrow> bool" where
  "is_object (JObj m) = True"
| "is_object v = False"

fun is_string :: "json \<Rightarrow> bool" where
  "is_string (JStr s) = True"
| "is_string v = False"

fun is_number :: "json \<Rightarrow> bool" where
  "is_number (JNum n) = True"
| "is_number v = False"

fun as_object :: "json \<Rightarrow> jobject option" where
  "as_object (JObj m) = Some m"
| "as_object v = None"

fun as_array :: "json \<Rightarrow> json list option" where
  "as_array (JArr xs) = Some xs"
| "as_array v = None"

fun as_str :: "json \<Rightarrow> string option" where
  "as_str (JStr s) = Some s"
| "as_str v = None"

fun as_bool :: "json \<Rightarrow> bool option" where
  "as_bool (JBool b) = Some b"
| "as_bool v = None"

fun as_u64 :: "json \<Rightarrow> nat option" where
  "as_u64 (JNum (PosInt n)) = Some n"
| "as_u64 v = None"

text \<open>\<open>as_i64\<close>: an unsigned number only when it fits.\<close>

fun as_i64 :: "json \<Rightarrow> int option" where
  "as_i64 (JNum (PosInt n)) = (if n < 2 ^ 63 then Some (int n) else None)"
| "as_i64 (JNum (NegInt i)) = Some i"
| "as_i64 v = None"

text \<open>\<open>value.get(key)\<close>, and \<open>value[key]\<close>, which is \<open>null\<close> where there is nothing.\<close>

definition jget :: "json \<Rightarrow> string \<Rightarrow> json option" where
  "jget v k = (case v of JObj m \<Rightarrow> map_of m k | _ \<Rightarrow> None)"

definition jidx :: "json \<Rightarrow> string \<Rightarrow> json" where
  "jidx v k = (case jget v k of None \<Rightarrow> JNull | Some x \<Rightarrow> x)"

definition jget_str :: "json \<Rightarrow> string \<Rightarrow> string option" where
  "jget_str v k = Option.bind (jget v k) as_str"

text \<open>\<open>value.pointer("/a/b")\<close> for pointers made of object keys.\<close>

fun jpointer :: "json \<Rightarrow> string list \<Rightarrow> json option" where
  "jpointer v [] = Some v"
| "jpointer v (k # ks) = (case jget v k of None \<Rightarrow> None | Some x \<Rightarrow> jpointer x ks)"

lemma jget_JObj [simp]: "jget (JObj m) k = map_of m k"
  by (simp add: jget_def)

lemma jget_other [simp]:
  "jget JNull k = None" "jget (JBool b) k = None" "jget (JNum n) k = None"
  "jget (JStr s) k = None" "jget (JArr xs) k = None"
  by (simp_all add: jget_def)

lemma jget_Some: "jget v k = Some x \<Longrightarrow> \<exists>m. v = JObj m \<and> map_of m k = Some x"
  by (cases v) auto

text \<open>An object literal \<open>json!({...})\<close>: the fields inserted one by one.\<close>

definition obj_of :: "(string \<times> json) list \<Rightarrow> jobject" where
  "obj_of kvs = fold (\<lambda>(k, v). omap_insert k v) kvs []"

abbreviation jobj :: "(string \<times> json) list \<Rightarrow> json" where
  "jobj kvs \<equiv> JObj (obj_of kvs)"

definition jnat :: "nat \<Rightarrow> json" where
  "jnat n = JNum (PosInt n)"

lemma jnat_simps [simp]:
  "as_u64 (jnat n) = Some n" "is_number (jnat n)" "as_str (jnat n) = None" "\<not> is_string (jnat n)"
  "jnat m = jnat n \<longleftrightarrow> m = n" "jnat n \<noteq> JStr s" "jnat n \<noteq> JNull" "jnat n \<noteq> JObj ob" "jnat n \<noteq> JArr xs"
  by (simp_all add: jnat_def)

lemma obj_of_ok [simp]: "omap_ok (obj_of kvs)"
proof -
  have "omap_ok m \<Longrightarrow> omap_ok (fold (\<lambda>(k, v). omap_insert k v) kvs m)" for m :: jobject
    by (induction kvs arbitrary: m) auto
  then show ?thesis by (simp add: obj_of_def)
qed

lemma obj_of_map_of: "map_of (obj_of kvs) k = map_of (rev kvs) k"
proof -
  have "map_of (fold (\<lambda>(k, v). omap_insert k v) kvs m) k =
          (case map_of (rev kvs) k of None \<Rightarrow> map_of m k | Some v \<Rightarrow> Some v)" for m :: jobject
    by (induction kvs arbitrary: m) (auto simp: map_add_def split: option.splits)
  from this [of "[]"] show ?thesis by (simp add: obj_of_def split: option.splits)
qed

section \<open>Well-formed values, keys and sizes\<close>

text \<open>Recursion over values goes through the array and object lists explicitly.\<close>

fun wf_json :: "json \<Rightarrow> bool"
  and wf_list :: "json list \<Rightarrow> bool"
  and wf_fields :: "jobject \<Rightarrow> bool" where
  "wf_json (JArr xs) = wf_list xs"
| "wf_json (JObj m) = (omap_ok m \<and> wf_fields m)"
| "wf_json v = True"
| "wf_list [] = True"
| "wf_list (x # xs) = (wf_json x \<and> wf_list xs)"
| "wf_fields [] = True"
| "wf_fields (kv # m) = (wf_json (snd kv) \<and> wf_fields m)"

lemma wf_list_iff: "wf_list xs \<longleftrightarrow> (\<forall>x \<in> set xs. wf_json x)"
  by (induction xs) auto

lemma wf_fields_iff: "wf_fields m \<longleftrightarrow> (\<forall>kv \<in> set m. wf_json (snd kv))"
  by (induction m) auto

text \<open>The number of value nodes, whatever the lengths of the texts.\<close>

fun jnodes :: "json \<Rightarrow> nat"
  and jnodes_list :: "json list \<Rightarrow> nat"
  and jnodes_fields :: "jobject \<Rightarrow> nat" where
  "jnodes (JArr xs) = Suc (jnodes_list xs)"
| "jnodes (JObj m) = Suc (jnodes_fields m)"
| "jnodes v = 1"
| "jnodes_list [] = 0"
| "jnodes_list (x # xs) = jnodes x + jnodes_list xs"
| "jnodes_fields [] = 0"
| "jnodes_fields (kv # m) = jnodes (snd kv) + jnodes_fields m"

lemma jnodes_pos [simp]: "0 < jnodes v"
  by (cases v) auto

lemma jnodes_fields_mem: "(k, v) \<in> set m \<Longrightarrow> jnodes v \<le> jnodes_fields m"
  by (induction m) auto

lemma jget_jnodes: "jget v k = Some x \<Longrightarrow> jnodes x < jnodes v"
  by (auto dest!: jget_Some map_of_SomeD jnodes_fields_mem)

text \<open>Every object key that occurs in a value.\<close>

fun jkeys :: "json \<Rightarrow> string set"
  and jkeys_list :: "json list \<Rightarrow> string set"
  and jkeys_fields :: "jobject \<Rightarrow> string set" where
  "jkeys (JArr xs) = jkeys_list xs"
| "jkeys (JObj m) = jkeys_fields m"
| "jkeys v = {}"
| "jkeys_list [] = {}"
| "jkeys_list (x # xs) = jkeys x \<union> jkeys_list xs"
| "jkeys_fields [] = {}"
| "jkeys_fields (kv # m) = insert (fst kv) (jkeys (snd kv) \<union> jkeys_fields m)"

lemma jkeys_finite [simp]:
  "finite (jkeys v)" "finite (jkeys_list xs)" "finite (jkeys_fields m)"
  by (induction v and xs and m rule: jkeys_jkeys_list_jkeys_fields.induct) auto

lemma jkeys_fields_fst: "map_of m k \<noteq> None \<Longrightarrow> k \<in> jkeys_fields m"
  by (induction m) auto

section \<open>Equality of values\<close>

definition is_zero_bits :: "64 word \<Rightarrow> bool" where
  "is_zero_bits w \<longleftrightarrow> w = 0 \<or> w = 0x8000000000000000"

fun num_eq :: "num \<Rightarrow> num \<Rightarrow> bool" where
  "num_eq (PosInt a) (PosInt b) = (a = b)"
| "num_eq (NegInt a) (NegInt b) = (a = b)"
| "num_eq (Flt a) (Flt b) = (a = b \<or> (is_zero_bits a \<and> is_zero_bits b))"
| "num_eq x y = False"

fun js_eq :: "json \<Rightarrow> json \<Rightarrow> bool"
  and js_eq_list :: "json list \<Rightarrow> json list \<Rightarrow> bool"
  and js_eq_fields :: "jobject \<Rightarrow> jobject \<Rightarrow> bool" where
  "js_eq (JNum a) (JNum b) = num_eq a b"
| "js_eq (JArr xs) (JArr ys) = js_eq_list xs ys"
| "js_eq (JObj m) (JObj n) = js_eq_fields m n"
| "js_eq v w = (v = w)"
| "js_eq_list (x # xs) (y # ys) = (js_eq x y \<and> js_eq_list xs ys)"
| "js_eq_list xs ys = (xs = ys)"
| "js_eq_fields (kv # m) (lw # n) =
     (fst kv = fst lw \<and> js_eq (snd kv) (snd lw) \<and> js_eq_fields m n)"
| "js_eq_fields m n = (m = n)"

lemma num_eq_refl [simp]: "num_eq n n"
  by (cases n) auto

lemma num_eq_sym: "num_eq m n \<Longrightarrow> num_eq n m"
  by (cases m; cases n) auto

lemma num_eq_trans: "num_eq a b \<Longrightarrow> num_eq b c \<Longrightarrow> num_eq a c"
  by (cases a; cases b; cases c) auto

lemma js_eq_refl [simp]: "js_eq v v" "js_eq_list xs xs" "js_eq_fields m m"
  by (induction v and xs and m rule: jkeys_jkeys_list_jkeys_fields.induct) auto

lemma js_eq_sym:
  "js_eq v w \<Longrightarrow> js_eq w v"
  "js_eq_list xs ys \<Longrightarrow> js_eq_list ys xs"
  "js_eq_fields m n \<Longrightarrow> js_eq_fields n m"
  by (induction v w and xs ys and m n rule: js_eq_js_eq_list_js_eq_fields.induct) (auto dest: num_eq_sym)

lemma js_eq_JStr [simp]: "js_eq v (JStr s) \<longleftrightarrow> v = JStr s" "js_eq (JStr s) v \<longleftrightarrow> v = JStr s"
  by (cases v; auto)+

lemma js_eq_list_iff: "js_eq_list xs ys \<longleftrightarrow> list_all2 js_eq xs ys"
  by (induction xs ys rule: list_induct2') auto

lemma js_eq_fields_iff:
  "js_eq_fields m n \<longleftrightarrow> list_all2 (\<lambda>a b. fst a = fst b \<and> js_eq (snd a) (snd b)) m n"
  by (induction m n rule: list_induct2') auto

text \<open>No negative zero: then equality of values is equality.\<close>

fun no_neg_zero :: "json \<Rightarrow> bool"
  and no_neg_zero_list :: "json list \<Rightarrow> bool"
  and no_neg_zero_fields :: "jobject \<Rightarrow> bool" where
  "no_neg_zero (JNum n) = (n \<noteq> Flt 0x8000000000000000)"
| "no_neg_zero (JArr xs) = no_neg_zero_list xs"
| "no_neg_zero (JObj m) = no_neg_zero_fields m"
| "no_neg_zero v = True"
| "no_neg_zero_list [] = True"
| "no_neg_zero_list (x # xs) = (no_neg_zero x \<and> no_neg_zero_list xs)"
| "no_neg_zero_fields [] = True"
| "no_neg_zero_fields (kv # m) = (no_neg_zero (snd kv) \<and> no_neg_zero_fields m)"

lemma no_neg_zero_list_iff: "no_neg_zero_list xs \<longleftrightarrow> (\<forall>x \<in> set xs. no_neg_zero x)"
  by (induction xs) auto

lemma no_neg_zero_fields_iff: "no_neg_zero_fields m \<longleftrightarrow> (\<forall>kv \<in> set m. no_neg_zero (snd kv))"
  by (induction m) auto

lemma num_eq_eq:
  "num_eq a b \<Longrightarrow> a \<noteq> Flt 0x8000000000000000 \<Longrightarrow> b \<noteq> Flt 0x8000000000000000 \<Longrightarrow> a = b"
  by (cases a; cases b) (auto simp: is_zero_bits_def)

lemma js_eq_eq:
  "js_eq v w \<Longrightarrow> no_neg_zero v \<Longrightarrow> no_neg_zero w \<Longrightarrow> v = w"
  "js_eq_list xs ys \<Longrightarrow> no_neg_zero_list xs \<Longrightarrow> no_neg_zero_list ys \<Longrightarrow> xs = ys"
  "js_eq_fields m n \<Longrightarrow> no_neg_zero_fields m \<Longrightarrow> no_neg_zero_fields n \<Longrightarrow> m = n"
  by (induction v w and xs ys and m n rule: js_eq_js_eq_list_js_eq_fields.induct)
    (auto dest: num_eq_eq intro: prod_eqI)

end
