(* ===== verification/Ids.thy ===== *)
theory Ids
  imports Json_Model
begin

text \<open>
  Canonical JSON and convergent event ids (\<open>crates/innen-core/src/ids.rs\<close>).  The digest
  \<open>sha\<close> of the crate \<open>sha2\<close> and the printer \<open>ser\<close> of \<open>serde_json\<close> are parameters; the
  hexadecimal rendering, the canonical form and the envelope are the code's.  The lemmas
  show that the canonical form is well formed, does not depend on the order in which fields
  are supplied, and that an event id forgets the observation time of its payload and
  nothing else.
\<close>

definition SCHEMA_VERSION :: string where
  "SCHEMA_VERSION = ''innen/v1''"

definition VOLATILE_NODE_EDGE :: "string list" where
  "VOLATILE_NODE_EDGE = [''observed_utc'']"

section \<open>Hexadecimal digests\<close>

definition HEX :: string where
  "HEX = ''0123456789abcdef''"

definition hex_byte :: "8 word \<Rightarrow> string" where
  "hex_byte b = [HEX ! unat (drop_bit 4 b), HEX ! unat (and b 0x0f)]"

definition sha256_hex :: "(string \<Rightarrow> 8 word list) \<Rightarrow> string \<Rightarrow> string" where
  "sha256_hex sha bytes = concat (map hex_byte (sha bytes))"

lemma sha256_hex_length: "length (sha256_hex sha bytes) = 2 * length (sha bytes)"
proof -
  have "length (concat (map hex_byte bs)) = 2 * length bs" for bs
    by (induction bs) (auto simp: hex_byte_def)
  then show ?thesis by (simp add: sha256_hex_def)
qed

lemma HEX_inj: "i < 16 \<Longrightarrow> j < 16 \<Longrightarrow> HEX ! i = HEX ! j \<Longrightarrow> i = j"
proof -
  have "distinct HEX" "length HEX = 16" by (simp_all add: HEX_def)
  then show "i < 16 \<Longrightarrow> j < 16 \<Longrightarrow> HEX ! i = HEX ! j \<Longrightarrow> i = j"
    by (simp add: nth_eq_iff_index_eq)
qed

lemma hex_nibbles: "unat (drop_bit 4 x) < 16" "unat (and x 0x0f) < 16" for x :: "8 word"
proof -
  have "unat (drop_bit 4 x) = unat x div 16"
    by (simp add: drop_bit_eq_div unat_div)
  moreover have "unat x < 256" using unsigned_less [of x] by simp
  ultimately show "unat (drop_bit 4 x) < 16" by simp
  have "unat (and x 0x0f) \<le> unat (0x0f :: 8 word)"
    by (rule word_and_le1 [THEN word_le_nat_alt [THEN iffD1]])
  then show "unat (and x 0x0f) < 16" by simp
qed

lemma hex_byte_inj:
  assumes "hex_byte a = hex_byte b"
  shows "a = b"
proof -
  from assms have "drop_bit 4 a = drop_bit 4 b" "and a 0x0f = and b 0x0f"
    using hex_nibbles by (auto simp: hex_byte_def word_unat_eq_iff dest!: HEX_inj [rotated 2])
  moreover have "x = or (push_bit 4 (drop_bit 4 x)) (and x 0x0f)" for x :: "8 word"
  proof -
    have m: "(0x0f :: 8 word) = mask 4" by (simp add: mask_eq_exp_minus_1)
    show ?thesis
      unfolding m by (rule bit_word_eqI) (simp only: bit_simps, auto)
  qed
  ultimately show ?thesis by metis
qed

lemma sha256_hex_inj:
  assumes "sha256_hex sha x = sha256_hex sha y"
  shows "sha x = sha y"
proof -
  have "concat (map hex_byte as) = concat (map hex_byte bs) \<Longrightarrow> as = bs" for as bs
  proof (induction as arbitrary: bs)
    case Nil
    then show ?case by (cases bs) (auto simp: hex_byte_def)
  next
    case (Cons a as)
    then obtain b bs' where bs: "bs = b # bs'" by (cases bs) (auto simp: hex_byte_def)
    moreover have "length (hex_byte x) = 2" for x by (simp add: hex_byte_def)
    ultimately have "hex_byte a = hex_byte b"
        "concat (map hex_byte as) = concat (map hex_byte bs')"
      using Cons.prems by simp_all
    with Cons.IH bs show ?case by (auto dest: hex_byte_inj)
  qed
  with assms show ?thesis by (simp add: sha256_hex_def)
qed

lemma plain_sha256_hex: "plain (sha256_hex sha s)"
proof -
  have "plain HEX" "length HEX = 16" by (simp_all add: HEX_def byte_def)
  then have "plain (hex_byte b)" for b
    using hex_nibbles [of b] plain_nth [of HEX] by (simp add: hex_byte_def)
  then show ?thesis by (simp add: sha256_hex_def plain_concat)
qed

section \<open>Canonical values\<close>

text \<open>
  \<open>canonical_value\<close> sorts the keys of every object and inserts the canonical fields into a
  new map, keeping arrays in order.
\<close>

definition sort_fields :: "jobject \<Rightarrow> jobject" where
  "sort_fields m = fold (\<lambda>k. omap_insert k (the (map_of m k))) (sort (map fst m)) []"

fun canonical_value :: "json \<Rightarrow> json"
  and canonical_list :: "json list \<Rightarrow> json list"
  and canonical_fields :: "jobject \<Rightarrow> jobject" where
  "canonical_value (JObj m) = JObj (sort_fields (canonical_fields m))"
| "canonical_value (JArr xs) = JArr (canonical_list xs)"
| "canonical_value v = v"
| "canonical_list [] = []"
| "canonical_list (x # xs) = canonical_value x # canonical_list xs"
| "canonical_fields [] = []"
| "canonical_fields (kv # m) = (fst kv, canonical_value (snd kv)) # canonical_fields m"

lemma canonical_list_map: "canonical_list xs = map canonical_value xs"
  by (induction xs) auto

lemma canonical_fields_map: "canonical_fields m = map (\<lambda>(k, v). (k, canonical_value v)) m"
  by (induction m) auto

lemma fold_insert_keys:
  "omap_ok acc \<Longrightarrow> omap_ok (fold (\<lambda>k. omap_insert k (g k)) ks acc)"
  "map_of (fold (\<lambda>k. omap_insert k (g k)) ks acc) =
     (\<lambda>k. if k \<in> set ks then Some (g k) else map_of acc k)"
  by (induction ks arbitrary: acc) (auto simp: fun_eq_iff)

lemma sort_fields_ok [simp]: "omap_ok (sort_fields m)"
  by (simp add: sort_fields_def fold_insert_keys)

lemma sort_fields_map_of [simp]: "map_of (sort_fields m) = map_of m"
proof
  fix k show "map_of (sort_fields m) k = map_of m k"
  proof (cases "map_of m k")
    case None
    then have "k \<notin> fst ` set m" by (simp add: map_of_eq_None_iff)
    with None show ?thesis by (simp add: sort_fields_def fold_insert_keys)
  next
    case (Some v)
    then have "k \<in> fst ` set m" by (force dest: map_of_SomeD)
    with Some show ?thesis by (simp add: sort_fields_def fold_insert_keys)
  qed
qed

lemma sort_fields_id: "omap_ok m \<Longrightarrow> sort_fields m = m"
  by (intro omap_ext) auto

lemma canonical_fields_map_of: "map_of (canonical_fields m) k = map_option canonical_value (map_of m k)"
  by (simp add: canonical_fields_map map_of_map)

text \<open>On a well-formed value the canonical form is the value itself.\<close>

lemma canonical_wf:
  "wf_json v \<Longrightarrow> canonical_value v = v"
  "wf_list xs \<Longrightarrow> canonical_list xs = xs"
  "wf_fields m \<Longrightarrow> canonical_fields m = m"
  by (induction v and xs and m rule: canonical_value_canonical_list_canonical_fields.induct)
    (auto simp: sort_fields_id)

lemma sort_fields_set: "x \<in> set (sort_fields m) \<Longrightarrow> x \<in> set m"
  by (cases x) (metis sort_fields_ok omap_map_of_iff sort_fields_map_of map_of_SomeD)

lemma canonical_is_wf:
  "wf_json (canonical_value v)"
  "wf_list (canonical_list xs)"
  "wf_fields (canonical_fields m)"
  by (induction v and xs and m rule: canonical_value_canonical_list_canonical_fields.induct)
    (auto simp: wf_fields_iff dest: sort_fields_set)

text \<open>The same object with its fields in another order, at any depth.\<close>

inductive same_fields :: "json \<Rightarrow> json \<Rightarrow> bool" where
  same_refl: "same_fields v v"
| same_arr: "list_all2 same_fields xs ys \<Longrightarrow> same_fields (JArr xs) (JArr ys)"
| same_obj: "distinct (map fst m) \<Longrightarrow> distinct (map fst n) \<Longrightarrow> fst ` set m = fst ` set n \<Longrightarrow>
    (\<And>k v w. map_of m k = Some v \<Longrightarrow> map_of n k = Some w \<Longrightarrow> same_fields v w) \<Longrightarrow>
    same_fields (JObj m) (JObj n)"

lemma canonical_same_fields: "same_fields v w \<Longrightarrow> canonical_value v = canonical_value w"
proof (induction rule: same_fields.induct)
  case (same_arr xs ys)
  then show ?case
    by (auto simp: canonical_list_map list_all2_conv_all_nth intro: nth_equalityI)
next
  case (same_obj m n)
  have "map_of (canonical_fields m) k = map_of (canonical_fields n) k" for k
  proof (cases "map_of m k")
    case None
    with same_obj have "map_of n k = None" by (simp add: map_of_eq_None_iff)
    with None show ?thesis by (simp add: canonical_fields_map_of)
  next
    case (Some v)
    with same_obj(3) obtain w where "map_of n k = Some w"
      by (metis map_of_eq_None_iff not_None_eq)
    with Some same_obj(5) show ?thesis by (simp add: canonical_fields_map_of)
  qed
  then have "sort_fields (canonical_fields m) = sort_fields (canonical_fields n)"
    by (intro omap_ext) (auto simp: fun_eq_iff)
  then show ?case by simp
qed simp

section \<open>Event ids\<close>

text \<open>The envelope: the fields \<open>v\<close>, \<open>op\<close>, \<open>payload\<close> in this order, as \<open>serde\<close> prints them.\<close>

definition envelope :: "(json \<Rightarrow> string) \<Rightarrow> string \<Rightarrow> json \<Rightarrow> string" where
  "envelope ser op payload =
     ''{'' @ [CHR 0x22] @ ''v'' @ [CHR 0x22] @ '':'' @ ser (JStr SCHEMA_VERSION) @
     '','' @ [CHR 0x22] @ ''op'' @ [CHR 0x22] @ '':'' @ ser (JStr op) @
     '','' @ [CHR 0x22] @ ''payload'' @ [CHR 0x22] @ '':'' @ ser payload @ ''}''"

definition remove_volatile :: "string list \<Rightarrow> json \<Rightarrow> json" where
  "remove_volatile volatile v =
     (case v of JObj m \<Rightarrow> JObj (fold omap_remove volatile m) | _ \<Rightarrow> v)"

definition canonical_bytes :: "(json \<Rightarrow> string) \<Rightarrow> string \<Rightarrow> json \<Rightarrow> string list \<Rightarrow> string" where
  "canonical_bytes ser op payload volatile =
     envelope ser op (remove_volatile volatile (canonical_value payload))"

definition event_id :: "(string \<Rightarrow> 8 word list) \<Rightarrow> (json \<Rightarrow> string) \<Rightarrow> string \<Rightarrow> json \<Rightarrow> string" where
  "event_id sha ser op payload =
     sha256_hex sha (canonical_bytes ser op payload VOLATILE_NODE_EDGE)"

lemma event_id_same_fields:
  "same_fields v w \<Longrightarrow> event_id sha ser op v = event_id sha ser op w"
  by (simp add: event_id_def canonical_bytes_def canonical_same_fields)

text \<open>Setting the observation time of a payload does not change what is hashed.\<close>

lemma remove_volatile_insert:
  assumes "omap_ok m"
  shows "remove_volatile VOLATILE_NODE_EDGE (JObj (omap_insert ''observed_utc'' v m)) =
         remove_volatile VOLATILE_NODE_EDGE (JObj m)"
  using assms
  by (auto simp: remove_volatile_def VOLATILE_NODE_EDGE_def intro!: omap_ext)

lemma event_id_observed:
  assumes "wf_json (JObj m)" and "wf_json v"
  shows "event_id sha ser op (JObj (omap_insert ''observed_utc'' v m)) =
         event_id sha ser op (JObj m)"
proof -
  have "wf_json (JObj (omap_insert ''observed_utc'' v m))"
    using assms by (auto simp: wf_fields_iff dest!: omap_insert_setD)
  then have "canonical_value (JObj (omap_insert ''observed_utc'' v m)) =
      JObj (omap_insert ''observed_utc'' v m)" and "canonical_value (JObj m) = JObj m"
    using assms(1) by (simp_all only: canonical_wf)
  then show ?thesis
    using assms(1)
    by (simp add: event_id_def canonical_bytes_def remove_volatile_insert del: canonical_value.simps)
qed

section \<open>Properties\<close>

text \<open>Event ids converge: two payloads that hold the same fields in any order, at any depth,
  have the same id under the same op, also when one of them carries an observation time that
  the other does not; so an event recorded twice has one id.\<close>

theorem event_id_convergent:
  assumes "wf_json (JObj m)" and "wf_json t"
    and "same_fields v (JObj (omap_insert ''observed_utc'' t m))" and "same_fields w (JObj m)"
  shows "event_id sha ser op v = event_id sha ser op w"
  using event_id_same_fields [OF assms(3)] event_id_same_fields [OF assms(4)]
    event_id_observed [OF assms(1,2)] by simp

theorem event_id_convergent_witness:
  "event_id (\<lambda>s. map (word_of_nat \<circ> byte) s) (\<lambda>v. if is_object v then ''o'' else ''s'') ''node.upsert''
     (JObj [(''type'', JStr ''Task''), (''id'', JStr ''n1''), (''observed_utc'', JStr ''now'')]) =
   event_id (\<lambda>s. map (word_of_nat \<circ> byte) s) (\<lambda>v. if is_object v then ''o'' else ''s'') ''node.upsert''
     (JObj [(''type'', JStr ''Task''), (''id'', JStr ''n1'')])"
proof (rule event_id_convergent)
  show "wf_json (JObj [(''id'', JStr ''n1''), (''type'', JStr ''Task'')])" by (simp add: less_char_def)
  show "wf_json (JStr ''now'')" by simp
qed (auto intro!: same_obj same_refl split: if_splits)

text \<open>Event ids tell events apart: under one op, if the digest has no collision on the two
  canonical texts and the printer prints the two canonical payloads alike only when they are
  one, equal ids mean equal canonical payloads up to the observation time.\<close>

definition hashed_payload :: "json \<Rightarrow> json" where
  "hashed_payload v = remove_volatile VOLATILE_NODE_EDGE (canonical_value v)"

theorem event_id_separates:
  assumes "event_id sha ser op v = event_id sha ser op w"
    and "sha (canonical_bytes ser op v VOLATILE_NODE_EDGE) = sha (canonical_bytes ser op w VOLATILE_NODE_EDGE)
      \<Longrightarrow> canonical_bytes ser op v VOLATILE_NODE_EDGE = canonical_bytes ser op w VOLATILE_NODE_EDGE"
    and "ser (hashed_payload v) = ser (hashed_payload w) \<Longrightarrow> hashed_payload v = hashed_payload w"
  shows "hashed_payload v = hashed_payload w"
proof -
  have "canonical_bytes ser op v VOLATILE_NODE_EDGE = canonical_bytes ser op w VOLATILE_NODE_EDGE"
    using assms(1) by (intro assms(2)) (auto simp: event_id_def dest: sha256_hex_inj)
  then have "ser (hashed_payload v) = ser (hashed_payload w)"
    by (simp add: canonical_bytes_def envelope_def hashed_payload_def)
  then show ?thesis by (rule assms(3))
qed

theorem event_id_separates_witness:
  "hashed_payload (JObj [(''id'', JStr ''n1''), (''observed_utc'', JStr ''now'')]) =
   hashed_payload (JObj [(''id'', JStr ''n1'')])"
proof (rule event_id_separates [of "\<lambda>s. [word_of_nat (length s)]" "\<lambda>v. ''x''" "''node.upsert''"])
  show "event_id (\<lambda>s. [word_of_nat (length s)]) (\<lambda>v. ''x'') ''node.upsert''
      (JObj [(''id'', JStr ''n1''), (''observed_utc'', JStr ''now'')]) =
    event_id (\<lambda>s. [word_of_nat (length s)]) (\<lambda>v. ''x'') ''node.upsert'' (JObj [(''id'', JStr ''n1'')])"
    by (simp add: event_id_def canonical_bytes_def envelope_def)
  show "hashed_payload (JObj [(''id'', JStr ''n1''), (''observed_utc'', JStr ''now'')]) =
    hashed_payload (JObj [(''id'', JStr ''n1'')])"
    by code_simp
qed (simp add: canonical_bytes_def envelope_def)

end
