(* ===== verification/Utc_Clock.thy ===== *)
theory Utc_Clock
  imports Text_Model
begin

text \<open>
  The hand-rolled UTC clock of the journal (\<open>format_utc\<close> of
  \<open>crates/innen-core/src/journal.rs\<close>): Unix seconds to \<open>YYYY-MM-DDTHH:MM:SSZ\<close>.
  Seconds are unsigned, so every quotient below is of non-negative numbers, where the
  truncating division of the code and \<open>div\<close> agree.  The lemmas show that the civil date
  moves forward by one calendar day per day, so that the text order of two timestamps is
  their time order; replay and validity windows of the graph compare timestamps as texts.
\<close>

section \<open>Definitions\<close>

definition year_of_era :: "int \<Rightarrow> int" where
  "year_of_era doe = (doe - doe div 1460 + doe div 36524 - doe div 146096) div 365"

definition civil_date :: "int \<Rightarrow> int \<times> int \<times> int" where
  "civil_date days =
     (let z = days + 719468;
          era = (if z \<ge> 0 then z else z - 146096) div 146097;
          doe = z - era * 146097;
          yoe = year_of_era doe;
          y = yoe + era * 400;
          doy = doe - (365 * yoe + yoe div 4 - yoe div 100);
          mp = (5 * doy + 2) div 153;
          d = doy - (153 * mp + 2) div 5 + 1;
          m = (if mp < 10 then mp + 3 else mp - 9);
          year = (if m \<le> 2 then y + 1 else y)
      in (year, m, d))"

definition format_date :: "int \<times> int \<times> int \<Rightarrow> string" where
  "format_date = (\<lambda>(year, m, d).
     pad_digits 4 (nat year) @ ''-'' @ pad_digits 2 (nat m) @ ''-'' @ pad_digits 2 (nat d))"

definition format_time :: "nat \<Rightarrow> string" where
  "format_time s =
     pad_digits 2 (s div 3600) @ '':'' @ pad_digits 2 (s mod 3600 div 60) @ '':'' @
     pad_digits 2 (s mod 60)"

definition format_utc :: "nat \<Rightarrow> string" where
  "format_utc secs =
     format_date (civil_date (int (secs div 86400))) @ ''T'' @
     format_time (secs mod 86400) @ ''Z''"

section \<open>The civil date\<close>

definition year_start :: "int \<Rightarrow> int" where
  "year_start y = 365 * y + y div 4 - y div 100"

definition year_end :: "int \<Rightarrow> int" where
  "year_end y = (if y = 399 then 146096 else year_start (y + 1) - 1)"

lemma div_bounds: "0 < k \<Longrightarrow> k * (x div k) \<le> x \<and> x < k * (x div k) + k" for x k :: int
  by (metis add.commute add_strict_left_mono mult_div_mod_eq le_add_same_cancel1 pos_mod_bound
      pos_mod_sign)

text \<open>The days of year \<open>y\<close> of the era (March to February) are those between its bounds.\<close>

lemma year_of_era_unique:
  assumes "0 \<le> y" and "y < 400" and "year_start y \<le> doe" and "doe \<le> year_end y"
  shows "year_of_era doe = y"
proof -
  define q c a b d where "q = y div 4" and "c = y div 100"
    and "a = doe div 1460" and "b = doe div 36524" and "d = doe div 146096"
  define q' c' where "q' = (y + 1) div 4" and "c' = (y + 1) div 100"
  have bounds: "4 * q \<le> y" "y < 4 * q + 4" "100 * c \<le> y" "y < 100 * c + 100"
      "1460 * a \<le> doe" "doe < 1460 * a + 1460" "36524 * b \<le> doe" "doe < 36524 * b + 36524"
      "146096 * d \<le> doe" "doe < 146096 * d + 146096"
      "4 * q' \<le> y + 1" "y + 1 < 4 * q' + 4" "100 * c' \<le> y + 1" "y + 1 < 100 * c' + 100"
    using div_bounds [of 4 y] div_bounds [of 100 y] div_bounds [of 1460 doe]
      div_bounds [of 36524 doe] div_bounds [of 146096 doe] div_bounds [of 4 "y + 1"]
      div_bounds [of 100 "y + 1"]
    by (simp_all add: q_def c_def a_def b_def d_def q'_def c'_def)
  have doe: "365 * y + q - c \<le> doe"
    using assms(3) by (simp add: year_start_def q_def c_def)
  have qc: "25 * c \<le> q" "q \<le> 25 * c + 24" "0 \<le> c" "c \<le> 3"
    using bounds assms(1,2) by linarith+
  have "365 * y \<le> doe - a + b - d \<and> doe - a + b - d < 365 * y + 365"
  proof (cases "y = 399")
    case True
    then have u: "doe \<le> 146096" "q = 99" "c = 3"
      using assms(4) bounds by (simp add: year_end_def, linarith+)
    with doe True have l: "145731 \<le> doe" by simp
    have "b - d = 3"
    proof (cases "doe = 146096")
      case True
      then show ?thesis by (simp add: b_def d_def)
    next
      case False
      with u l bounds have "d = 0" "b = 3" by linarith+
      then show ?thesis by simp
    qed
    moreover have "a = 99 \<or> a = 100" using u l bounds by linarith
    ultimately show ?thesis using True u l bounds by (elim disjE) linarith+
  next
    case False
    then have y: "y \<le> 398" and up: "doe \<le> 365 * y + 364 + q' - c'"
      using assms(2,4) by (simp_all add: year_end_def year_start_def q'_def c'_def)
    have d: "d = 0" using bounds up y doe qc assms(1) by linarith
    have q': "q' = q \<or> q' = q + 1 \<and> y = 4 * q + 3"
      using bounds by linarith
    have c': "c' = c \<or> c' = c + 1 \<and> y = 100 * c + 99"
      using bounds by linarith
    have b: "b = c" using c' q' up doe qc bounds by linarith
    have "a = q \<or> a = q + 1" using q' c' up doe qc bounds by linarith
    then show ?thesis
    proof
      assume a: "a = q"
      show ?thesis using a b d q' c' up doe qc bounds assms(1) by (intro conjI) linarith+
    next
      assume a: "a = q + 1"
      show ?thesis using a b d q' c' up doe qc y bounds assms(1) by (intro conjI) linarith+
    qed
  qed
  then show ?thesis
    unfolding year_of_era_def a_def b_def d_def
    using div_bounds [of 365 "doe - doe div 1460 + doe div 36524 - doe div 146096"] by linarith
qed

lemma year_exists:
  assumes "0 \<le> doe" and "doe \<le> 146096"
  shows "\<exists>y. 0 \<le> y \<and> y < 400 \<and> year_start y \<le> doe \<and> doe \<le> year_end y"
proof -
  have "\<exists>y. 0 \<le> y \<and> y < 400 \<and> year_start y \<le> doe \<and> doe \<le> year_end y"
    if "doe < year_start (int n)" "n < 400" for n
    using that
  proof (induction n)
    case 0
    then show ?case using assms by (simp add: year_start_def)
  next
    case (Suc n)
    show ?case
    proof (cases "doe < year_start (int n)")
      case True
      then show ?thesis using Suc by simp
    next
      case False
      with Suc.prems have "year_start (int n) \<le> doe" "doe \<le> year_end (int n)"
        by (auto simp: year_end_def add.commute)
      with Suc.prems show ?thesis by (intro exI [of _ "int n"]) auto
    qed
  qed
  from this [of 399] show ?thesis
    using assms by (cases "doe < year_start 399") (auto simp: year_end_def intro!: exI [of _ 399])
qed

lemma year_of_era_interval:
  assumes "0 \<le> doe" and "doe \<le> 146096"
  shows "0 \<le> year_of_era doe" "year_of_era doe < 400"
    and "year_start (year_of_era doe) \<le> doe" "doe \<le> year_end (year_of_era doe)"
  using year_exists [OF assms] year_of_era_unique by auto

lemma year_length: "year_end y - year_start y \<le> 365"
  using div_bounds [of 4 y] div_bounds [of 100 y] div_bounds [of 4 "y + 1"]
    div_bounds [of 100 "y + 1"]
  unfolding year_end_def year_start_def by (cases "y = 399") (simp, simp, linarith?)

text \<open>Within a year, month and day move forward with the day of the year.\<close>

definition month_index :: "int \<Rightarrow> int" where
  "month_index doy = (5 * doy + 2) div 153"

definition month_day :: "int \<Rightarrow> int" where
  "month_day doy = doy - (153 * month_index doy + 2) div 5 + 1"

lemma month_bounds:
  assumes "0 \<le> doy" and "doy \<le> 365"
  shows "0 \<le> month_index doy" "month_index doy \<le> 11" "1 \<le> month_day doy" "month_day doy \<le> 31"
proof -
  define mp e where "mp = month_index doy" and "e = (153 * mp + 2) div 5"
  have b: "153 * mp \<le> 5 * doy + 2" "5 * doy + 2 < 153 * mp + 153"
      "5 * e \<le> 153 * mp + 2" "153 * mp + 2 < 5 * e + 5"
    using div_bounds [of 153 "5 * doy + 2"] div_bounds [of 5 "153 * mp + 2"]
    by (simp_all add: mp_def e_def month_index_def)
  then show "0 \<le> month_index doy" "month_index doy \<le> 11"
    using assms by (auto simp: mp_def [symmetric])
  show "1 \<le> month_day doy" "month_day doy \<le> 31"
    using b unfolding month_day_def mp_def [symmetric] e_def [symmetric] by linarith+
qed

lemma month_step:
  assumes "0 \<le> a" and "a < b" and "b \<le> 365"
  shows "32 * month_index a + month_day a < 32 * month_index b + month_day b"
proof (cases "month_index a = month_index b")
  case True
  then show ?thesis using assms by (simp add: month_day_def)
next
  case False
  moreover have "month_index a \<le> month_index b"
    unfolding month_index_def using assms by (intro zdiv_mono1) auto
  ultimately have "month_index a + 1 \<le> month_index b" by simp
  then show ?thesis
    using month_bounds [of a] month_bounds [of b] assms by linarith
qed

section \<open>One day later is a later date\<close>

definition date_code :: "int \<times> int \<times> int \<Rightarrow> int" where
  "date_code = (\<lambda>(year, m, d). 32 * (12 * year + m) + d)"

definition era_key :: "int \<Rightarrow> int \<times> int" where
  "era_key days =
     (let z = days + 719468; era = z div 146097; doe = z mod 146097; yoe = year_of_era doe
      in (yoe + era * 400, doe - year_start yoe))"

lemma era_key_doy: "0 \<le> snd (era_key days) \<and> snd (era_key days) \<le> 365"
proof -
  define doe where "doe = (days + 719468) mod 146097"
  have "0 \<le> doe" "doe \<le> 146096"
    using pos_mod_bound [of 146097 "days + 719468"] by (simp_all add: doe_def)
  then show ?thesis
    using year_of_era_interval [of doe] year_length [of "year_of_era doe"]
    by (simp add: era_key_def Let_def doe_def [symmetric])
qed

lemma era_key_mono:
  assumes "a < b"
  shows "fst (era_key a) < fst (era_key b) \<or>
    fst (era_key a) = fst (era_key b) \<and> snd (era_key a) < snd (era_key b)"
proof -
  define ea da eb db where "ea = (a + 719468) div 146097" and "da = (a + 719468) mod 146097"
    and "eb = (b + 719468) div 146097" and "db = (b + 719468) mod 146097"
  have za: "146097 * ea + da = a + 719468" and zb: "146097 * eb + db = b + 719468"
    by (simp_all add: ea_def da_def eb_def db_def)
  have da: "0 \<le> da" "da \<le> 146096" and db: "0 \<le> db" "db \<le> 146096"
    using pos_mod_bound [of 146097 "a + 719468"] pos_mod_bound [of 146097 "b + 719468"]
    by (simp_all add: da_def db_def)
  note ia = year_of_era_interval [OF da] and ib = year_of_era_interval [OF db]
  have ka: "era_key a = (year_of_era da + ea * 400, da - year_start (year_of_era da))"
    and kb: "era_key b = (year_of_era db + eb * 400, db - year_start (year_of_era db))"
    by (simp_all add: era_key_def Let_def ea_def da_def eb_def db_def)
  have "ea \<le> eb" unfolding ea_def eb_def using assms by (intro zdiv_mono1) auto
  then consider "ea + 1 \<le> eb" | "ea = eb" by linarith
  then show ?thesis
  proof cases
    case 1
    then show ?thesis using ia ib by (simp add: ka kb)
  next
    case 2
    with za zb assms have lt: "da < db" by linarith
    have "year_of_era da \<le> year_of_era db"
    proof (rule ccontr)
      assume "\<not> ?thesis"
      then have lt': "year_of_era db + 1 \<le> year_of_era da" by simp
      then have ye: "year_end (year_of_era db) = year_start (year_of_era db + 1) - 1"
        using ia by (simp add: year_end_def)
      have "year_start (year_of_era db + 1) \<le> year_start (year_of_era da)"
        unfolding year_start_def
        using lt' div_bounds [of 100 "year_of_era db + 1"] div_bounds [of 100 "year_of_era da"]
          zdiv_mono1 [OF lt', of 4]
        by simp
      with ia(3) ib(4) ye lt show False by linarith
    qed
    then consider "year_of_era da < year_of_era db" | "year_of_era da = year_of_era db" by linarith
    then show ?thesis
      using 2 lt by cases (simp_all add: ka kb)
  qed
qed

lemma civil_date_code:
  assumes "0 \<le> days" and "civil_date days = (year, m, d)"
  shows "date_code (year, m, d) =
      32 * (12 * fst (era_key days) + month_index (snd (era_key days)) + 3) + month_day (snd (era_key days))"
    and "1 \<le> m" "m \<le> 12" "1 \<le> d" "d \<le> 31"
proof -
  define gy doy where "gy = fst (era_key days)" and "doy = snd (era_key days)"
  note mb = month_bounds [of doy]
  have doy: "0 \<le> doy" "doy \<le> 365" using era_key_doy [of days] by (simp_all add: doy_def)
  have era: "(if 0 \<le> days + 719468 then days + 719468 else days + 719468 - 146096) div 146097 =
      (days + 719468) div 146097"
    using assms(1) by simp
  have doe: "days + 719468 - (days + 719468) div 146097 * 146097 = (days + 719468) mod 146097"
    by (rule minus_div_mult_eq_mod)
  have "civil_date days =
      (if (if month_index doy < 10 then month_index doy + 3 else month_index doy - 9) \<le> 2
       then gy + 1 else gy,
       if month_index doy < 10 then month_index doy + 3 else month_index doy - 9, month_day doy)"
    unfolding civil_date_def gy_def doy_def era_key_def Let_def month_index_def month_day_def
      year_start_def fst_conv snd_conv era doe ..
  with assms(2) have eq: "year = (if m \<le> 2 then gy + 1 else gy)" "d = month_day doy"
    "m = (if month_index doy < 10 then month_index doy + 3 else month_index doy - 9)"
    by auto
  show "1 \<le> m" "m \<le> 12" "1 \<le> d" "d \<le> 31" using mb doy by (auto simp: eq)
  show "date_code (year, m, d) =
      32 * (12 * fst (era_key days) + month_index (snd (era_key days)) + 3) + month_day (snd (era_key days))"
    using mb doy by (auto simp: eq date_code_def gy_def [symmetric] doy_def [symmetric])
qed

lemma civil_date_mono:
  assumes "0 \<le> a" and "a < b"
  shows "date_code (civil_date a) < date_code (civil_date b)"
proof -
  obtain y m d where a: "civil_date a = (y, m, d)" by (cases "civil_date a") auto
  obtain y' m' d' where b: "civil_date b = (y', m', d')" by (cases "civil_date b") auto
  note ca = civil_date_code(1) [OF assms(1) a]
    and cb = civil_date_code(1) [OF order.trans [OF assms(1) less_imp_le [OF assms(2)]] b]
  have doy: "0 \<le> snd (era_key x)" "snd (era_key x) \<le> 365" for x using era_key_doy [of x] by auto
  note ma = month_bounds [OF doy [of a]] and mb = month_bounds [OF doy [of b]]
  show ?thesis
    using era_key_mono [OF assms(2)]
  proof (elim disjE conjE)
    assume "fst (era_key a) < fst (era_key b)"
    then have "fst (era_key a) + 1 \<le> fst (era_key b)" by simp
    then show ?thesis
      unfolding a b ca cb
      using ma(2,4) mb(1,3) by simp
  next
    assume "fst (era_key a) = fst (era_key b)" "snd (era_key a) < snd (era_key b)"
    then show ?thesis
      unfolding a b ca cb
      using month_step [of "snd (era_key a)" "snd (era_key b)"] doy by auto
  qed
qed

section \<open>Time order is text order\<close>

definition dig :: "nat \<Rightarrow> char" where
  "dig n = char_of (48 + n)"

lemma byte_dig: "n < 10 \<Longrightarrow> byte (dig n) = 48 + n"
  by (simp add: byte_def dig_def)

lemma dig_less: "a < b \<Longrightarrow> b < 10 \<Longrightarrow> dig a < dig b"
  by (simp add: dig_def less_char_def)

lemma pad_digits_Suc:
  assumes "0 < w"
  shows "pad_digits (Suc w) n = pad_digits w (n div 10) @ [dig (n mod 10)]"
proof (cases "n < 10")
  case True
  then have d: "nat_digits n = [dig n]" "nat_digits 0 = [CHR ''0'']"
    by (simp_all add: nat_digits.simps dig_def char_of_def bit_Suc bit_0)
  from assms obtain v where "w = Suc v" by (cases w) auto
  with True d show ?thesis
    by (simp add: pad_digits_def replicate_append_same)
next
  case False
  then show ?thesis
    by (simp add: pad_digits_def nat_digits.simps [of n] dig_def Let_def)
qed

lemma pad_digits_1: "n < 10 \<Longrightarrow> pad_digits 1 n = [dig n]"
  by (simp add: pad_digits_def nat_digits.simps dig_def)

lemma pad_digits_length: "0 < w \<Longrightarrow> n < 10 ^ w \<Longrightarrow> length (pad_digits w n) = w"
proof (induction w arbitrary: n)
  case (Suc w)
  then show ?case
    by (cases "w = 0") (auto simp: pad_digits_1 [simplified] pad_digits_Suc)
qed simp

lemma append_less:
  "length a = length b \<Longrightarrow> a < b \<Longrightarrow> a @ x < b @ y" for a b :: string
  by (simp add: list_less_def lexord_sufI)

lemma append_less_same: "x < y \<Longrightarrow> a @ x < a @ y" for a x y :: string
  by (simp add: list_less_def lexord_append_leftI)

lemma pad_digits_less:
  assumes "0 < w" and "m < n" and "n < 10 ^ w"
  shows "pad_digits w m < pad_digits w n"
  using assms
proof (induction w arbitrary: m n)
  case (Suc w)
  show ?case
  proof (cases "w = 0")
    case True
    with Suc.prems show ?thesis by (simp add: pad_digits_1 [simplified] dig_less)
  next
    case False
    then have s: "pad_digits (Suc w) k = pad_digits w (k div 10) @ [dig (k mod 10)]" for k
      by (simp add: pad_digits_Suc)
    show ?thesis
    proof (cases "m div 10 = n div 10")
      case True
      with Suc.prems have "m mod 10 < n mod 10"
        by (metis div_mult_mod_eq nat_add_left_cancel_less)
      then have "[dig (m mod 10)] < [dig (n mod 10)]" by (simp add: dig_less)
      then show ?thesis unfolding s True by (rule append_less_same)
    next
      case ne: False
      with Suc.prems have lt: "m div 10 < n div 10" by (meson div_le_mono le_neq_implies_less less_imp_le)
      moreover have "n div 10 < 10 ^ w" using Suc.prems by auto
      ultimately show ?thesis
        unfolding s using False Suc.IH [of "m div 10" "n div 10"]
        by (intro append_less) (auto simp: pad_digits_length)
    qed
  qed
qed simp

lemma append_block_less:
  assumes "0 < w" and "m < 10 ^ w" and "n < 10 ^ w" and "m < n \<or> m = n \<and> x < y"
  shows "pad_digits w m @ x < pad_digits w n @ y"
  using assms by (auto intro: append_less append_less_same pad_digits_less simp: pad_digits_length)

lemma format_date_less:
  assumes "date_code (y, m, d) < date_code (y', m', d')"
    and "0 \<le> y" "y' \<le> 9999" "1 \<le> m" "m \<le> 12" "1 \<le> d" "d \<le> 31" "1 \<le> m'" "m' \<le> 12" "1 \<le> d'" "d' \<le> 31"
  shows "format_date (y, m, d) @ t < format_date (y', m', d') @ t'"
proof -
  consider "y < y'" | "y = y'" "m < m'" | "y = y'" "m = m'" "d < d'"
  proof (cases "y < y'")
    case False
    moreover have le: "y \<le> y'" using assms by (simp add: date_code_def)
    ultimately have y: "y = y'" by simp
    have "m \<le> m'" using assms y by (simp add: date_code_def)
    then show thesis using that y assms(1) by (cases "m = m'") (auto simp: date_code_def)
  qed (use that in auto)
  then show ?thesis
    using assms(2-)
    by cases (simp_all add: format_date_def, (intro append_block_less; simp)+)
qed

lemma Let_eval: "x = y \<Longrightarrow> f y = z \<Longrightarrow> Let x f = z"
  by (simp add: Let_def)

lemma format_date_le:
  assumes "civil_date (int a) = (y, m, d)" and "a \<le> 2932896"
  shows "1970 \<le> y" "y \<le> 9999"
proof -
  note c = civil_date_code(2-) [OF of_nat_0_le_iff assms(1)]
  have "date_code (civil_date 0) \<le> date_code (y, m, d)"
    using civil_date_mono [of 0 "int a"] assms(1) by (cases "a = 0") auto
  moreover have "date_code (y, m, d) \<le> date_code (civil_date 2932896)"
    using civil_date_mono [of "int a" 2932896] assms by (cases "a = 2932896") auto
  moreover have "civil_date 0 = (1970, 1, 1)" by code_simp
  moreover have "civil_date 2932896 = (9999, 12, 31)"
    unfolding civil_date_def by (rule Let_eval, simp add: year_of_era_def)+ simp
  ultimately have "32 * (12 * 1970 + 1) + 1 \<le> 32 * (12 * y + m) + d"
      "32 * (12 * y + m) + d \<le> 32 * (12 * 9999 + 12) + 31"
    by (simp_all add: date_code_def)
  then show "1970 \<le> y" "y \<le> 9999" using c by auto
qed

lemma div_mod_less: "a < b \<Longrightarrow> a div k < b div k \<or> a div k = b div k \<and> a mod k < b mod k"
  for a b k :: nat
  by (metis div_le_mono div_mult_mod_eq le_neq_implies_less less_imp_le nat_add_left_cancel_less)

lemma hms_less:
  assumes "h < h' \<or> h = h' \<and> m < m' \<or> h = h' \<and> m = m' \<and> s < s'"
    and "h < 100" "h' < 100" "m < 100" "m' < 100" "s < 100" "s' < 100"
  shows "pad_digits 2 h @ '':'' @ pad_digits 2 m @ '':'' @ pad_digits 2 s @ x <
         pad_digits 2 h' @ '':'' @ pad_digits 2 m' @ '':'' @ pad_digits 2 s' @ x"
  using assms by (elim disjE conjE) (simp_all, (intro append_block_less; simp)+)

lemma format_time_less:
  assumes "s < s'" and "s' < 86400"
  shows "format_time s @ x < format_time s' @ x"
proof -
  have m: "s mod 3600 mod 60 = s mod 60" "s' mod 3600 mod 60 = s' mod 60"
    by (simp_all add: mod_mod_cancel)
  have "s div 3600 < s' div 3600 \<or>
    s div 3600 = s' div 3600 \<and> s mod 3600 div 60 < s' mod 3600 div 60 \<or>
    s div 3600 = s' div 3600 \<and> s mod 3600 div 60 = s' mod 3600 div 60 \<and> s mod 60 < s' mod 60"
    using div_mod_less [OF assms(1), of 3600] div_mod_less [of "s mod 3600" "s' mod 3600" 60] m
    by auto
  moreover have "s div 3600 < 100" "s' div 3600 < 100" using assms by auto
  moreover have "t mod 3600 div 60 < 100" "t mod 60 < 100" for t :: nat by auto
  ultimately show ?thesis
    unfolding format_time_def append_assoc by (intro hms_less)
qed

text \<open>Up to the end of the year 9999 later times print as greater texts.\<close>

lemma format_utc_less:
  assumes "s < s'" and "s' < 253402300800"
  shows "format_utc s < format_utc s'"
proof -
  have days: "s div 86400 \<le> s' div 86400" "s div 86400 \<le> 2932896" "s' div 86400 \<le> 2932896"
    using assms by auto
  obtain y m d where a: "civil_date (int (s div 86400)) = (y, m, d)" by (cases "civil_date (int (s div 86400))") auto
  obtain y' m' d' where b: "civil_date (int (s' div 86400)) = (y', m', d')" by (cases "civil_date (int (s' div 86400))") auto
  note ya = format_date_le [OF a days(2)] and yb = format_date_le [OF b days(3)]
    and ca = civil_date_code(2-) [OF of_nat_0_le_iff a] and cb = civil_date_code(2-) [OF of_nat_0_le_iff b]
  show ?thesis
  proof (cases "s div 86400 = s' div 86400")
    case True
    have "s mod 86400 < s' mod 86400"
      using assms(1) True by (metis div_mult_mod_eq nat_add_left_cancel_less)
    then show ?thesis
      unfolding format_utc_def True by (intro append_less_same format_time_less) auto
  next
    case False
    with days have "date_code (civil_date (int (s div 86400))) < date_code (civil_date (int (s' div 86400)))"
      by (intro civil_date_mono) auto
    then show ?thesis
      unfolding format_utc_def a b using ya yb ca cb by (intro format_date_less) auto
  qed
qed

lemma plain_format_utc: "plain (format_utc secs)"
  by (simp add: format_utc_def format_date_def format_time_def plain_pad_digits byte_def split: prod.splits)

text \<open>The order of two timestamps as texts is their order in time, for every second up to
  the end of the year 9999; replay and validity windows compare timestamps as texts.\<close>

theorem format_utc_order:
  assumes "s < 253402300800" and "s' < 253402300800"
  shows "format_utc s < format_utc s' \<longleftrightarrow> s < s'"
  using format_utc_less [OF _ assms(1), of s'] format_utc_less [OF _ assms(2), of s]
  by (cases s s' rule: linorder_cases) auto

theorem format_utc_order_witness: "format_utc 951782399 < format_utc 951782400"
  using format_utc_order [of 951782399 951782400] by simp

end
