(* ===== verification/Journal.thy ===== *)
theory Journal
  imports Ids Utc_Clock "HOL-Library.Multiset"
begin

text \<open>
  The append-only journal (\<open>crates/innen-core/src/journal.rs\<close>).  The state is the directory
  \<open>.innen\<close>: the journal file, the quarantine files by date, and the reports printed on the
  way.  Files are byte texts; reading one as a string fails when it is absent or is not UTF-8.
  What the crates \<open>serde_json\<close> and \<open>sha2\<close> compute is bundled in the record \<open>lib\<close>, a parameter
  of every operation; the clock is the parameter \<open>secs\<close>.  Each operation returns its result
  and the directory it leaves.  The lemmas show what a reader sees after an append, what
  opening a damaged journal keeps and what it moves to quarantine.
\<close>

section \<open>Data\<close>

definition ALLOWED_OPS :: "string list" where
  "ALLOWED_OPS = [''node.upsert'', ''edge.assert'', ''edge.retract'', ''config.set'']"

datatype io_error = NotFound | InvalidData

datatype journal_error = UnknownOp string | SchemaViolation string | Io io_error

record journal_entry =
  entry_id :: string
  observed_utc :: string
  entry_op :: string
  payload :: json

text \<open>The third-party functions: digest, printer, and the two parsers the journal calls
  (\<open>from_str::<Value>\<close> and \<open>from_str::<JournalEntry>\<close>).\<close>

record lib =
  x_sha :: "string \<Rightarrow> 8 word list"
  x_ser :: "json \<Rightarrow> string"
  x_parse :: "string \<Rightarrow> json option"
  x_entry :: "string \<Rightarrow> journal_entry option"

record store =
  innen_dir :: bool
  journal_file :: "string option"
  quarantine_files :: "(string \<times> string) list"
  reports :: "json list"

text \<open>\<open>fs::read_to_string\<close> of the journal path.\<close>

definition read_to_string :: "string option \<Rightarrow> io_error + string" where
  "read_to_string f =
     (case f of None \<Rightarrow> Inl NotFound
      | Some c \<Rightarrow> if valid_utf8 c then Inr c else Inl InvalidData)"

section \<open>Validation\<close>

definition need :: "string \<Rightarrow> jobject \<Rightarrow> string \<Rightarrow> journal_error + unit" where
  "need op obj key =
     (case map_of obj key of
        Some (JStr _) \<Rightarrow> Inr ()
      | _ \<Rightarrow> Inl (SchemaViolation (op @ '': requires string field '' @ [CHR 0x60] @ key @ [CHR 0x60])))"

definition validate :: "string \<Rightarrow> json \<Rightarrow> journal_error + unit" where
  "validate op pl =
     (if op \<notin> set ALLOWED_OPS then Inl (UnknownOp op)
      else bindE (ok_or (SchemaViolation (op @ '': payload must be a JSON object'')) (as_object pl)) (\<lambda>obj.
        if op = ''node.upsert'' then need op obj ''id''
        else if op = ''edge.assert'' \<or> op = ''edge.retract'' then
          bindE (need op obj ''from'') (\<lambda>_.
          bindE (need op obj ''to'') (\<lambda>_.
          need op obj ''type''))
        else need op obj ''key''))"

definition keep_line :: "lib \<Rightarrow> string \<Rightarrow> bool" where
  "keep_line L line =
     (case x_parse L line of
        Some (JObj obj) \<Rightarrow>
          (case map_of obj ''id'' of Some (JStr _) \<Rightarrow> True | _ \<Rightarrow> False) \<and>
          (case map_of obj ''op'' of Some (JStr _) \<Rightarrow> True | _ \<Rightarrow> False)
      | _ \<Rightarrow> False)"

section \<open>Operations\<close>

text \<open>The serialized \<open>StoredLine\<close>, fields in declaration order.\<close>

definition field_text :: "lib \<Rightarrow> string \<Rightarrow> json \<Rightarrow> string" where
  "field_text L k v = [CHR 0x22] @ k @ [CHR 0x22] @ '':'' @ x_ser L v"

definition stored_line :: "lib \<Rightarrow> journal_entry \<Rightarrow> string" where
  "stored_line L e =
     ''{'' @ field_text L ''id'' (JStr (entry_id e)) @
     '','' @ field_text L ''observed_utc'' (JStr (observed_utc e)) @
     '','' @ field_text L ''op'' (JStr (entry_op e)) @
     '','' @ field_text L ''payload'' (payload e) @ ''}''"

definition new_entry :: "lib \<Rightarrow> nat \<Rightarrow> string \<Rightarrow> json \<Rightarrow> journal_entry" where
  "new_entry L secs op pl =
     \<lparr>entry_id = event_id (x_sha L) (x_ser L) op pl, observed_utc = format_utc secs,
      entry_op = op, payload = pl\<rparr>"

definition append_bytes :: "string option \<Rightarrow> string \<Rightarrow> string option" where
  "append_bytes f bytes = Some ((case f of None \<Rightarrow> [] | Some c \<Rightarrow> c) @ bytes)"

definition journal_append ::
  "lib \<Rightarrow> nat \<Rightarrow> string \<Rightarrow> json \<Rightarrow> store \<Rightarrow> (journal_error + string) \<times> store" where
  "journal_append L secs op pl st =
     (case validate op pl of
        Inl e \<Rightarrow> (Inl e, st)
      | Inr _ \<Rightarrow>
          (let e = new_entry L secs op pl;
               bytes = stored_line L e @ [CHR 0x0A]
           in if innen_dir st
              then (Inr (entry_id e), st\<lparr>journal_file := append_bytes (journal_file st) bytes\<rparr>)
              else (Inl (Io NotFound), st)))"

definition read_all :: "lib \<Rightarrow> store \<Rightarrow> journal_error + journal_entry list" where
  "read_all L st =
     (case read_to_string (journal_file st) of
        Inl NotFound \<Rightarrow> Inr []
      | Inl e \<Rightarrow> Inl (Io e)
      | Inr content \<Rightarrow> Inr (List.map_filter (x_entry L) (filter (\<lambda>l. trim l \<noteq> []) (lines content))))"

text \<open>Moving corrupt lines aside: \<open>quarantine_scan\<close>.\<close>

definition good_lines :: "lib \<Rightarrow> string \<Rightarrow> string list" where
  "good_lines L content = filter (\<lambda>l. l \<noteq> [] \<and> keep_line L l) (lines content)"

definition bad_lines :: "lib \<Rightarrow> string \<Rightarrow> string list" where
  "bad_lines L content = filter (\<lambda>l. l \<noteq> [] \<and> \<not> keep_line L l) (lines content)"

definition quarantine_report :: "lib \<Rightarrow> string \<Rightarrow> string \<Rightarrow> json" where
  "quarantine_report L qpath line =
     jobj [(''quarantined'', JStr qpath), (''reason'', JStr ''corrupt-line''),
           (''sha'', JStr (sha256_hex (x_sha L) line))]"

definition quarantine_scan :: "lib \<Rightarrow> string \<Rightarrow> nat \<Rightarrow> store \<Rightarrow> (journal_error + unit) \<times> store" where
  "quarantine_scan L qdir secs st =
     (case read_to_string (journal_file st) of
        Inl NotFound \<Rightarrow> (Inr (), st)
      | Inl e \<Rightarrow> (Inl (Io e), st)
      | Inr content \<Rightarrow>
          (let good = good_lines L content; bad = bad_lines L content in
           if bad = [] then (Inr (), st)
           else
             (let date = take 10 (format_utc secs);
                  qname = date @ ''.jsonl''
              in (Inr (),
                  st\<lparr>quarantine_files :=
                       omap_upd qname [] (\<lambda>c. c @ unlines bad) (quarantine_files st),
                     reports := reports st @ map (quarantine_report L (qdir @ ''/'' @ qname)) bad,
                     journal_file := Some (unlines good)\<rparr>))))"

definition journal_open :: "lib \<Rightarrow> string \<Rightarrow> nat \<Rightarrow> store \<Rightarrow> (journal_error + unit) \<times> store" where
  "journal_open L qdir secs st = quarantine_scan L qdir secs (st\<lparr>innen_dir := True\<rparr>)"

section \<open>Reading lines back\<close>

text \<open>
  What the journal relies on from \<open>serde_json\<close> for one entry: its printed line holds no line
  break, is UTF-8, and parses back, as a value and as an entry.
\<close>

definition reads_back :: "lib \<Rightarrow> journal_entry \<Rightarrow> bool" where
  "reads_back L e \<longleftrightarrow>
     one_line (stored_line L e) \<and> valid_utf8 (stored_line L e) \<and>
     x_entry L (stored_line L e) = Some e \<and> keep_line L (stored_line L e)"

text \<open>A journal text whose last line is terminated.\<close>

definition terminated :: "string \<Rightarrow> bool" where
  "terminated c \<longleftrightarrow> c = [] \<or> last c = CHR 0x0A"

definition entries_of :: "lib \<Rightarrow> string list \<Rightarrow> journal_entry list" where
  "entries_of L ls = List.map_filter (x_entry L) (filter (\<lambda>l. trim l \<noteq> []) ls)"

lemma entries_of_simps [simp]:
  "entries_of L [] = []"
  "entries_of L (ls @ ms) = entries_of L ls @ entries_of L ms"
  by (simp_all add: entries_of_def List.map_filter_def)

lemma stored_line_trim: "trim (stored_line L e) = stored_line L e"
  unfolding stored_line_def
  using trim_braces [of "field_text L ''id'' (JStr (entry_id e)) @
     '','' @ field_text L ''observed_utc'' (JStr (observed_utc e)) @
     '','' @ field_text L ''op'' (JStr (entry_op e)) @
     '','' @ field_text L ''payload'' (payload e)"] by simp

lemma stored_line_nonempty [simp]: "stored_line L e \<noteq> []"
  by (simp add: stored_line_def)

lemma entries_of_stored: "reads_back L e \<Longrightarrow> entries_of L [stored_line L e] = [e]"
  by (simp add: entries_of_def reads_back_def stored_line_trim List.map_filter_def)

lemma entries_of_map_stored:
  "\<forall>e \<in> set es. reads_back L e \<Longrightarrow> entries_of L (map (stored_line L) es) = es"
proof (induction es)
  case (Cons e es)
  then show ?case
    using entries_of_simps(2) [of L "[stored_line L e]" "map (stored_line L) es"]
    by (simp add: entries_of_stored)
qed simp

lemma read_all_content:
  "journal_file st = Some c \<Longrightarrow> valid_utf8 c \<Longrightarrow> read_all L st = Inr (entries_of L (lines c))"
  by (simp add: read_all_def read_to_string_def entries_of_def)

lemma read_all_Inr:
  assumes "read_all L st = Inr es"
  obtains "journal_file st = None" "es = []"
  | c where "journal_file st = Some c" "valid_utf8 c" "es = entries_of L (lines c)"
  using assms that
  by (cases "journal_file st")
    (auto simp: read_all_def read_to_string_def entries_of_def split: if_splits)

section \<open>Appending\<close>

lemma append_ok:
  "validate op pl = Inr u \<Longrightarrow> innen_dir st \<Longrightarrow>
   journal_append L secs op pl st =
     (Inr (event_id (x_sha L) (x_ser L) op pl),
      st\<lparr>journal_file := append_bytes (journal_file st)
           (stored_line L (new_entry L secs op pl) @ [CHR 0x0A])\<rparr>)"
  by (simp add: journal_append_def Let_def new_entry_def)

lemma append_Inl: "journal_append L secs op pl st = (Inl e, st') \<Longrightarrow> st' = st"
  by (auto simp: journal_append_def Let_def split: sum.splits if_splits)

lemma append_Inr:
  assumes "journal_append L secs op pl st = (Inr i, st')"
  shows "validate op pl = Inr ()" and "innen_dir st"
    and "i = event_id (x_sha L) (x_ser L) op pl"
    and "st' = st\<lparr>journal_file := append_bytes (journal_file st)
           (stored_line L (new_entry L secs op pl) @ [CHR 0x0A])\<rparr>"
  using assms by (auto simp: journal_append_def Let_def new_entry_def split: sum.splits if_splits)

lemma append_terminated:
  "journal_append L secs op pl st = (Inr i, st') \<Longrightarrow>
   \<exists>c. journal_file st' = Some c \<and> terminated c"
  by (auto dest!: append_Inr(4) simp: append_bytes_def terminated_def)

lemma append_read:
  assumes app: "journal_append L secs op pl st = (Inr i, st')"
    and ends: "\<forall>c. journal_file st = Some c \<longrightarrow> terminated c"
    and rb: "reads_back L (new_entry L secs op pl)"
    and old: "read_all L st = Inr es"
  shows "read_all L st' = Inr (es @ [new_entry L secs op pl])"
proof -
  let ?e = "new_entry L secs op pl"
  let ?l = "stored_line L ?e"
  have l: "lines (?l @ [CHR 0x0A]) = [?l]" "valid_utf8 (?l @ [CHR 0x0A])"
    using rb valid_utf8_unlines [of "[?l]"] by (auto simp: reads_back_def lines_line)
  have st': "journal_file st' = append_bytes (journal_file st) (?l @ [CHR 0x0A])"
    using append_Inr(4) [OF app] by simp
  from old show ?thesis
  proof (cases rule: read_all_Inr)
    case 1
    then have "journal_file st' = Some (?l @ [CHR 0x0A])" using st' by (simp add: append_bytes_def)
    then show ?thesis using 1 l rb by (simp add: read_all_content entries_of_stored)
  next
    case (2 c)
    then have "journal_file st' = Some (c @ ?l @ [CHR 0x0A])" using st' by (simp add: append_bytes_def)
    moreover have "lines (c @ ?l @ [CHR 0x0A]) = lines c @ [?l]"
      using ends 2(1) l(1) by (subst lines_append) (auto simp: terminated_def)
    moreover have "valid_utf8 (c @ ?l @ [CHR 0x0A])"
      using 2(2) l(2) by (simp add: valid_utf8_append)
    ultimately show ?thesis using 2 rb by (simp add: read_all_content entries_of_stored)
  qed
qed

text \<open>A file that ends in the middle of a line: the next append continues that line.\<close>

lemma append_unterminated:
  assumes "journal_append L secs op pl st = (Inr i, st')"
    and "journal_file st = Some (unlines ls @ t)" and "\<forall>l \<in> set ls. one_line l" and "one_line t"
    and "one_line (stored_line L (new_entry L secs op pl))"
  shows "\<exists>c. journal_file st' = Some c \<and> lines c = ls @ [t @ stored_line L (new_entry L secs op pl)]"
proof -
  let ?l = "stored_line L (new_entry L secs op pl)"
  have "journal_file st' = Some (unlines ls @ (t @ ?l) @ [CHR 0x0A])"
    using append_Inr(4) [OF assms(1)] assms(2) by (simp add: append_bytes_def)
  moreover have "lines (unlines ls @ (t @ ?l) @ [CHR 0x0A]) = ls @ [t @ ?l]"
  proof -
    have "one_line (t @ ?l)" using assms(4,5) by (simp add: one_line_def)
    then show ?thesis
      using assms(3) unlines_last [of ls] lines_append [of "unlines ls" "(t @ ?l) @ [CHR 0x0A]"]
        lines_line [of "t @ ?l"]
      by (cases "ls = []") (simp_all add: lines_unlines)
  qed
  ultimately show ?thesis by blast
qed

section \<open>Opening\<close>

lemma good_bad_lines:
  "set (good_lines L c) \<union> set (bad_lines L c) = set (lines c) - {[]}"
  "length (good_lines L c) + length (bad_lines L c) = length (filter (\<lambda>l. l \<noteq> []) (lines c))"
proof -
  show "set (good_lines L c) \<union> set (bad_lines L c) = set (lines c) - {[]}"
    by (auto simp: good_lines_def bad_lines_def)
  have "length (filter (\<lambda>l. l \<noteq> [] \<and> keep_line L l) ls) + length (filter (\<lambda>l. l \<noteq> [] \<and> \<not> keep_line L l) ls) =
      length (filter (\<lambda>l. l \<noteq> []) ls)" for ls
    by (induction ls) auto
  then show "length (good_lines L c) + length (bad_lines L c) = length (filter (\<lambda>l. l \<noteq> []) (lines c))"
    by (simp add: good_lines_def bad_lines_def)
qed

lemma open_clean:
  assumes "journal_file st = Some c" and "valid_utf8 c" and "bad_lines L c = []"
  shows "journal_open L q secs st = (Inr (), st\<lparr>innen_dir := True\<rparr>)"
  using assms by (simp add: journal_open_def quarantine_scan_def read_to_string_def Let_def)

lemma open_dirty:
  assumes "journal_file st = Some c" and "valid_utf8 c" and "bad_lines L c \<noteq> []"
  shows "journal_open L q secs st =
     (Inr (), st\<lparr>innen_dir := True,
        quarantine_files := omap_upd (take 10 (format_utc secs) @ ''.jsonl'') []
          (\<lambda>x. x @ unlines (bad_lines L c)) (quarantine_files st),
        reports := reports st @ map (quarantine_report L
          (q @ ''/'' @ take 10 (format_utc secs) @ ''.jsonl'')) (bad_lines L c),
        journal_file := Some (unlines (good_lines L c))\<rparr>)"
  using assms by (simp add: journal_open_def quarantine_scan_def read_to_string_def Let_def)

lemma open_absent:
  "journal_file st = None \<Longrightarrow> journal_open L q secs st = (Inr (), st\<lparr>innen_dir := True\<rparr>)"
  by (simp add: journal_open_def quarantine_scan_def read_to_string_def)

lemma open_invalid:
  "journal_file st = Some c \<Longrightarrow> \<not> valid_utf8 c \<Longrightarrow>
   journal_open L q secs st = (Inl (Io InvalidData), st\<lparr>innen_dir := True\<rparr>)"
  by (simp add: journal_open_def quarantine_scan_def read_to_string_def)

text \<open>A line of a text is a piece of it between line breaks.\<close>

lemma split_inclusive_no_newline: "w \<in> set (split_inclusive s) \<Longrightarrow> CHR 0x0A \<notin> set (butlast w)"
  by (induction s arbitrary: w) (auto split: list.splits if_splits)

lemma line_no_newline: "l \<in> set (lines s) \<Longrightarrow> CHR 0x0A \<notin> set l"
proof -
  assume "l \<in> set (lines s)"
  then obtain w where w: "w \<in> set (split_inclusive s)" "l = strip_eol w"
    by (auto simp: lines_def)
  then have "w \<noteq> []" by (auto dest: split_inclusive_nonempty)
  show ?thesis
  proof (cases "last w = CHR 0x0A")
    case True
    then have "set l \<subseteq> set (butlast w)"
      using w \<open>w \<noteq> []\<close> by (auto simp: strip_eol_def Let_def dest: in_set_butlastD)
    then show ?thesis using split_inclusive_no_newline [OF w(1)] by auto
  next
    case False
    then have "l = w" "set w \<subseteq> insert (last w) (set (butlast w))"
      using w \<open>w \<noteq> []\<close> by (simp_all add: strip_eol_def) (cases w rule: rev_cases; auto)
    then show ?thesis using split_inclusive_no_newline [OF w(1)] False by auto
  qed
qed


lemma lines_set: "l \<in> set (lines s) \<Longrightarrow> set l \<subseteq> set s"
proof -
  assume "l \<in> set (lines s)"
  then obtain w where w: "w \<in> set (split_inclusive s)" "l = strip_eol w"
    by (auto simp: lines_def)
  then have "set l \<subseteq> set w"
    by (auto simp: strip_eol_def Let_def dest: in_set_butlastD split: if_splits)
  also have "set w \<subseteq> set (concat (split_inclusive s))" using w(1) by (simp del: concat_split_inclusive) blast
  finally show ?thesis by simp
qed

lemma lines_good:
  assumes "CHR 0x0D \<notin> set c"
  shows "lines (unlines (good_lines L c)) = good_lines L c"
  using assms lines_set [of _ c] line_no_newline [of _ c]
  by (intro lines_unlines) (auto simp: good_lines_def one_line_def)

text \<open>The lines of whole entries, with a torn line after them.\<close>

lemma torn_lines:
  assumes "\<forall>e \<in> set es. reads_back L e" and "one_line t"
  shows "lines (unlines (map (stored_line L) es) @ t) = map (stored_line L) es @ (if t = [] then [] else [t])"
proof -
  have "lines (unlines (map (stored_line L) es) @ t) =
      lines (unlines (map (stored_line L) es)) @ lines t"
    by (rule lines_append) (cases "es = []", simp_all add: unlines_last)
  also have "lines (unlines (map (stored_line L) es)) = map (stored_line L) es"
    using assms(1) by (intro lines_unlines) (auto simp: reads_back_def)
  also have "lines t = (if t = [] then [] else [t])"
    using assms(2) by (simp add: lines_tail)
  finally show ?thesis .
qed

lemma torn_good_bad:
  assumes "\<forall>e \<in> set es. reads_back L e" and "one_line t" and "t \<noteq> []" and "\<not> keep_line L t"
  shows "good_lines L (unlines (map (stored_line L) es) @ t) = map (stored_line L) es"
    and "bad_lines L (unlines (map (stored_line L) es) @ t) = [t]"
proof -
  have "\<forall>l \<in> set (map (stored_line L) es). l \<noteq> [] \<and> keep_line L l"
    using assms(1) by (auto simp: reads_back_def)
  then have "filter (\<lambda>l. l \<noteq> [] \<and> keep_line L l) (map (stored_line L) es) = map (stored_line L) es"
    "filter (\<lambda>l. l \<noteq> [] \<and> \<not> keep_line L l) (map (stored_line L) es) = []"
    by (auto simp: filter_id_conv filter_empty_conv)
  then show "good_lines L (unlines (map (stored_line L) es) @ t) = map (stored_line L) es"
    "bad_lines L (unlines (map (stored_line L) es) @ t) = [t]"
    using assms by (simp_all add: good_lines_def bad_lines_def torn_lines)
qed

lemma valid_utf8_entries:
  "\<forall>e \<in> set es. reads_back L e \<Longrightarrow> valid_utf8 (unlines (map (stored_line L) es))"
  by (intro valid_utf8_unlines) (auto simp: reads_back_def)

lemma read_all_entries:
  assumes "journal_file st = Some (unlines (map (stored_line L) es))" and "\<forall>e \<in> set es. reads_back L e"
  shows "read_all L st = Inr es"
proof -
  have "lines (unlines (map (stored_line L) es)) = map (stored_line L) es"
    using assms(2) by (intro lines_unlines) (auto simp: reads_back_def)
  then show ?thesis
    using assms by (simp add: read_all_content valid_utf8_entries entries_of_map_stored)
qed

section \<open>A concrete library\<close>

text \<open>
  A printer for texts without escapes and a lookup of the entries printed with it: enough to
  evaluate the operations on concrete inputs.
\<close>

fun demo_ser :: "json \<Rightarrow> string"
  and demo_ser_list :: "json list \<Rightarrow> string list"
  and demo_ser_fields :: "jobject \<Rightarrow> string list" where
  "demo_ser JNull = ''null''"
| "demo_ser (JBool b) = (if b then ''true'' else ''false'')"
| "demo_ser (JNum n) = (case n of PosInt k \<Rightarrow> nat_digits k | NegInt i \<Rightarrow> ''-'' @ nat_digits (nat (- i))
     | Flt w \<Rightarrow> nat_digits (unat w) @ ''.0'')"
| "demo_ser (JStr s) = [CHR 0x22] @ s @ [CHR 0x22]"
| "demo_ser (JArr xs) = ''['' @ join_with '','' (demo_ser_list xs) @ '']''"
| "demo_ser (JObj m) = ''{'' @ join_with '','' (demo_ser_fields m) @ ''}''"
| "demo_ser_list [] = []"
| "demo_ser_list (x # xs) = demo_ser x # demo_ser_list xs"
| "demo_ser_fields [] = []"
| "demo_ser_fields (kv # m) =
     ([CHR 0x22] @ fst kv @ [CHR 0x22] @ '':'' @ demo_ser (snd kv)) # demo_ser_fields m"

definition demo_sha :: "string \<Rightarrow> 8 word list" where
  "demo_sha s = [word_of_nat (length s)]"

definition demo_base :: lib where
  "demo_base = \<lparr>x_sha = demo_sha, x_ser = demo_ser, x_parse = Map.empty, x_entry = Map.empty\<rparr>"

definition entry_value :: "journal_entry \<Rightarrow> json" where
  "entry_value e = jobj [(''id'', JStr (entry_id e)), (''observed_utc'', JStr (observed_utc e)),
     (''op'', JStr (entry_op e)), (''payload'', payload e)]"

definition demo_lib :: "journal_entry list \<Rightarrow> lib" where
  "demo_lib es = demo_base\<lparr>
     x_parse := map_of (map (\<lambda>e. (stored_line demo_base e, entry_value e)) es),
     x_entry := map_of (map (\<lambda>e. (stored_line demo_base e, e)) es)\<rparr>"

lemma demo_lib_ser [simp]: "x_ser (demo_lib es) = demo_ser" "x_sha (demo_lib es) = demo_sha"
  by (simp_all add: demo_lib_def demo_base_def)

lemma demo_stored_line [simp]: "stored_line (demo_lib es) e = stored_line demo_base e"
  by (simp add: stored_line_def field_text_def demo_base_def)

lemma demo_new_entry [simp]: "new_entry (demo_lib es) secs op pl = new_entry demo_base secs op pl"
  by (simp add: new_entry_def demo_base_def)

text \<open>The demonstration printer prints printable ASCII when the texts are.\<close>

fun jplain :: "json \<Rightarrow> bool"
  and jplain_list :: "json list \<Rightarrow> bool"
  and jplain_fields :: "jobject \<Rightarrow> bool" where
  "jplain (JStr s) = plain s"
| "jplain (JArr xs) = jplain_list xs"
| "jplain (JObj m) = jplain_fields m"
| "jplain v = True"
| "jplain_list [] = True"
| "jplain_list (x # xs) = (jplain x \<and> jplain_list xs)"
| "jplain_fields [] = True"
| "jplain_fields (kv # m) = (plain (fst kv) \<and> jplain (snd kv) \<and> jplain_fields m)"

lemma plain_join_with: "plain sep \<Longrightarrow> (\<forall>x \<in> set xs. plain x) \<Longrightarrow> plain (join_with sep xs)"
  by (cases xs) (auto simp: join_with_def plain_concat)

lemma plain_demo_ser:
  "jplain v \<Longrightarrow> plain (demo_ser v)"
  "jplain_list xs \<Longrightarrow> \<forall>s \<in> set (demo_ser_list xs). plain s"
  "jplain_fields m \<Longrightarrow> \<forall>s \<in> set (demo_ser_fields m). plain s"
  by (induction v and xs and m rule: jplain_jplain_list_jplain_fields.induct)
    (auto simp: byte_def plain_nat_digits intro!: plain_join_with split: num.splits)

definition eplain :: "journal_entry \<Rightarrow> bool" where
  "eplain e \<longleftrightarrow> plain (entry_id e) \<and> plain (observed_utc e) \<and> plain (entry_op e) \<and> jplain (payload e)"

lemma eplain_new_entry [simp]: "eplain (new_entry L secs op pl) \<longleftrightarrow> plain op \<and> jplain pl"
  by (simp add: eplain_def new_entry_def event_id_def plain_sha256_hex plain_format_utc)

lemma plain_stored_line: "eplain e \<Longrightarrow> plain (stored_line demo_base e)"
  by (simp add: stored_line_def field_text_def demo_base_def eplain_def plain_demo_ser byte_def)

lemma demo_reads_back:
  assumes "eplain e"
  shows "reads_back (demo_lib (e # es)) e"
proof -
  have "one_line (stored_line demo_base e)" "valid_utf8 (stored_line demo_base e)"
    using plain_stored_line [OF assms] by (auto intro: plain_one_line plain_valid)
  moreover have "x_parse (demo_lib (e # es)) (stored_line demo_base e) = Some (entry_value e)"
    "x_entry (demo_lib (e # es)) (stored_line demo_base e) = Some e"
    by (simp_all add: demo_lib_def)
  moreover have "map_of (obj_of [(''id'', JStr (entry_id e)), (''observed_utc'', JStr (observed_utc e)),
     (''op'', JStr (entry_op e)), (''payload'', payload e)]) ''id'' = Some (JStr (entry_id e))"
    "map_of (obj_of [(''id'', JStr (entry_id e)), (''observed_utc'', JStr (observed_utc e)),
     (''op'', JStr (entry_op e)), (''payload'', payload e)]) ''op'' = Some (JStr (entry_op e))"
    by (simp_all add: obj_of_map_of)
  ultimately show ?thesis
    by (simp add: reads_back_def keep_line_def entry_value_def)
qed

text \<open>Several entries whose lines differ in length.\<close>

lemma demo_line_length:
  "length (stored_line demo_base (new_entry demo_base secs op pl)) =
     48 + length (format_utc secs) + length op + length (demo_ser pl)"
proof -
  have "length (demo_sha s) = 1" for s by (simp add: demo_sha_def)
  then show ?thesis
    by (simp add: stored_line_def field_text_def new_entry_def demo_base_def event_id_def sha256_hex_length)
qed

lemma demo_reads_back_all:
  assumes "list_all eplain es" and "distinct (map (\<lambda>e. length (stored_line demo_base e)) es)" and "e \<in> set es"
  shows "reads_back (demo_lib es) e"
proof -
  have "distinct (map (stored_line demo_base) es)"
    using distinct_map [of length "map (stored_line demo_base) es"] assms(2) by (simp add: o_def)
  then have "x_parse (demo_lib es) (stored_line demo_base e) = Some (entry_value e)"
    "x_entry (demo_lib es) (stored_line demo_base e) = Some e"
    using assms(3) by (auto simp: demo_lib_def map_of_eq_Some_iff o_def)
  moreover have "map_of (obj_of [(''id'', JStr (entry_id e)), (''observed_utc'', JStr (observed_utc e)),
     (''op'', JStr (entry_op e)), (''payload'', payload e)]) ''id'' = Some (JStr (entry_id e))"
    "map_of (obj_of [(''id'', JStr (entry_id e)), (''observed_utc'', JStr (observed_utc e)),
     (''op'', JStr (entry_op e)), (''payload'', payload e)]) ''op'' = Some (JStr (entry_op e))"
    by (simp_all add: obj_of_map_of)
  moreover have "eplain e" using assms(1,3) by (simp add: list_all_iff)
  then have "one_line (stored_line demo_base e)" "valid_utf8 (stored_line demo_base e)"
    using plain_stored_line by (auto intro: plain_one_line plain_valid)
  ultimately show ?thesis by (simp add: reads_back_def keep_line_def entry_value_def)
qed

text \<open>One upsert, its stored line, and the directories around it.\<close>

definition demo_payload :: json where
  "demo_payload = jobj [(''id'', JStr ''n1''), (''type'', JStr ''Task'')]"

definition demo_entry :: journal_entry where
  "demo_entry = new_entry demo_base 1700000000 ''node.upsert'' demo_payload"

definition empty_store :: store where
  "empty_store = \<lparr>innen_dir = True, journal_file = None, quarantine_files = [], reports = []\<rparr>"

lemma demo_entry_reads_back: "reads_back (demo_lib (demo_entry # es)) demo_entry"
  by (rule demo_reads_back) (simp add: demo_entry_def demo_payload_def obj_of_def byte_def)

section \<open>Properties\<close>

text \<open>C3. What is appended is read back: after a successful append to a journal whose last line
  is terminated, \<open>read_all\<close> returns the entries it returned before, then the new entry with
  its content id, the time of the append, the op and the payload.  The returned id is the
  entry's, and quarantine is untouched.\<close>

theorem append_then_read:
  assumes "journal_append L secs op pl st = (Inr i, st')"
    and "\<forall>c. journal_file st = Some c \<longrightarrow> terminated c"
    and "reads_back L (new_entry L secs op pl)" and "read_all L st = Inr es"
  shows "read_all L st' =
      Inr (es @ [\<lparr>entry_id = i, observed_utc = format_utc secs, entry_op = op, payload = pl\<rparr>]) \<and>
    quarantine_files st' = quarantine_files st \<and>
    (\<exists>c. journal_file st' = Some c \<and> terminated c)"
  using append_read [OF assms] append_Inr(3,4) [OF assms(1)] append_terminated [OF assms(1)]
  by (simp add: new_entry_def)

theorem append_then_read_witness:
  "read_all (demo_lib [demo_entry]) (snd (journal_append (demo_lib [demo_entry]) 1700000000
     ''node.upsert'' demo_payload empty_store)) = Inr [demo_entry]"
proof -
  let ?L = "demo_lib [demo_entry]"
  have v: "validate ''node.upsert'' demo_payload = Inr ()" by code_simp
  obtain st' where st': "journal_append ?L 1700000000 ''node.upsert'' demo_payload empty_store =
      (Inr (event_id demo_sha demo_ser ''node.upsert'' demo_payload), st')"
    using append_ok [OF v, of empty_store ?L 1700000000] by (simp add: empty_store_def)
  have "reads_back ?L (new_entry ?L 1700000000 ''node.upsert'' demo_payload)"
    using demo_entry_reads_back [of "[]"] by (simp add: demo_entry_def)
  from append_then_read [OF st' _ this, of "[]"] st' show ?thesis
    by (simp add: empty_store_def read_all_def read_to_string_def demo_entry_def new_entry_def demo_base_def)
qed

text \<open>An append is accepted exactly for a known op, an object payload and the string fields
  the op requires; whatever is refused leaves the directory as it was.\<close>

definition required_fields :: "string \<Rightarrow> string list" where
  "required_fields op =
     (if op = ''node.upsert'' then [''id'']
      else if op = ''config.set'' then [''key''] else [''from'', ''to'', ''type''])"

definition acceptable :: "string \<Rightarrow> json \<Rightarrow> bool" where
  "acceptable op pl \<longleftrightarrow>
     op \<in> {''node.upsert'', ''edge.assert'', ''edge.retract'', ''config.set''} \<and>
     is_object pl \<and> list_all (\<lambda>k. jget_str pl k \<noteq> None) (required_fields op)"

lemma need_iff: "need op obj k = Inr () \<longleftrightarrow> jget_str (JObj obj) k \<noteq> None"
  by (auto simp: need_def jget_str_def bind_eq_None_conv split: option.splits json.splits)

lemma validate_iff: "validate op pl = Inr () \<longleftrightarrow> acceptable op pl"
proof (cases pl)
  case (JObj obj)
  show ?thesis
    by (auto simp: JObj validate_def acceptable_def ALLOWED_OPS_def required_fields_def need_iff)
qed (auto simp: validate_def acceptable_def)

theorem append_accepts_or_keeps:
  "case journal_append L secs op pl st of
     (Inr i, st') \<Rightarrow> innen_dir st \<and> acceptable op pl \<and>
        i = event_id (x_sha L) (x_ser L) op pl \<and> quarantine_files st' = quarantine_files st
   | (Inl e, st') \<Rightarrow> \<not> (innen_dir st \<and> acceptable op pl) \<and> st' = st"
proof (cases "validate op pl")
  case (Inl e)
  then have "\<not> acceptable op pl" by (simp add: validate_iff [symmetric])
  then show ?thesis using Inl by (simp add: journal_append_def)
next
  case (Inr u)
  then have "acceptable op pl" by (simp add: validate_iff [symmetric])
  then show ?thesis using Inr by (simp add: journal_append_def Let_def new_entry_def)
qed

text \<open>Opening a damaged journal loses no line: the lines that parse as objects with a string
  \<open>id\<close> and \<open>op\<close> stay in their order, every other non-empty line goes, in order and byte for
  byte, to the end of the quarantine file of the day, one report each; an undamaged file is
  not rewritten.\<close>

theorem open_moves_corrupt_lines:
  assumes "journal_file st = Some c" and "valid_utf8 c" and "bad_lines L c \<noteq> []"
    and "journal_open L q secs st = (r, st')"
    and "day = take 10 (format_utc secs) @ ''.jsonl''"
  shows "r = Inr () \<and> journal_file st' = Some (unlines (good_lines L c)) \<and>
    mset (good_lines L c) + mset (bad_lines L c) = mset (filter (\<lambda>l. l \<noteq> []) (lines c)) \<and>
    list_all (keep_line L) (good_lines L c) \<and>
    map_of (quarantine_files st') day =
      Some ((case map_of (quarantine_files st) day of None \<Rightarrow> [] | Some old \<Rightarrow> old) @
            unlines (bad_lines L c)) \<and>
    length (reports st') = length (reports st) + length (bad_lines L c)"
proof -
  have "mset (filter (\<lambda>l. l \<noteq> [] \<and> keep_line L l) ls) + mset (filter (\<lambda>l. l \<noteq> [] \<and> \<not> keep_line L l) ls) =
      mset (filter (\<lambda>l. l \<noteq> []) ls)" for ls
    by (induction ls) auto
  moreover have "list_all (keep_line L) (good_lines L c)" by (simp add: good_lines_def list_all_iff)
  ultimately show ?thesis
    using assms(4,5) open_dirty [OF assms(1-3), of q secs]
    by (auto simp: good_lines_def bad_lines_def)
qed

definition demo_torn :: store where
  "demo_torn = empty_store\<lparr>journal_file := Some (unlines [stored_line demo_base demo_entry] @ ''{x'')\<rparr>"

lemma demo_torn_file:
  "journal_file demo_torn = Some (unlines (map (stored_line demo_base) [demo_entry]) @ ''{x'')"
  by (simp add: demo_torn_def)

lemma demo_torn_keep: "\<not> keep_line (demo_lib [demo_entry]) ''{x''"
  by (simp add: keep_line_def demo_lib_def stored_line_def field_text_def)

lemma demo_torn_lines:
  "good_lines (demo_lib [demo_entry]) (unlines [stored_line demo_base demo_entry] @ ''{x'') =
     [stored_line demo_base demo_entry]"
  "bad_lines (demo_lib [demo_entry]) (unlines [stored_line demo_base demo_entry] @ ''{x'') = [''{x'']"
  using torn_good_bad [of "[demo_entry]" "demo_lib [demo_entry]" "''{x''"] demo_entry_reads_back [of "[]"]
    demo_torn_keep
  by (simp_all add: plain_one_line byte_def)

lemma demo_torn_valid: "valid_utf8 (unlines [stored_line demo_base demo_entry] @ ''{x'')"
  using valid_utf8_entries [of "[demo_entry]" "demo_lib [demo_entry]"] demo_entry_reads_back [of "[]"]
    plain_valid [of "''{x''"]
  by (simp add: valid_utf8_append byte_def del: unlines_simps)

theorem open_moves_corrupt_lines_witness:
  "journal_file (snd (journal_open (demo_lib [demo_entry]) ''q'' 0 demo_torn)) =
     Some (unlines [stored_line demo_base demo_entry])"
proof -
  obtain r st' where o: "journal_open (demo_lib [demo_entry]) ''q'' 0 demo_torn = (r, st')"
    by (cases "journal_open (demo_lib [demo_entry]) ''q'' 0 demo_torn") auto
  show ?thesis
    using open_moves_corrupt_lines [OF _ demo_torn_valid _ o refl] demo_torn_lines demo_torn_file
    by (simp add: o del: unlines_simps)
qed

text \<open>C27. Recovery after a crash: a journal of whole entries followed by a torn line of valid
  text is opened successfully, the entries are read back unchanged, the torn bytes are in
  the quarantine file of the day, and the next append is read back after them.\<close>

theorem open_recovers_from_torn_line:
  assumes "\<forall>e \<in> set es. reads_back L e" and "reads_back L (new_entry L now op pl)"
    and "journal_file st = Some (unlines (map (stored_line L) es) @ t)"
    and "one_line t" and "valid_utf8 t" and "t \<noteq> []" and "\<not> keep_line L t"
    and "journal_open L q secs st = (r, st')" and "journal_append L now op pl st' = (Inr i, st'')"
  shows "r = Inr () \<and> read_all L st' = Inr es \<and>
    read_all L st'' = Inr (es @ [new_entry L now op pl])"
proof -
  let ?c = "unlines (map (stored_line L) es) @ t"
  have "valid_utf8 ?c" using assms(1,5) by (simp add: valid_utf8_append valid_utf8_entries)
  note gb = torn_good_bad [OF assms(1,4,6,7)]
  have st': "r = Inr ()" "journal_file st' = Some (unlines (map (stored_line L) es))"
    using assms(8) open_dirty [OF assms(3) \<open>valid_utf8 ?c\<close>, of L q secs] by (auto simp: gb)
  then have "read_all L st' = Inr es" using assms(1) by (simp add: read_all_entries)
  moreover have "\<forall>c. journal_file st' = Some c \<longrightarrow> terminated c"
    using st'(2) by (cases "es = []") (simp_all add: terminated_def unlines_last)
  ultimately show ?thesis using append_read [OF assms(9)] assms(2) st'(1) by simp
qed

theorem open_recovers_from_torn_line_witness:
  "read_all (demo_lib [demo_entry]) (snd (journal_open (demo_lib [demo_entry]) ''q'' 0 demo_torn)) =
     Inr [demo_entry]"
proof -
  let ?L = "demo_lib [demo_entry]"
  obtain r st' where o: "journal_open ?L ''q'' 0 demo_torn = (r, st')"
    by (cases "journal_open ?L ''q'' 0 demo_torn") auto
  have v: "validate ''node.upsert'' demo_payload = Inr ()" by code_simp
  have "innen_dir st'"
    using o open_dirty [OF _ demo_torn_valid, of demo_torn ?L "''q''" 0]
    by (auto simp: demo_torn_file demo_torn_lines simp del: unlines_simps)
  then obtain st'' where a: "journal_append ?L 1700000000 ''node.upsert'' demo_payload st' =
      (Inr (event_id demo_sha demo_ser ''node.upsert'' demo_payload), st'')"
    using append_ok [OF v, of st' ?L 1700000000] by simp
  have "new_entry ?L 1700000000 ''node.upsert'' demo_payload = demo_entry"
    by (simp add: demo_entry_def)
  then show ?thesis
    using open_recovers_from_torn_line [OF _ _ _ _ _ _ demo_torn_keep o a, of "[demo_entry]"]
      demo_entry_reads_back [of "[]"]
      demo_torn_file
    by (simp add: o a plain_one_line plain_valid byte_def del: unlines_simps)
qed

text \<open>Opening is idempotent: a journal without carriage returns that was opened successfully is
  left as it is by every later opening, whenever it happens.\<close>

theorem open_idempotent:
  assumes "journal_file st = Some c" and "CHR 0x0D \<notin> set c"
    and "journal_open L q secs st = (Inr u, st')"
  shows "journal_open L q' secs' st' = (Inr (), st')"
proof -
  have v: "valid_utf8 c" using assms(1,3) open_invalid [of st c L q secs] by (cases "valid_utf8 c") auto
  show ?thesis
  proof (cases "bad_lines L c = []")
    case True
    then show ?thesis using open_clean [OF assms(1) v] assms(1,3) v by (auto intro!: open_clean [THEN trans])
  next
    case False
    note d = open_dirty [OF assms(1) v False, of q secs]
    let ?c' = "unlines (good_lines L c)"
    have jf: "journal_file st' = Some ?c'" "innen_dir st'" using d assms(3) by auto
    have "bad_lines L ?c' = []"
      unfolding bad_lines_def lines_good [OF assms(2)] by (auto simp: good_lines_def filter_empty_conv)
    moreover have "valid_utf8 ?c'"
      using lines_valid [OF v] by (intro valid_utf8_unlines) (auto simp: good_lines_def)
    ultimately show ?thesis using open_clean [OF jf(1)] jf(2) by simp
  qed
qed

theorem open_idempotent_witness:
  "journal_open (demo_lib [demo_entry]) ''q'' 9 (snd (journal_open (demo_lib [demo_entry]) ''q'' 0 demo_torn)) =
     (Inr (), snd (journal_open (demo_lib [demo_entry]) ''q'' 0 demo_torn))"
proof -
  let ?c = "unlines (map (stored_line demo_base) [demo_entry]) @ ''{x''"
  have "eplain demo_entry" by (simp add: demo_entry_def demo_payload_def obj_of_def byte_def)
  then have "CHR 0x0D \<notin> set ?c"
    using plain_one_line [OF plain_stored_line] by (simp add: one_line_def)
  moreover obtain st' where "journal_open (demo_lib [demo_entry]) ''q'' 0 demo_torn = (Inr (), st')"
    using open_dirty [OF demo_torn_file] demo_torn_valid demo_torn_lines by simp
  ultimately show ?thesis using open_idempotent [OF demo_torn_file] by simp
qed

text \<open>A crash that tears a character makes the journal unusable: when the bytes of the file are
  not UTF-8, opening fails with an I/O error, quarantines nothing and repairs nothing, and
  reading fails too, however many whole entries the file holds.\<close>

theorem torn_character_is_fatal:
  assumes "journal_file st = Some c" and "\<not> valid_utf8 c"
  shows "journal_open L q secs st = (Inl (Io InvalidData), st\<lparr>innen_dir := True\<rparr>) \<and>
    read_all L st = Inl (Io InvalidData)"
  using assms open_invalid [OF assms] by (simp add: read_all_def read_to_string_def)

theorem torn_character_is_fatal_witness:
  "read_all (demo_lib [demo_entry])
     (empty_store\<lparr>journal_file := Some (unlines [stored_line demo_base demo_entry] @ ''{'' @ [CHR 0xE5])\<rparr>) =
   Inl (Io InvalidData)"
proof -
  have "valid_utf8 (unlines [stored_line demo_base demo_entry])"
    using valid_utf8_entries [of "[demo_entry]" "demo_lib [demo_entry]"] demo_entry_reads_back [of "[]"]
    by simp
  then have "\<not> valid_utf8 (unlines [stored_line demo_base demo_entry] @ ''{'' @ [CHR 0xE5])"
    by (subst valid_utf8_append) (simp_all add: valid_utf8.simps(2) byte_def)
  from torn_character_is_fatal [OF _ this] show ?thesis by simp
qed

text \<open>C29. A crash that tears only the line break loses the next write: when the file ends with a
  whole entry but no line break, opening leaves it so, the next append is acknowledged with an
  id, and its bytes continue that line; if the joined line is no entry, the reader sees
  neither the old last entry nor the new one.\<close>

theorem torn_line_break_loses_the_next_append:
  assumes "\<forall>e \<in> set es. reads_back L e" and "reads_back L last_e"
    and "journal_file st = Some (unlines (map (stored_line L) es) @ stored_line L last_e)"
    and "x_entry L (stored_line L last_e @ stored_line L (new_entry L now op pl)) = None"
    and "reads_back L (new_entry L now op pl)"
    and "journal_open L q secs st = (r, st')" and "journal_append L now op pl st' = (Inr i, st'')"
  shows "r = Inr () \<and> read_all L st' = Inr (es @ [last_e]) \<and> read_all L st'' = Inr es"
proof -
  let ?l = "stored_line L last_e" and ?n = "stored_line L (new_entry L now op pl)"
  let ?c = "unlines (map (stored_line L) es) @ ?l"
  have one: "one_line ?l" "one_line ?n" using assms(2,5) by (auto simp: reads_back_def)
  have lc: "lines ?c = map (stored_line L) es @ [?l]" using torn_lines [OF assms(1) one(1)] by simp
  have v: "valid_utf8 ?c" using assms(1,2) by (simp add: valid_utf8_append valid_utf8_entries reads_back_def)
  have "bad_lines L ?c = []"
    using assms(1,2) by (auto simp: bad_lines_def lc reads_back_def filter_empty_conv)
  then have st': "r = Inr ()" "st' = st\<lparr>innen_dir := True\<rparr>"
    using assms(6) open_clean [OF assms(3) v] by auto
  then have "read_all L st' = Inr (es @ [last_e])"
    using assms(1-3) v read_all_content [of st' ?c L]
    by (simp add: lc entries_of_map_stored entries_of_stored)
  moreover obtain c where c: "journal_file st'' = Some c" "lines c = map (stored_line L) es @ [?l @ ?n]"
    using append_unterminated [OF assms(7), of "map (stored_line L) es" ?l] assms(1,3) st'(2) one
    by (auto simp: reads_back_def)
  moreover have "valid_utf8 c"
  proof -
    have "c = ?c @ unlines [?n]"
      using append_Inr(4) [OF assms(7)] st'(2) assms(3) c(1) by (simp add: append_bytes_def)
    moreover have "valid_utf8 (unlines [?n])"
      using assms(5) valid_utf8_unlines [of "[?n]"] by (simp add: reads_back_def)
    ultimately show ?thesis using v by (simp only: valid_utf8_append)
  qed
  moreover have "entries_of L [?l @ ?n] = []"
    using assms(4) by (simp add: entries_of_def List.map_filter_def)
  ultimately show ?thesis
    using assms(1) st'(1) by (simp add: read_all_content entries_of_map_stored)
qed

theorem torn_line_break_loses_the_next_append_witness:
  "\<exists>st'. journal_append (demo_lib [demo_entry]) 1700000000 ''node.upsert'' demo_payload
      (empty_store\<lparr>journal_file := Some (stored_line demo_base demo_entry)\<rparr>) =
      (Inr (entry_id demo_entry), st') \<and> read_all (demo_lib [demo_entry]) st' = Inr []"
proof -
  let ?L = "demo_lib [demo_entry]" and ?st = "empty_store\<lparr>journal_file := Some (stored_line demo_base demo_entry)\<rparr>"
  have v: "validate ''node.upsert'' demo_payload = Inr ()" by code_simp
  have n: "new_entry ?L 1700000000 ''node.upsert'' demo_payload = demo_entry" by (simp add: demo_entry_def)
  have no: "x_entry ?L (stored_line demo_base demo_entry @ stored_line demo_base demo_entry) = None"
    by (simp add: demo_lib_def)
  obtain r st' where o: "journal_open ?L ''q'' 0 ?st = (r, st')"
    by (cases "journal_open ?L ''q'' 0 ?st") auto
  have b: "bad_lines ?L (stored_line demo_base demo_entry) = []" "valid_utf8 (stored_line demo_base demo_entry)"
    using torn_lines [of "[]" ?L "stored_line demo_base demo_entry"] demo_entry_reads_back [of "[]"]
    by (simp_all add: bad_lines_def reads_back_def)
  have st': "st' = ?st" using o open_clean [of ?st "stored_line demo_base demo_entry" ?L] b
    by (simp add: empty_store_def)
  obtain st'' where a: "journal_append ?L 1700000000 ''node.upsert'' demo_payload st' =
      (Inr (entry_id demo_entry), st'')"
    using append_ok [OF v, of st' ?L 1700000000] by (simp add: st' empty_store_def demo_entry_def new_entry_def demo_base_def)
  have "read_all ?L st'' = Inr []"
    using torn_line_break_loses_the_next_append [OF _ _ _ _ _ o a, of "[]" demo_entry]
      demo_entry_reads_back [of "[]"] no
    by (simp add: n demo_entry_def [symmetric])
  with a st' show ?thesis by blast
qed

end
