(* ===== verification/Adjacency.thy ===== *)
theory Adjacency
  imports Text_Model
begin

text \<open>
  The vocabulary of the graph and its adjacency table
  (\<open>crates/innen-core/src/graph/adjacency.rs\<close>): node and edge kinds with their open-world
  escape \<open>Custom\<close>, endpoints, and \<open>validate\<close>.  The lemmas give the rule a triple is accepted
  by, the size of the table, and the laws of names and parsing.
\<close>

datatype node_type =
    Conversation | Task | Decision | Experiment | Dataset | Model | Artifact | Project | Product
  | CustomNode string

datatype edge_type =
    BelongsTo | FollowsUp | Supports | Evaluates | DiscussedIn | DerivedFrom
  | Supersedes | LocatedAt | OriginatedAt | Contains | PartOf | Informs
  | CustomEdge string

datatype endpoint = Node node_type | Uri string

fun node_name :: "node_type \<Rightarrow> string" where
  "node_name Conversation = ''Conversation''"
| "node_name Task = ''Task''"
| "node_name Decision = ''Decision''"
| "node_name Experiment = ''Experiment''"
| "node_name Dataset = ''Dataset''"
| "node_name Model = ''Model''"
| "node_name Artifact = ''Artifact''"
| "node_name Project = ''Project''"
| "node_name Product = ''Product''"
| "node_name (CustomNode s) = s"

fun edge_name :: "edge_type \<Rightarrow> string" where
  "edge_name BelongsTo = ''BELONGS_TO''"
| "edge_name FollowsUp = ''FOLLOWS_UP''"
| "edge_name Supports = ''SUPPORTS''"
| "edge_name Evaluates = ''EVALUATES''"
| "edge_name DiscussedIn = ''DISCUSSED_IN''"
| "edge_name DerivedFrom = ''DERIVED_FROM''"
| "edge_name Supersedes = ''SUPERSEDES''"
| "edge_name LocatedAt = ''LOCATED_AT''"
| "edge_name OriginatedAt = ''ORIGINATED_AT''"
| "edge_name Contains = ''CONTAINS''"
| "edge_name PartOf = ''PART_OF''"
| "edge_name Informs = ''INFORMS''"
| "edge_name (CustomEdge s) = s"

definition node_of_str :: "string \<Rightarrow> node_type" where
  "node_of_str s =
     (let l = to_ascii_lowercase s in
      if l = ''conversation'' then Conversation
      else if l = ''task'' then Task
      else if l = ''decision'' then Decision
      else if l = ''experiment'' then Experiment
      else if l = ''dataset'' then Dataset
      else if l = ''model'' then Model
      else if l = ''artifact'' then Artifact
      else if l = ''project'' then Project
      else if l = ''product'' then Product
      else CustomNode s)"

definition edge_of_str :: "string \<Rightarrow> edge_type" where
  "edge_of_str s =
     (let u = to_ascii_uppercase s in
      if u = ''BELONGS_TO'' then BelongsTo
      else if u = ''FOLLOWS_UP'' then FollowsUp
      else if u = ''SUPPORTS'' then Supports
      else if u = ''EVALUATES'' then Evaluates
      else if u = ''DISCUSSED_IN'' then DiscussedIn
      else if u = ''DERIVED_FROM'' then DerivedFrom
      else if u = ''SUPERSEDES'' then Supersedes
      else if u = ''LOCATED_AT'' then LocatedAt
      else if u = ''ORIGINATED_AT'' then OriginatedAt
      else if u = ''CONTAINS'' then Contains
      else if u = ''PART_OF'' then PartOf
      else if u = ''INFORMS'' then Informs
      else CustomEdge s)"

fun endpoint_name :: "endpoint \<Rightarrow> string" where
  "endpoint_name (Node n) = node_name n"
| "endpoint_name (Uri u) = u"

datatype adjacency_error =
    IllegalPair string string string
  | BadUri string
  | MissingProvenance

definition has_valid_provenance :: "string option \<Rightarrow> bool" where
  "has_valid_provenance p = (case p of None \<Rightarrow> False | Some s \<Rightarrow> trim s \<noteq> [])"

definition illegal :: "node_type \<Rightarrow> edge_type \<Rightarrow> endpoint \<Rightarrow> adjacency_error" where
  "illegal src edge dst = IllegalPair (node_name src) (edge_name edge) (endpoint_name dst)"

fun is_custom_node :: "node_type \<Rightarrow> bool" where
  "is_custom_node (CustomNode s) = True"
| "is_custom_node n = False"

fun is_custom_edge :: "edge_type \<Rightarrow> bool" where
  "is_custom_edge (CustomEdge s) = True"
| "is_custom_edge e = False"

fun is_custom_end :: "endpoint \<Rightarrow> bool" where
  "is_custom_end (Node n) = is_custom_node n"
| "is_custom_end (Uri u) = False"

definition uri_rows :: "(node_type \<times> edge_type) list" where
  "uri_rows =
  [(Dataset, LocatedAt), (Model, LocatedAt), (Artifact, LocatedAt),
   (Dataset, OriginatedAt), (Model, OriginatedAt), (Artifact, OriginatedAt)]"

definition node_rows :: "(node_type \<times> edge_type \<times> node_type) list" where
  "node_rows =
  [(Conversation, BelongsTo, Project),
   (Task, BelongsTo, Project),
   (Decision, BelongsTo, Project),
   (Experiment, BelongsTo, Project),
   (Artifact, BelongsTo, Project),
   (Conversation, FollowsUp, Conversation),
   (Conversation, FollowsUp, Task),
   (Task, FollowsUp, Task),
   (Task, FollowsUp, Decision),
   (Task, FollowsUp, Conversation),
   (Task, FollowsUp, Artifact),
   (Decision, FollowsUp, Task),
   (Decision, FollowsUp, Decision),
   (Decision, Supports, Task),
   (Decision, Supports, Decision),
   (Experiment, Supports, Task),
   (Experiment, Supports, Decision),
   (Experiment, Evaluates, Product),
   (Experiment, Evaluates, Dataset),
   (Experiment, Evaluates, Model),
   (Experiment, DiscussedIn, Conversation),
   (Decision, DiscussedIn, Conversation),
   (Model, DerivedFrom, Dataset),
   (Model, DerivedFrom, Model),
   (Model, DerivedFrom, Conversation),
   (Dataset, DerivedFrom, Dataset),
   (Dataset, DerivedFrom, Model),
   (Dataset, DerivedFrom, Conversation),
   (Artifact, DerivedFrom, Dataset),
   (Artifact, DerivedFrom, Model),
   (Artifact, DerivedFrom, Conversation),
   (Artifact, Supersedes, Artifact),
   (Decision, Supersedes, Decision),
   (Artifact, Contains, Artifact),
   (Artifact, PartOf, Artifact),
   (Product, Informs, Project),
   (Experiment, Informs, Project)]"

definition validate_edge ::
  "node_type \<Rightarrow> edge_type \<Rightarrow> endpoint \<Rightarrow> string option \<Rightarrow> adjacency_error + unit" where
  "validate_edge src edge dst provenance =
     (let custom_party = is_custom_node src \<or> is_custom_edge edge \<or> is_custom_end dst in
      if custom_party \<and> \<not> has_valid_provenance provenance then Inl MissingProvenance
      else case dst of
        Uri uri \<Rightarrow>
          if \<not> (edge = LocatedAt \<or> edge = OriginatedAt) then Inl (illegal src edge dst)
          else if uri = [] \<or> \<not> (starts_with uri ''/'' \<or> contains_str uri ''://'') then Inl (BadUri uri)
          else if custom_party then Inr ()
          else if (src, edge) \<in> set uri_rows then Inr ()
          else Inl (illegal src edge dst)
      | Node to_node \<Rightarrow>
          if custom_party then Inr ()
          else if (src, edge, to_node) \<in> set node_rows then Inr ()
          else Inl (illegal src edge dst))"

section \<open>Names and parsing\<close>

lemma node_of_str_name: "\<not> is_custom_node n \<Longrightarrow> node_of_str (node_name n) = n"
  by (cases n) (simp_all add: node_of_str_def to_ascii_lowercase_def lower_char_def byte_def char_of_def bit_Suc bit_0 Let_def)

lemma edge_of_str_name: "\<not> is_custom_edge e \<Longrightarrow> edge_of_str (edge_name e) = e"
  by (cases e) (simp_all add: edge_of_str_def to_ascii_uppercase_def upper_char_def byte_def char_of_def bit_Suc bit_0 Let_def)

lemma lower_upper: "to_ascii_lowercase (to_ascii_uppercase s) = to_ascii_lowercase s"
proof -
  have "lower_char (upper_char c) = lower_char c" for c
    by (auto simp: lower_char_def upper_char_def byte_def)
  then show ?thesis by (simp add: to_ascii_lowercase_def to_ascii_uppercase_def)
qed

lemma lower_literals:
  "to_ascii_lowercase (node_name n) = to_ascii_lowercase s"
  if "node_of_str s = n" "\<not> is_custom_node n" for n s
  using that
  by (cases n) (simp_all add: node_of_str_def Let_def to_ascii_lowercase_def lower_char_def byte_def
      char_of_def bit_Suc bit_0 split: if_splits)

lemma upper_literals:
  "to_ascii_uppercase (edge_name e) = to_ascii_uppercase s"
  if "edge_of_str s = e" "\<not> is_custom_edge e" for e s
  using that
  by (cases e) (simp_all add: edge_of_str_def Let_def to_ascii_uppercase_def upper_char_def byte_def
      char_of_def bit_Suc bit_0 split: if_splits)

lemma node_of_str_custom: "node_of_str s = CustomNode t \<Longrightarrow> t = s"
  by (auto simp: node_of_str_def Let_def split: if_splits)

lemma edge_of_str_custom: "edge_of_str s = CustomEdge t \<Longrightarrow> t = s"
  by (auto simp: edge_of_str_def Let_def split: if_splits)

text \<open>Names and parsing agree: parsing a name and naming what was parsed gives back the
  text up to ASCII case, and parsing once more gives the same kind, for nodes and for edges;
  the display of a kind therefore never changes what it is read as.\<close>

theorem names_parse_back:
  "node_of_str (node_name (node_of_str s)) = node_of_str s \<and>
   eq_ignore_ascii_case (node_name (node_of_str s)) s \<and>
   edge_of_str (edge_name (edge_of_str s)) = edge_of_str s \<and>
   eq_ignore_ascii_case (edge_name (edge_of_str s)) s"
proof -
  have n: "node_of_str (node_name (node_of_str s)) = node_of_str s"
  proof (cases "is_custom_node (node_of_str s)")
    case True
    then obtain t where "node_of_str s = CustomNode t" by (cases "node_of_str s") auto
    moreover from this have "t = s" by (rule node_of_str_custom)
    ultimately show ?thesis by simp
  qed (simp add: node_of_str_name)
  have e: "edge_of_str (edge_name (edge_of_str s)) = edge_of_str s"
  proof (cases "is_custom_edge (edge_of_str s)")
    case True
    then obtain t where "edge_of_str s = CustomEdge t" by (cases "edge_of_str s") auto
    moreover from this have "t = s" by (rule edge_of_str_custom)
    ultimately show ?thesis by simp
  qed (simp add: edge_of_str_name)
  have "eq_ignore_ascii_case (node_name (node_of_str s)) s"
    using lower_literals [of s, OF refl] node_of_str_custom [of s]
    by (cases "node_of_str s") (auto simp: eq_ignore_ascii_case_def)
  moreover have "eq_ignore_ascii_case (edge_name (edge_of_str s)) s"
  proof (cases "is_custom_edge (edge_of_str s)")
    case True
    then show ?thesis using edge_of_str_custom [of s]
      by (cases "edge_of_str s") (auto simp: eq_ignore_ascii_case_def)
  next
    case False
    then have "to_ascii_uppercase (edge_name (edge_of_str s)) = to_ascii_uppercase s"
      using upper_literals by blast
    then show ?thesis by (metis eq_ignore_ascii_case_def lower_upper)
  qed
  ultimately show ?thesis using n e by simp
qed

section \<open>The adjacency rule\<close>

definition uri_shape :: "string \<Rightarrow> bool" where
  "uri_shape u \<longleftrightarrow> u \<noteq> [] \<and> (starts_with u ''/'' \<or> contains_str u ''://'')"

definition in_table :: "node_type \<Rightarrow> edge_type \<Rightarrow> endpoint \<Rightarrow> bool" where
  "in_table src edge dst =
     (case dst of Uri _ \<Rightarrow> (src, edge) \<in> set uri_rows | Node n \<Rightarrow> (src, edge, n) \<in> set node_rows)"

definition custom_party :: "node_type \<Rightarrow> edge_type \<Rightarrow> endpoint \<Rightarrow> bool" where
  "custom_party src edge dst \<longleftrightarrow> is_custom_node src \<or> is_custom_edge edge \<or> is_custom_end dst"

lemma validate_edge_Inr:
  "validate_edge src edge dst p = Inr () \<longleftrightarrow>
   (if custom_party src edge dst then has_valid_provenance p else in_table src edge dst) \<and>
   (case dst of Uri u \<Rightarrow> edge \<in> {LocatedAt, OriginatedAt} \<and> uri_shape u | Node _ \<Rightarrow> True)"
  by (auto simp: validate_edge_def custom_party_def in_table_def uri_shape_def Let_def
      split: endpoint.splits)

text \<open>The rule of the graph: a triple is accepted exactly when it is a row of the table, or
  has a custom party and a non-blank provenance, and in either case a URI target has the shape
  of a URI and stands under \<open>LOCATED_AT\<close> or \<open>ORIGINATED_AT\<close>.  A missing provenance is
  reported before anything else, a malformed URI only under those two edges, and every other
  refusal is \<open>IllegalPair\<close>.  The table has 37 node rows and 6 URI rows, all different and
  none with a custom kind.\<close>

theorem adjacency_rule:
  "(validate_edge src edge dst p = Inr () \<longleftrightarrow>
     (if custom_party src edge dst then has_valid_provenance p else in_table src edge dst) \<and>
     (case dst of Uri u \<Rightarrow> edge \<in> {LocatedAt, OriginatedAt} \<and> uri_shape u | Node _ \<Rightarrow> True)) \<and>
   (validate_edge src edge dst p = Inl MissingProvenance \<longleftrightarrow>
     custom_party src edge dst \<and> \<not> has_valid_provenance p) \<and>
   (validate_edge src edge dst p = Inl (BadUri u) \<longleftrightarrow>
     dst = Uri u \<and> \<not> uri_shape u \<and> edge \<in> {LocatedAt, OriginatedAt} \<and>
     (if custom_party src edge dst then has_valid_provenance p else True)) \<and>
   length node_rows = 37 \<and> length uri_rows = 6 \<and> distinct node_rows \<and> distinct uri_rows \<and>
   list_all (\<lambda>(a, e, b). \<not> custom_party a e (Node b)) node_rows"
proof -
  have "validate_edge src edge dst p = Inl MissingProvenance \<longleftrightarrow>
     custom_party src edge dst \<and> \<not> has_valid_provenance p"
    by (auto simp: validate_edge_def custom_party_def illegal_def Let_def split: endpoint.splits)
  moreover have "validate_edge src edge dst p = Inl (BadUri u) \<longleftrightarrow>
     dst = Uri u \<and> \<not> uri_shape u \<and> edge \<in> {LocatedAt, OriginatedAt} \<and>
     (if custom_party src edge dst then has_valid_provenance p else True)"
    by (auto simp: validate_edge_def custom_party_def illegal_def uri_shape_def Let_def
        split: endpoint.splits if_splits)
  moreover have "length node_rows = 37" "length uri_rows = 6" "distinct node_rows" "distinct uri_rows"
    "list_all (\<lambda>(a, e, b). \<not> custom_party a e (Node b)) node_rows"
    by (simp_all add: node_rows_def uri_rows_def custom_party_def)
  ultimately show ?thesis using validate_edge_Inr by blast
qed

end
