(* ===== verification/Floats.thy ===== *)
theory Floats
  imports Json_Model
begin

text \<open>
  The float casts of Rust the program uses, on bit patterns: \<open>u64 as f64\<close>, \<open>i64 as f64\<close>,
  \<open>f64 as f32\<close> (round to nearest, ties to even; overflow to infinity) and the exact
  \<open>f32\<close> to \<open>f64\<close>.  A finite positive float is a natural number times a power of two.
\<close>

fun bit_len :: "nat \<Rightarrow> nat" where
  "bit_len n = (if n = 0 then 0 else Suc (bit_len (n div 2)))"

declare bit_len.simps [simp del]

text \<open>Division by a power of two, rounded to nearest with ties to even.\<close>

definition round_shift :: "nat \<Rightarrow> nat \<Rightarrow> nat" where
  "round_shift m s =
     (let q = m div 2 ^ s; r = m mod 2 ^ s in
      if 2 * r < 2 ^ s then q
      else if 2 * r > 2 ^ s then q + 1
      else if even q then q else q + 1)"

text \<open>
  The magnitude bits of the float nearest to \<open>m * 2 ^ e\<close>, for precision \<open>p\<close> and smallest
  exponent \<open>qmin\<close>: the units above \<open>qmin\<close> and the significand are added, so that a carry out
  of the significand moves into the exponent.
\<close>

definition encode_float :: "nat \<Rightarrow> int \<Rightarrow> nat \<Rightarrow> nat \<Rightarrow> int \<Rightarrow> nat" where
  "encode_float p qmin limit m e =
     (if m = 0 then 0
      else let q = max (e + int (bit_len m) - int p) qmin;
               n = (if q \<le> e then m * 2 ^ nat (e - q) else round_shift m (nat (q - e)))
           in min limit (nat (q - qmin) * 2 ^ (p - 1) + n))"

definition f64_of_nat :: "nat \<Rightarrow> 64 word" where
  "f64_of_nat n = word_of_nat (encode_float 53 (- 1074) 0x7FF0000000000000 n 0)"

definition f64_of_int :: "int \<Rightarrow> 64 word" where
  "f64_of_int i =
     (if i < 0 then or 0x8000000000000000 (f64_of_nat (nat (- i))) else f64_of_nat (nat i))"

text \<open>\<open>Number::as_f64\<close>.\<close>

fun as_f64 :: "json \<Rightarrow> 64 word option" where
  "as_f64 (JNum (PosInt n)) = Some (f64_of_nat n)"
| "as_f64 (JNum (NegInt i)) = Some (f64_of_int i)"
| "as_f64 (JNum (Flt w)) = Some w"
| "as_f64 v = None"

text \<open>\<open>x as f32\<close> for a finite \<open>f64\<close>.\<close>

definition f32_of_f64 :: "64 word \<Rightarrow> 32 word" where
  "f32_of_f64 w =
     (let bits = unat w;
          sign = bits div 2 ^ 63;
          ex = bits div 2 ^ 52 mod 2 ^ 11;
          man = bits mod 2 ^ 52;
          mag = (if ex = 0 then encode_float 24 (- 149) 0x7F800000 man (- 1074)
                 else encode_float 24 (- 149) 0x7F800000 (2 ^ 52 + man) (int ex - 1075))
      in word_of_nat (sign * 2 ^ 31 + mag))"

text \<open>\<open>f64::from(x)\<close> for a finite \<open>f32\<close>, and \<open>json!(x)\<close>: no number for infinities and NaN.\<close>

definition f64_of_f32 :: "32 word \<Rightarrow> 64 word" where
  "f64_of_f32 w =
     (let bits = unat w;
          sign = bits div 2 ^ 31;
          ex = bits div 2 ^ 23 mod 2 ^ 8;
          man = bits mod 2 ^ 23;
          mag = (if ex = 0 then encode_float 53 (- 1074) 0x7FF0000000000000 man (- 149)
                 else encode_float 53 (- 1074) 0x7FF0000000000000 (2 ^ 23 + man) (int ex - 150))
      in word_of_nat (sign * 2 ^ 63 + mag))"

definition f32_finite :: "32 word \<Rightarrow> bool" where
  "f32_finite w \<longleftrightarrow> unat w div 2 ^ 23 mod 2 ^ 8 \<noteq> 255"

definition json_of_f32 :: "32 word \<Rightarrow> json" where
  "json_of_f32 w = (if f32_finite w then JNum (Flt (f64_of_f32 w)) else JNull)"

end
