(* ===== verification/Materialize.thy ===== *)
theory Materialize
  imports Adjacency Floats Utc_Clock
begin

text \<open>
  Replay of the journal into a graph (\<open>crates/innen-core/src/graph/materialize.rs\<close>): nodes
  merged by id and edge rows in the order they were asserted.  The node map of the code is a hash map; here it is kept in key order, and
  nothing below depends on an iteration order.  The lemmas give each field of a node and
  each edge row as a function of the events, without replay.
\<close>

section \<open>Data\<close>

record stored_edge =
  e_from :: string
  e_edge :: edge_type
  e_to :: string
  e_weight :: "32 word option"
  e_valid_from :: string
  e_valid_until :: "string option"
  e_retracted :: bool
  e_observed_utc :: string
  e_provenance :: "string option"

record materialized =
  nodes :: "(string \<times> json) list"
  edges :: "stored_edge list"

section \<open>Timestamps\<close>

definition is_canonical_ts :: "string \<Rightarrow> bool" where
  "is_canonical_ts s \<longleftrightarrow>
     length s = 20 \<and>
     s ! 4 = CHR ''-'' \<and> s ! 7 = CHR ''-'' \<and> s ! 10 = CHR ''T'' \<and> s ! 13 = CHR '':'' \<and>
     s ! 16 = CHR '':'' \<and> s ! 19 = CHR ''Z'' \<and>
     list_all (\<lambda>i. is_ascii_digit (s ! i)) [0, 1, 2, 3, 5, 6, 8, 9, 11, 12, 14, 15, 17, 18]"

section \<open>Replay\<close>

text \<open>Merging one field of a payload into a stored node.\<close>

definition merge_field :: "string \<times> json \<Rightarrow> jobject \<Rightarrow> jobject" where
  "merge_field = (\<lambda>(k, v) stored.
     if k = ''observed_utc'' then
       (case (Option.bind (map_of stored ''observed_utc'') as_str, as_str v) of
          (Some cur, Some inc) \<Rightarrow> if cur \<ge> inc then stored else omap_insert k v stored
        | _ \<Rightarrow> omap_insert k v stored)
     else omap_insert k v stored)"

definition merge_env :: "string option \<Rightarrow> jobject \<Rightarrow> jobject" where
  "merge_env env stored =
     (case env of
        None \<Rightarrow> stored
      | Some env \<Rightarrow>
          (if (case Option.bind (map_of stored ''observed_utc'') as_str of
                 None \<Rightarrow> False | Some cur \<Rightarrow> cur \<ge> env)
           then stored else omap_insert ''observed_utc'' (JStr env) stored))"

definition upsert_node :: "jobject \<Rightarrow> string option \<Rightarrow> (string \<times> json) list \<Rightarrow> (string \<times> json) list" where
  "upsert_node payload env nds =
     (case Option.bind (map_of payload ''id'') as_str of
        None \<Rightarrow> nds
      | Some nid \<Rightarrow>
          (let entry = (case map_of nds nid of None \<Rightarrow> jobj [(''id'', JStr nid)] | Some n \<Rightarrow> n) in
           case entry of
             JObj stored \<Rightarrow> omap_insert nid (JObj (merge_env env (fold merge_field payload stored))) nds
           | _ \<Rightarrow> omap_insert nid (JObj payload) nds))"

text \<open>The three strings that name an edge.\<close>

definition edge_ends :: "jobject \<Rightarrow> (string \<times> string \<times> string) option" where
  "edge_ends payload =
     (case (Option.bind (map_of payload ''from'') as_str, Option.bind (map_of payload ''to'') as_str,
            Option.bind (map_of payload ''type'') as_str) of
        (Some from, Some to, Some typ) \<Rightarrow> Some (from, to, typ)
      | _ \<Rightarrow> None)"

definition or_else :: "'a option \<Rightarrow> 'a option \<Rightarrow> 'a option" where
  "or_else x y = (case x of None \<Rightarrow> y | Some a \<Rightarrow> Some a)"

definition assert_row :: "jobject \<Rightarrow> string option \<Rightarrow> stored_edge option" where
  "assert_row payload env =
     (case edge_ends payload of
        None \<Rightarrow> None
      | Some (from, to, typ) \<Rightarrow>
          (let weight = map_option f32_of_f64 (Option.bind (map_of payload ''weight'') as_f64);
               vfrom = (case or_else (Option.bind (map_of payload ''valid_from'') as_str) env of
                          None \<Rightarrow> [] | Some s \<Rightarrow> s);
               vuntil = Option.bind (map_of payload ''valid_until'') as_str;
               observed = (case or_else (Option.bind (map_of payload ''observed_utc'') as_str) env of
                             None \<Rightarrow> [] | Some s \<Rightarrow> s);
               prov = Option.bind (map_of payload ''provenance'') as_str
           in if vfrom \<noteq> [] \<and> \<not> is_canonical_ts vfrom then None
              else if (case vuntil of None \<Rightarrow> False | Some u \<Rightarrow> \<not> is_canonical_ts u) then None
              else if observed \<noteq> [] \<and> \<not> is_canonical_ts observed then None
              else Some \<lparr>e_from = from, e_edge = edge_of_str typ, e_to = to, e_weight = weight,
                         e_valid_from = vfrom, e_valid_until = vuntil, e_retracted = False,
                         e_observed_utc = observed, e_provenance = prov\<rparr>))"

definition retract_rows :: "jobject \<Rightarrow> stored_edge list \<Rightarrow> stored_edge list" where
  "retract_rows payload rows =
     (case edge_ends payload of
        None \<Rightarrow> rows
      | Some (from, to, typ) \<Rightarrow>
          map (\<lambda>row. if e_from row = from \<and> e_to row = to \<and> e_edge row = edge_of_str typ
                     then row\<lparr>e_retracted := True\<rparr> else row) rows)"

definition event_parts :: "json \<Rightarrow> (string \<times> jobject \<times> string option) option" where
  "event_parts event =
     (case (jget_str event ''op'', Option.bind (jget event ''payload'') as_object) of
        (Some op, Some payload) \<Rightarrow> Some (op, payload, jget_str event ''observed_utc'')
      | _ \<Rightarrow> None)"

definition apply_event :: "json \<Rightarrow> materialized \<Rightarrow> materialized" where
  "apply_event event m =
     (case event_parts event of
        None \<Rightarrow> m
      | Some (op, payload, env) \<Rightarrow>
          (if op = ''node.upsert'' then m\<lparr>nodes := upsert_node payload env (nodes m)\<rparr>
           else if op = ''edge.assert'' then
             (case assert_row payload env of
                None \<Rightarrow> m | Some row \<Rightarrow> m\<lparr>edges := edges m @ [row]\<rparr>)
           else if op = ''edge.retract'' then m\<lparr>edges := retract_rows payload (edges m)\<rparr>
           else m))"

definition empty_graph :: materialized where
  "empty_graph = \<lparr>nodes = [], edges = []\<rparr>"

definition row_valid :: "string \<Rightarrow> stored_edge \<Rightarrow> bool" where
  "row_valid cutoff e \<longleftrightarrow>
     e_valid_from e \<le> cutoff \<and>
     (case e_valid_until e of None \<Rightarrow> True | Some u \<Rightarrow> cutoff \<le> u)"

definition materialize :: "nat \<Rightarrow> json list \<Rightarrow> string option \<Rightarrow> bool \<Rightarrow> materialized" where
  "materialize secs events as_of include_expired =
     (let m = fold apply_event events empty_graph in
      if include_expired then m
      else (let cutoff = (case as_of of None \<Rightarrow> format_utc secs | Some t \<Rightarrow> t)
            in m\<lparr>edges := filter (row_valid cutoff) (edges m)\<rparr>))"

definition is_uri_shape :: "string \<Rightarrow> bool" where
  "is_uri_shape s \<longleftrightarrow> s \<noteq> [] \<and> (starts_with s ''/'' \<or> contains_str s ''://'')"

section \<open>Nodes as functions of the events\<close>

text \<open>The upserts of one node, in the order of the events.\<close>

definition upsert_of :: "string \<Rightarrow> json \<Rightarrow> (jobject \<times> string option) option" where
  "upsert_of nid event =
     (case event_parts event of
        Some (op, payload, env) \<Rightarrow>
          (if op = ''node.upsert'' \<and> Option.bind (map_of payload ''id'') as_str = Some nid
           then Some (payload, env) else None)
      | None \<Rightarrow> None)"

definition history :: "string \<Rightarrow> json list \<Rightarrow> (jobject \<times> string option) list" where
  "history nid events = List.map_filter (upsert_of nid) events"

definition merge_upsert :: "jobject \<times> string option \<Rightarrow> jobject \<Rightarrow> jobject" where
  "merge_upsert = (\<lambda>(payload, env) stored. merge_env env (fold merge_field payload stored))"

definition node_object :: "string \<Rightarrow> (jobject \<times> string option) list \<Rightarrow> jobject" where
  "node_object nid h = fold merge_upsert h (obj_of [(''id'', JStr nid)])"

lemma history_snoc: "history nid (es @ [e]) = history nid es @ (case upsert_of nid e of None \<Rightarrow> [] | Some u \<Rightarrow> [u])"
  by (simp add: history_def List.map_filter_def split: option.splits)

lemma upsert_node_lookup:
  assumes "\<And>i n. map_of nds i = Some n \<Longrightarrow> is_object n"
  shows "map_of (upsert_node payload env nds) nid =
    (if Option.bind (map_of payload ''id'') as_str = Some nid
     then Some (JObj (merge_upsert (payload, env)
       (case map_of nds nid of Some (JObj s) \<Rightarrow> s | _ \<Rightarrow> obj_of [(''id'', JStr nid)])))
     else map_of nds nid)"
proof (cases "Option.bind (map_of payload ''id'') as_str")
  case (Some i)
  obtain s where "(case map_of nds i of None \<Rightarrow> jobj [(''id'', JStr i)] | Some n \<Rightarrow> n) = JObj s"
    "(case map_of nds i of Some (JObj s) \<Rightarrow> s | _ \<Rightarrow> obj_of [(''id'', JStr i)]) = s"
  proof (cases "map_of nds i")
    case (Some n)
    with assms [OF this] that show thesis by (cases n) auto
  qed (use that in auto)
  then show ?thesis using Some by (auto simp: upsert_node_def merge_upsert_def)
qed (simp add: upsert_node_def)

lemma node_history:
  "map_of (nodes (fold apply_event events empty_graph)) nid =
     (if history nid events = [] then None else Some (JObj (node_object nid (history nid events))))"
proof (induction events arbitrary: nid rule: rev_induct)
  case Nil
  then show ?case by (simp add: history_def List.map_filter_def empty_graph_def)
next
  case (snoc e es)
  let ?m = "fold apply_event es empty_graph"
  have obj: "is_object n" if "map_of (nodes ?m) i = Some n" for i n
    using that snoc.IH by (auto split: if_splits)
  show ?case
  proof (cases "event_parts e")
    case None
    then show ?thesis using snoc.IH by (simp add: apply_event_def history_snoc upsert_of_def)
  next
    case (Some parts)
    obtain op payload env where parts: "parts = (op, payload, env)" by (cases parts)
    show ?thesis
    proof (cases "op = ''node.upsert''")
      case True
      have "nodes (apply_event e ?m) = upsert_node payload env (nodes ?m)"
        by (simp add: apply_event_def Some parts True)
      moreover have "upsert_of nid e = (if Option.bind (map_of payload ''id'') as_str = Some nid
          then Some (payload, env) else None)"
        by (simp add: upsert_of_def Some parts True)
      ultimately show ?thesis
        using upsert_node_lookup [of "nodes ?m" payload env nid, OF obj] snoc.IH [of nid]
        by (auto simp: history_snoc node_object_def)
    next
      case False
      have "nodes (apply_event e ?m) = nodes ?m"
        using False by (auto simp: apply_event_def Some parts split: option.splits)
      then show ?thesis using snoc.IH False by (simp add: history_snoc upsert_of_def Some parts)
    qed
  qed
qed

text \<open>Every field but the observation time: the last value supplied.\<close>

lemma merge_field_other: "k \<noteq> ''observed_utc'' \<Longrightarrow>
  map_of (merge_field kv s) k = (if fst kv = k then Some (snd kv) else map_of s k)"
  by (cases kv) (auto simp: merge_field_def split: option.splits)

lemma merge_upsert_other:
  assumes "k \<noteq> ''observed_utc''"
  shows "map_of (merge_upsert u s) k = (map_of s ++ map_of (rev (fst u))) k"
proof -
  have "map_of (fold merge_field p s) k = (map_of s ++ map_of (rev p)) k" for p
    by (induction p arbitrary: s) (auto simp: merge_field_other [OF assms] map_add_def split: option.splits)
  then show ?thesis
    using assms by (cases u) (auto simp: merge_upsert_def merge_env_def split: option.splits)
qed

lemma node_object_other:
  assumes "k \<noteq> ''observed_utc''"
  shows "map_of (node_object nid h) k = map_of (rev ((''id'', JStr nid) # concat (map fst h))) k"
proof -
  have "map_of (fold merge_upsert h s) k = (map_of s ++ map_of (rev (concat (map fst h)))) k" for s
    by (induction h arbitrary: s) (simp_all add: merge_upsert_other [OF assms] map_add_def split: option.splits)
  then show ?thesis by (simp add: node_object_def obj_of_map_of map_add_def split: option.splits)
qed

text \<open>The observation time: the greatest of the texts supplied, by payloads and envelopes.\<close>

definition observed_texts :: "jobject \<times> string option \<Rightarrow> string list" where
  "observed_texts = (\<lambda>(payload, env).
     List.map_filter (\<lambda>(k, v). if k = ''observed_utc'' then as_str v else None) payload @
     (case env of None \<Rightarrow> [] | Some t \<Rightarrow> [t]))"

definition observed_ok :: "jobject \<Rightarrow> bool" where
  "observed_ok = list_all (\<lambda>(k, v). k = ''observed_utc'' \<longrightarrow> is_string v)"

definition latest :: "string list \<Rightarrow> json option" where
  "latest ts = (if ts = [] then None else Some (JStr (Max (set ts))))"

lemma latest_snoc:
  "latest (ts @ [t]) = (case Option.bind (latest ts) as_str of
     Some cur \<Rightarrow> if cur \<ge> t then latest ts else Some (JStr t) | None \<Rightarrow> Some (JStr t))"
  by (cases "ts = []") (auto simp: latest_def max_def)

lemma merge_field_latest:
  assumes "map_of s ''observed_utc'' = latest ts" and "k = ''observed_utc'' \<longrightarrow> is_string v"
  shows "map_of (merge_field (k, v) s) ''observed_utc'' =
    latest (ts @ List.map_filter (\<lambda>(k, v). if k = ''observed_utc'' then as_str v else None) [(k, v)])"
proof (cases "k = ''observed_utc''")
  case True
  with assms(2) obtain t where v: "v = JStr t" by (cases v) auto
  show ?thesis
    using assms(1)
    by (auto simp: True v merge_field_def latest_snoc List.map_filter_def split: option.splits)
qed (use assms in \<open>simp add: merge_field_def List.map_filter_def\<close>)

lemma merge_upsert_latest:
  assumes "map_of s ''observed_utc'' = latest ts" and "observed_ok (fst u)"
  shows "map_of (merge_upsert u s) ''observed_utc'' = latest (ts @ observed_texts u)"
proof -
  obtain p env where u: "u = (p, env)" by (cases u)
  have "map_of (fold merge_field p s) ''observed_utc'' =
      latest (ts @ List.map_filter (\<lambda>(k, v). if k = ''observed_utc'' then as_str v else None) p)"
    using assms unfolding u fst_conv
  proof (induction p arbitrary: s ts)
    case (Cons kv p)
    obtain k v where kv: "kv = (k, v)" by (cases kv)
    have "map_of (merge_field kv s) ''observed_utc'' =
        latest (ts @ List.map_filter (\<lambda>(k, v). if k = ''observed_utc'' then as_str v else None) [kv])"
      unfolding kv using Cons.prems by (intro merge_field_latest) (auto simp: kv observed_ok_def)
    from Cons.IH [OF this] Cons.prems show ?case
      by (simp add: observed_ok_def List.map_filter_def split: option.splits prod.splits if_splits)
  qed (simp add: List.map_filter_def)
  then show ?thesis
    by (auto simp: u merge_upsert_def merge_env_def observed_texts_def latest_snoc
        simp flip: append_assoc split: option.splits)
qed

lemma node_object_observed:
  assumes "list_all (\<lambda>u. observed_ok (fst u)) h"
  shows "map_of (node_object nid h) ''observed_utc'' = latest (concat (map observed_texts h))"
proof -
  have "map_of s ''observed_utc'' = latest ts \<Longrightarrow>
    map_of (fold merge_upsert h s) ''observed_utc'' = latest (ts @ concat (map observed_texts h))" for s ts
    using assms by (induction h arbitrary: s ts) (auto simp: merge_upsert_latest)
  from this [of "obj_of [(''id'', JStr nid)]" "[]"] show ?thesis
    by (simp add: node_object_def obj_of_map_of latest_def)
qed

section \<open>Edge rows as functions of the events\<close>

definition asserted :: "json \<Rightarrow> stored_edge option" where
  "asserted event =
     (case event_parts event of
        Some (op, payload, env) \<Rightarrow> if op = ''edge.assert'' then assert_row payload env else None
      | None \<Rightarrow> None)"

definition retracts :: "stored_edge \<Rightarrow> json \<Rightarrow> bool" where
  "retracts row event =
     (case event_parts event of
        Some (op, payload, env) \<Rightarrow>
          op = ''edge.retract'' \<and>
          (case edge_ends payload of
             Some (from, to, typ) \<Rightarrow> e_from row = from \<and> e_to row = to \<and> e_edge row = edge_of_str typ
           | None \<Rightarrow> False)
      | None \<Rightarrow> False)"

definition mark :: "bool \<Rightarrow> stored_edge \<Rightarrow> stored_edge" where
  "mark b row = (if b then row\<lparr>e_retracted := True\<rparr> else row)"

text \<open>One row per assertion, in order, retracted when a later event retracts it.\<close>

fun rows_of :: "json list \<Rightarrow> stored_edge list" where
  "rows_of [] = []"
| "rows_of (e # es) =
     (case asserted e of None \<Rightarrow> [] | Some row \<Rightarrow> [mark (list_ex (retracts row) es) row]) @ rows_of es"

lemma retracts_mark [simp]: "retracts (mark b row) = retracts row"
  by (rule ext) (auto simp: retracts_def mark_def split: option.splits)

lemma mark_mark: "mark a (mark b row) = mark (a \<or> b) row"
  by (simp add: mark_def)

lemma edges_apply_event:
  "edges (apply_event e m) =
     map (\<lambda>row. mark (retracts row e) row) (edges m) @
     (case asserted e of None \<Rightarrow> [] | Some row \<Rightarrow> [row])"
  by (auto simp: apply_event_def asserted_def retracts_def mark_def retract_rows_def
      split: option.splits prod.splits intro!: map_idI [symmetric])

lemma edges_fold:
  "edges (fold apply_event es m) =
     map (\<lambda>row. mark (list_ex (retracts row) es) row) (edges m) @ rows_of es"
proof (induction es arbitrary: m)
  case (Cons e es)
  show ?case
    by (simp add: Cons.IH edges_apply_event mark_mark disj_commute split: option.splits)
qed (simp add: mark_def)

lemma edges_materialize:
  "edges (materialize secs es as_of True) = rows_of es"
  "edges (materialize secs es as_of False) =
     filter (row_valid (case as_of of None \<Rightarrow> format_utc secs | Some t \<Rightarrow> t)) (rows_of es)"
  "nodes (materialize secs es as_of b) = nodes (fold apply_event es empty_graph)"
  by (simp_all add: materialize_def Let_def edges_fold empty_graph_def)

lemma asserted_canonical:
  assumes "asserted e = Some row"
  shows "(e_valid_from row = [] \<or> is_canonical_ts (e_valid_from row)) \<and>
    (case e_valid_until row of None \<Rightarrow> True | Some u \<Rightarrow> is_canonical_ts u) \<and>
    (e_observed_utc row = [] \<or> is_canonical_ts (e_observed_utc row)) \<and> \<not> e_retracted row"
  using assms
  by (auto simp: asserted_def assert_row_def Let_def split: option.splits prod.splits if_splits)

lemma rows_of_set:
  "row \<in> set (rows_of es) \<Longrightarrow> \<exists>e \<in> set es. \<exists>r b. asserted e = Some r \<and> row = mark b r"
proof (induction es)
  case (Cons e es)
  then show ?case by (cases "asserted e") (simp, simp, blast)
qed simp

section \<open>Canonical timestamps\<close>

lemma dig_digit: "n < 10 \<Longrightarrow> is_ascii_digit (dig n)"
  by (simp add: is_ascii_digit_def byte_dig)

lemma pad_digits_2: "n < 100 \<Longrightarrow> pad_digits 2 n = [dig (n div 10), dig (n mod 10)]"
  using pad_digits_Suc [of 1 n] pad_digits_1 [of "n div 10"] by (simp add: numeral_2_eq_2)

lemma pad_digits_4:
  "n < 10000 \<Longrightarrow> pad_digits 4 n =
     [dig (n div 10 div 10 div 10), dig (n div 10 div 10 mod 10), dig (n div 10 mod 10), dig (n mod 10)]"
proof -
  assume n: "n < 10000"
  have "pad_digits 4 n = pad_digits 2 (n div 10 div 10) @ [dig (n div 10 mod 10)] @ [dig (n mod 10)]"
    using pad_digits_Suc [of 3 n] pad_digits_Suc [of 2 "n div 10"] by simp
  then show ?thesis using n pad_digits_2 [of "n div 10 div 10"] by simp
qed

lemma canonical_shape:
  assumes "is_ascii_digit a" "is_ascii_digit b" "is_ascii_digit c" "is_ascii_digit d" "is_ascii_digit e"
    "is_ascii_digit f" "is_ascii_digit g" "is_ascii_digit h" "is_ascii_digit i" "is_ascii_digit j"
    "is_ascii_digit k" "is_ascii_digit l" "is_ascii_digit m" "is_ascii_digit n"
  shows "is_canonical_ts [a, b, c, d, CHR ''-'', e, f, CHR ''-'', g, h, CHR ''T'', i, j, CHR '':'', k, l,
    CHR '':'', m, n, CHR ''Z'']"
  using assms by (simp add: is_canonical_ts_def)

lemma format_utc_canonical:
  assumes "s < 253402300800"
  shows "is_canonical_ts (format_utc s)"
proof -
  have "s div 86400 \<le> 2932896" using assms by auto
  moreover obtain y m d where c: "civil_date (int (s div 86400)) = (y, m, d)"
    by (cases "civil_date (int (s div 86400))") auto
  ultimately have y: "1970 \<le> y" "y \<le> 9999" by (auto dest: format_date_le)
  note md = civil_date_code(2-) [OF of_nat_0_le_iff c]
  define t where "t = s mod 86400"
  have lt: "nat y < 10000" "nat m < 100" "nat d < 100" using y md by auto
  have t: "t div 3600 < 100" "t mod 3600 div 60 < 100" "t mod 60 < 100"
  proof -
    have "t < 86400" by (simp add: t_def)
    then show "t div 3600 < 100" by auto
    show "t mod 3600 div 60 < 100" by auto
    have "t mod 60 < 60" by simp
    then show "t mod 60 < 100" by linarith
  qed
  have two: "x div 10 < 10 \<and> x mod 10 < 10" if "x < 100" for x :: nat using that by auto
  have four: "x div 10 div 10 div 10 < 10 \<and> x div 10 div 10 mod 10 < 10 \<and> x div 10 mod 10 < 10 \<and> x mod 10 < 10"
    if "x < 10000" for x :: nat using that by auto
  have "format_utc s =
      [dig (nat y div 10 div 10 div 10), dig (nat y div 10 div 10 mod 10), dig (nat y div 10 mod 10),
       dig (nat y mod 10), CHR ''-'', dig (nat m div 10), dig (nat m mod 10), CHR ''-'',
       dig (nat d div 10), dig (nat d mod 10), CHR ''T'',
       dig (t div 3600 div 10), dig (t div 3600 mod 10), CHR '':'',
       dig (t mod 3600 div 60 div 10), dig (t mod 3600 div 60 mod 10), CHR '':'',
       dig (t mod 60 div 10), dig (t mod 60 mod 10), CHR ''Z'']"
    unfolding format_utc_def c t_def [symmetric] format_date_def format_time_def
      prod.case pad_digits_2 [OF lt(2)] pad_digits_2 [OF lt(3)] pad_digits_2 [OF t(1)]
      pad_digits_2 [OF t(2)] pad_digits_2 [OF t(3)] pad_digits_4 [OF lt(1)] append.simps ..
  also have "is_canonical_ts \<dots>"
    by (rule canonical_shape; rule dig_digit)
      (use two [OF lt(2)] two [OF lt(3)] two [OF t(1)] two [OF t(2)] two [OF t(3)] four [OF lt(1)]
       in blast)+
  finally show ?thesis .
qed

section \<open>Well-formed graphs\<close>

definition node_wf :: "string \<Rightarrow> json \<Rightarrow> bool" where
  "node_wf i n \<longleftrightarrow> (\<exists>m. n = JObj m \<and> omap_ok m \<and> map_of m ''id'' = Some (JStr i))"

definition row_wf :: "stored_edge \<Rightarrow> bool" where
  "row_wf row \<longleftrightarrow>
     (e_valid_from row = [] \<or> is_canonical_ts (e_valid_from row)) \<and>
     (case e_valid_until row of None \<Rightarrow> True | Some u \<Rightarrow> is_canonical_ts u) \<and>
     (e_observed_utc row = [] \<or> is_canonical_ts (e_observed_utc row))"

definition graph_wf :: "materialized \<Rightarrow> bool" where
  "graph_wf g \<longleftrightarrow> omap_ok (nodes g) \<and> (\<forall>(i, n) \<in> set (nodes g). node_wf i n) \<and> list_all row_wf (edges g)"

lemma merge_field_ok: "omap_ok s \<Longrightarrow> omap_ok (merge_field kv s)"
  by (auto simp: merge_field_def split: prod.split option.split)

lemma fold_merge_ok: "omap_ok s \<Longrightarrow> omap_ok (fold merge_field kvs s)"
  by (induction kvs arbitrary: s) (auto intro: merge_field_ok)

lemma merge_env_ok: "omap_ok s \<Longrightarrow> omap_ok (merge_env env s)"
  by (auto simp: merge_env_def split: option.split)

lemma node_object_ok: "omap_ok (node_object nid h)"
proof -
  have "omap_ok s \<Longrightarrow> omap_ok (fold merge_upsert h s)" for s
    by (induction h arbitrary: s) (simp_all add: merge_upsert_def merge_env_ok fold_merge_ok split: prod.split)
  then show ?thesis by (simp add: node_object_def)
qed

lemma nodes_fold_ok: "omap_ok (nodes m) \<Longrightarrow> omap_ok (nodes (fold apply_event es m))"
proof (induction es arbitrary: m)
  case (Cons e es)
  have "omap_ok (nodes (apply_event e m))"
    using Cons.prems
    by (auto simp: apply_event_def upsert_node_def Let_def split: option.splits json.splits)
  then show ?case using Cons.IH by simp
qed simp

lemma event_payload_ok: "wf_json e \<Longrightarrow> event_parts e = Some (op, payload, env) \<Longrightarrow> omap_ok payload"
  by (cases e)
    (auto simp: event_parts_def wf_fields_iff bind_eq_Some_conv split: option.splits json.splits
      dest!: map_of_SomeD elim!: as_object.elims)

lemma history_payload:
  assumes "list_all wf_json events" and "u \<in> set (history nid events)"
  shows "omap_ok (fst u)" and "map_of (fst u) ''id'' = Some (JStr nid)"
proof -
  obtain e where e: "e \<in> set events" "upsert_of nid e = Some u"
    using assms(2) by (auto simp: history_def List.map_filter_def)
  then obtain op env where p: "event_parts e = Some (op, fst u, env)"
      "Option.bind (map_of (fst u) ''id'') as_str = Some nid"
    by (auto simp: upsert_of_def split: option.splits prod.splits if_splits)
  show "omap_ok (fst u)"
    using event_payload_ok [OF _ p(1)] assms(1) e(1) by (simp add: list_all_iff)
  show "map_of (fst u) ''id'' = Some (JStr nid)"
    using p(2) by (auto simp: bind_eq_Some_conv elim!: as_str.elims)
qed

lemma node_object_id:
  assumes "list_all wf_json events"
  shows "map_of (node_object nid (history nid events)) ''id'' = Some (JStr nid)"
proof -
  let ?kvs = "rev ((''id'', JStr nid) # concat (map fst (history nid events)))"
  have "v = JStr nid" if "(''id'', v) \<in> set ?kvs" for v
  proof -
    have "v = JStr nid \<or> (\<exists>u \<in> set (history nid events). (''id'', v) \<in> set (fst u))"
      using that by auto
    then show ?thesis
      using history_payload [OF assms, of _ nid] omap_map_of_iff by (metis option.inject)
  qed
  moreover obtain v where v: "map_of ?kvs ''id'' = Some v"
    by (cases "map_of ?kvs ''id''") (auto simp: map_of_eq_None_iff)
  ultimately have "v = JStr nid" by (blast dest: map_of_SomeD)
  with v have "map_of ?kvs ''id'' = Some (JStr nid)" by simp
  moreover have "map_of (node_object nid (history nid events)) ''id'' = map_of ?kvs ''id''"
    by (rule node_object_other) simp
  ultimately show ?thesis by simp
qed

section \<open>Properties\<close>

text \<open>C5. Replay gives each node as a function of the events that upsert it: it exists exactly
  when some event upserts it; every field but the observation time holds the last value any
  of those events supplied (the id, its own); and the observation time, when it is always
  given as text, is the greatest of the texts given by payloads and envelopes.  Neither the
  cutoff nor the validity filter touches a node.\<close>

theorem replay_nodes:
  assumes "k \<noteq> ''observed_utc''" and "list_all (\<lambda>u. observed_ok (fst u)) (history nid events)"
  shows "case map_of (nodes (materialize secs events as_of b)) nid of
      None \<Rightarrow> history nid events = []
    | Some node \<Rightarrow> history nid events \<noteq> [] \<and>
        jget node k = map_of (rev ((''id'', JStr nid) # concat (map fst (history nid events)))) k \<and>
        jget node ''observed_utc'' = latest (concat (map observed_texts (history nid events)))"
  using node_history [of events nid] node_object_other [OF assms(1), of nid "history nid events"]
    node_object_observed [OF assms(2), of nid]
  by (simp add: edges_materialize)

definition demo_upsert :: "string \<Rightarrow> string \<Rightarrow> json \<Rightarrow> json" where
  "demo_upsert t k v = JObj [(''observed_utc'', JStr t), (''op'', JStr ''node.upsert''),
     (''payload'', JObj [(''id'', JStr ''a''), (k, v)])]"

theorem replay_nodes_witness:
  "jget (the (map_of (nodes (materialize 0
      [demo_upsert ''2'' ''label'' (JStr ''x''), demo_upsert ''1'' ''label'' (JStr ''y'')] None False)) ''a''))
     ''label'' = Some (JStr ''y'') \<and>
   jget (the (map_of (nodes (materialize 0
      [demo_upsert ''2'' ''label'' (JStr ''x''), demo_upsert ''1'' ''label'' (JStr ''y'')] None False)) ''a''))
     ''observed_utc'' = Some (JStr ''2'')"
proof -
  let ?es = "[demo_upsert ''2'' ''label'' (JStr ''x''), demo_upsert ''1'' ''label'' (JStr ''y'')]"
  have h: "history ''a'' ?es = [([(''id'', JStr ''a''), (''label'', JStr ''x'')], Some ''2''),
     ([(''id'', JStr ''a''), (''label'', JStr ''y'')], Some ''1'')]"
    by (simp add: history_def demo_upsert_def upsert_of_def event_parts_def jget_str_def List.map_filter_def)
  show ?thesis
    using replay_nodes [of "''label''" "''a''" ?es 0 None False] unfolding h
    by (simp add: observed_ok_def latest_def observed_texts_def List.map_filter_def less_char_def max_def
        split: option.splits)
qed

text \<open>C15. Replay gives the edge rows as a function of the events: one row per accepted
  assertion, in the order of the events, marked retracted exactly when a later event retracts
  its triple; no row is removed.  Every timestamp of a row is empty or canonical, and the
  snapshot at a cutoff holds exactly the rows whose validity interval contains it.\<close>

theorem replay_edges:
  "edges (materialize secs es as_of True) = rows_of es \<and>
   edges (materialize secs es as_of False) =
     filter (row_valid (case as_of of None \<Rightarrow> format_utc secs | Some t \<Rightarrow> t)) (rows_of es) \<and>
   list_all (\<lambda>row. (e_valid_from row = [] \<or> is_canonical_ts (e_valid_from row)) \<and>
      (case e_valid_until row of None \<Rightarrow> True | Some u \<Rightarrow> is_canonical_ts u)) (rows_of es)"
proof -
  have "list_all (\<lambda>row. (e_valid_from row = [] \<or> is_canonical_ts (e_valid_from row)) \<and>
      (case e_valid_until row of None \<Rightarrow> True | Some u \<Rightarrow> is_canonical_ts u)) (rows_of es)"
    unfolding list_all_iff
  proof
    fix row assume "row \<in> set (rows_of es)"
    then obtain e r b where "asserted e = Some r" "row = mark b r" using rows_of_set by blast
    then show "(e_valid_from row = [] \<or> is_canonical_ts (e_valid_from row)) \<and>
      (case e_valid_until row of None \<Rightarrow> True | Some u \<Rightarrow> is_canonical_ts u)"
      using asserted_canonical [of e r] by (simp add: mark_def)
  qed
  then show ?thesis by (simp add: edges_materialize)
qed

text \<open>Validity windows mean time: a row asserted from second \<open>a\<close> to second \<open>b\<close>, written as
  the journal's clock writes them, is replayed at the cutoff of second \<open>t\<close> exactly when
  \<open>a \<le> t \<le> b\<close>, both ends included; and every text the clock writes is a canonical timestamp.\<close>

theorem validity_window_is_time:
  assumes "row \<in> set (rows_of es)" and "e_valid_from row = format_utc a"
    and "e_valid_until row = Some (format_utc b)"
    and "a < 253402300800" and "b < 253402300800" and "t < 253402300800"
  shows "(row \<in> set (edges (materialize secs es (Some (format_utc t)) False)) \<longleftrightarrow> a \<le> t \<and> t \<le> b) \<and>
    is_canonical_ts (format_utc t)"
proof -
  have le: "format_utc x \<le> format_utc y \<longleftrightarrow> x \<le> y"
    if "x < 253402300800" "y < 253402300800" for x y
    using format_utc_less [of x y] format_utc_less [of y x] that
    by (cases x y rule: linorder_cases) auto
  show ?thesis
    using assms le by (simp add: edges_materialize row_valid_def format_utc_canonical)
qed

definition demo_assert :: "nat \<Rightarrow> nat \<Rightarrow> json" where
  "demo_assert a b = JObj [(''observed_utc'', JStr (format_utc a)), (''op'', JStr ''edge.assert''),
     (''payload'', JObj [(''from'', JStr ''x''), (''to'', JStr ''y''), (''type'', JStr ''INFORMS''),
       (''valid_from'', JStr (format_utc a)), (''valid_until'', JStr (format_utc b))])]"

lemma demo_assert_rows:
  assumes "a < 253402300800" and "b < 253402300800"
  shows "rows_of [demo_assert a b] =
    [\<lparr>e_from = ''x'', e_edge = edge_of_str ''INFORMS'', e_to = ''y'', e_weight = None,
      e_valid_from = format_utc a, e_valid_until = Some (format_utc b), e_retracted = False,
      e_observed_utc = format_utc a, e_provenance = None\<rparr>]"
  using format_utc_canonical [OF assms(1)] format_utc_canonical [OF assms(2)]
  by (simp add: demo_assert_def asserted_def event_parts_def jget_str_def assert_row_def edge_ends_def
      or_else_def mark_def Let_def)

theorem validity_window_is_time_witness:
  "edges (materialize 0 [demo_assert 100 200] (Some (format_utc 200)) False) \<noteq> [] \<and>
   edges (materialize 0 [demo_assert 100 200] (Some (format_utc 201)) False) = []"
proof -
  obtain row where row: "rows_of [demo_assert 100 200] = [row]" "e_valid_from row = format_utc 100"
    "e_valid_until row = Some (format_utc 200)"
    using demo_assert_rows [of 100 200] by (simp del: rows_of.simps)
  have m: "row \<in> set (rows_of [demo_assert 100 200])" unfolding row(1) by simp
  have "row \<in> set (edges (materialize 0 [demo_assert 100 200] (Some (format_utc 200)) False))"
    using validity_window_is_time [OF m row(2,3), of 200 0] by simp
  moreover have "row \<notin> set (edges (materialize 0 [demo_assert 100 200] (Some (format_utc 201)) False))"
    using validity_window_is_time [OF m row(2,3), of 201 0] by simp
  ultimately show ?thesis unfolding edges_materialize row(1) by (simp split: if_splits)
qed

text \<open>C36. Replay is well typed: from events whose objects have unique keys, whatever their fields,
  it builds a graph that is well formed: one node for an id, each an object with unique keys
  that carries that id as its text, and every timestamp of a row empty or canonical, the
  observation time included; at every cutoff.\<close>

theorem replayed_graph_wf:
  assumes "list_all wf_json events"
  shows "graph_wf (materialize secs events as_of b)"
proof -
  let ?g = "fold apply_event events empty_graph"
  have ok: "omap_ok (nodes ?g)" by (rule nodes_fold_ok) (simp add: empty_graph_def)
  have "node_wf i n" if "(i, n) \<in> set (nodes ?g)" for i n
  proof -
    have "map_of (nodes ?g) i = Some n" using ok that by (simp add: omap_map_of_iff)
    then have "n = JObj (node_object i (history i events))"
      by (simp add: node_history split: if_splits)
    then show ?thesis by (simp add: node_wf_def node_object_ok node_object_id [OF assms])
  qed
  moreover have "row_wf row" if "row \<in> set (edges (materialize secs events as_of b))" for row
  proof -
    have "row \<in> set (rows_of events)" using that by (cases b) (auto simp: edges_materialize)
    then obtain e r c where "asserted e = Some r" "row = mark c r" using rows_of_set by blast
    then show ?thesis using asserted_canonical [of e r] by (simp add: row_wf_def mark_def)
  qed
  ultimately show ?thesis using ok by (auto simp: graph_wf_def edges_materialize list_all_iff)
qed

definition demo_upsert2 :: json where
  "demo_upsert2 = JObj [(''observed_utc'', JStr ''2''), (''op'', JStr ''node.upsert''),
     (''payload'', JObj [(''id'', JStr ''a''), (''label'', JStr ''x'')])]"

theorem replayed_graph_wf_witness:
  "graph_wf (materialize 0 [demo_upsert2, JNull] None False) \<and>
   map_of (nodes (materialize 0 [demo_upsert2, JNull] None False)) ''a'' \<noteq> None"
proof
  show "graph_wf (materialize 0 [demo_upsert2, JNull] None False)"
    by (rule replayed_graph_wf) (simp add: demo_upsert2_def omap_ok_def less_char_def)
  show "map_of (nodes (materialize 0 [demo_upsert2, JNull] None False)) ''a'' \<noteq> None"
    unfolding edges_materialize node_history
    by (simp add: demo_upsert2_def history_def upsert_of_def event_parts_def jget_str_def List.map_filter_def)
qed

end
