(* ===== verification/Requests.thy ===== *)
theory Requests
  imports Journal Materialize
begin

text \<open>
  The preflight of graph writes (\<open>crates/innen-core/src/graph/requests.rs\<close>): the provenance
  rule of a single node, the tolerant relate check, which opens and so repairs the journal, and
  the strict check, which only reads it.  Texts of third-party error messages are left out of
  the errors; their kind and position are kept.
\<close>

section \<open>Single nodes\<close>

datatype node_provenance_error = NodeMissingProvenance

definition check_node_provenance :: "node_type \<Rightarrow> string option \<Rightarrow> node_provenance_error + unit" where
  "check_node_provenance kind provenance =
     (if is_custom_node kind \<and> (case provenance of None \<Rightarrow> True | Some p \<Rightarrow> trim p = [])
      then Inl NodeMissingProvenance else Inr ())"

section \<open>Endpoints from the journal\<close>

definition event_value :: "journal_entry \<Rightarrow> json" where
  "event_value e = jobj [(''op'', JStr (entry_op e)), (''payload'', payload e),
     (''observed_utc'', JStr (observed_utc e))]"

definition node_kind :: "json \<Rightarrow> node_type" where
  "node_kind node = node_of_str (case jget_str node ''type'' of None \<Rightarrow> ''Custom'' | Some t \<Rightarrow> t)"

definition resolve_from :: "materialized \<Rightarrow> string \<Rightarrow> node_type option" where
  "resolve_from g src = map_option node_kind (map_of (nodes g) src)"

definition resolve_to :: "materialized \<Rightarrow> string \<Rightarrow> endpoint option" where
  "resolve_to g dst =
     (if is_uri_shape dst then Some (Uri dst)
      else map_option (\<lambda>node. Node (node_kind node)) (map_of (nodes g) dst))"

section \<open>The tolerant check\<close>

text \<open>What a missing endpoint still has to satisfy.\<close>

definition relate_fallback :: "edge_type \<Rightarrow> string \<Rightarrow> string option \<Rightarrow> adjacency_error + unit" where
  "relate_fallback edge dst provenance =
     (let to_is_uri = is_uri_shape dst in
      if is_custom_edge edge \<or> to_is_uri then
        (if to_is_uri \<and> \<not> (edge = LocatedAt \<or> edge = OriginatedAt \<or> is_custom_edge edge) then
           Inl (IllegalPair ''?'' (edge_name edge) dst)
         else if is_custom_edge edge \<and> (case provenance of None \<Rightarrow> True | Some p \<Rightarrow> trim p = []) then
           Inl MissingProvenance
         else Inr ())
      else Inr ())"

definition validate_relate_request ::
  "lib \<Rightarrow> string \<Rightarrow> nat \<Rightarrow> string \<Rightarrow> edge_type \<Rightarrow> string \<Rightarrow> string option \<Rightarrow> store \<Rightarrow>
   (adjacency_error + unit) \<times> store" where
  "validate_relate_request L qdir secs src edge dst provenance st =
     (let (opened, st') = journal_open L qdir secs st;
          graph = (case opened of
                     Inl _ \<Rightarrow> None
                   | Inr _ \<Rightarrow>
                      (case read_all L st' of
                         Inl _ \<Rightarrow> None
                       | Inr entries \<Rightarrow> Some (materialize secs (map event_value entries) None True)));
          from_ty = Option.bind graph (\<lambda>g. resolve_from g src);
          to_ep = Option.bind graph (\<lambda>g. resolve_to g dst)
      in (case (from_ty, to_ep) of
            (Some from_ty, Some to_ep) \<Rightarrow> validate_edge from_ty edge to_ep provenance
          | _ \<Rightarrow> relate_fallback edge dst provenance,
          st'))"

section \<open>The strict check\<close>

datatype relate_error =
    JournalRead io_error
  | InvalidJournal nat
  | MissingEndpoint string string
  | AdjacencyErr adjacency_error

text \<open>The events of the journal text, or the number of the first line that is no entry.\<close>

definition parse_line :: "lib \<Rightarrow> nat \<times> string \<Rightarrow> relate_error + json option" where
  "parse_line L = (\<lambda>(index, line).
     if trim line = [] then Inr None
     else case x_entry L line of
       None \<Rightarrow> Inl (InvalidJournal (index + 1))
     | Some e \<Rightarrow> Inr (Some (event_value e)))"

definition strict_events :: "lib \<Rightarrow> string \<Rightarrow> relate_error + json list" where
  "strict_events L content =
     bindE (mapE (parse_line L) (enumerate 0 (lines content))) (\<lambda>evs.
     Inr (List.map_filter (\<lambda>e. e) evs))"

text \<open>The raw journal text; an absent journal is the empty graph.\<close>

definition strict_content :: "store \<Rightarrow> relate_error + string" where
  "strict_content st =
     (case read_to_string (journal_file st) of
        Inl NotFound \<Rightarrow> Inr []
      | Inl e \<Rightarrow> Inl (JournalRead e)
      | Inr content \<Rightarrow> Inr content)"

definition validate_relate_request_strict ::
  "lib \<Rightarrow> nat \<Rightarrow> string \<Rightarrow> edge_type \<Rightarrow> string \<Rightarrow> string option \<Rightarrow> bool \<Rightarrow> store \<Rightarrow> relate_error + unit" where
  "validate_relate_request_strict L secs src edge dst provenance allow_dangling st =
     bindE (strict_content st) (\<lambda>content.
     bindE (strict_events L content) (\<lambda>events.
     (let graph = materialize secs events None True;
          from_ty = resolve_from graph src;
          to_ep = resolve_to graph dst
      in if from_ty = None \<and> \<not> allow_dangling then Inl (MissingEndpoint ''--from'' src)
         else if to_ep = None \<and> \<not> allow_dangling then Inl (MissingEndpoint ''--to'' dst)
         else case (from_ty, to_ep) of
           (Some f, Some t) \<Rightarrow> mapErr AdjacencyErr (validate_edge f edge t provenance)
         | _ \<Rightarrow>
            (if (case to_ep of Some (Uri u) \<Rightarrow> True | _ \<Rightarrow> False) \<and>
                \<not> (edge = LocatedAt \<or> edge = OriginatedAt \<or> is_custom_edge edge)
             then Inl (AdjacencyErr (IllegalPair ''?'' (edge_name edge) dst))
             else if ((case from_ty of None \<Rightarrow> False | Some f \<Rightarrow> is_custom_node f) \<or> is_custom_edge edge \<or>
                      (case to_ep of None \<Rightarrow> False | Some t \<Rightarrow> is_custom_end t)) \<and>
                     \<not> has_valid_provenance provenance
             then Inl (AdjacencyErr MissingProvenance)
             else Inr ()))))"

section \<open>Journals made of whole entries\<close>

definition journal_is :: "lib \<Rightarrow> journal_entry list \<Rightarrow> store \<Rightarrow> bool" where
  "journal_is L es st \<longleftrightarrow>
     list_all (reads_back L) es \<and> innen_dir st \<and>
     (if journal_file st = None then es = []
      else journal_file st = Some (unlines (map (stored_line L) es)))"

abbreviation graph_of :: "journal_entry list \<Rightarrow> materialized" where
  "graph_of es \<equiv> fold apply_event (map event_value es) empty_graph"

lemma lines_entries:
  "\<forall>e \<in> set es. reads_back L e \<Longrightarrow> lines (unlines (map (stored_line L) es)) = map (stored_line L) es"
  by (rule lines_unlines) (auto simp: reads_back_def)

lemma journal_is_read: "journal_is L es st \<Longrightarrow> read_all L st = Inr es"
proof (cases "journal_file st")
  case None
  then show "journal_is L es st \<Longrightarrow> read_all L st = Inr es"
    by (simp add: journal_is_def read_all_def read_to_string_def)
next
  case (Some c)
  then show "journal_is L es st \<Longrightarrow> read_all L st = Inr es"
    by (intro read_all_entries) (auto simp: journal_is_def list_all_iff)
qed

lemma journal_is_terminated: "journal_is L es st \<Longrightarrow> \<forall>c. journal_file st = Some c \<longrightarrow> terminated c"
  by (cases "es = []") (auto simp: journal_is_def terminated_def unlines_last split: if_splits)

lemma journal_is_append:
  assumes "journal_is L es st" and "journal_append L secs op pl st = (Inr i, st')"
    and "reads_back L (new_entry L secs op pl)"
  shows "journal_is L (es @ [new_entry L secs op pl]) st'"
  using assms append_Inr(4) [OF assms(2)]
  by (auto simp: journal_is_def append_bytes_def split: option.splits if_splits)

lemma journal_is_open:
  assumes "journal_is L es st"
  shows "journal_open L q secs st = (Inr (), st)"
proof (cases "journal_file st")
  case None
  then show ?thesis using assms by (simp add: open_absent journal_is_def)
next
  case (Some c)
  with assms have c: "c = unlines (map (stored_line L) es)" "\<forall>e \<in> set es. reads_back L e"
    by (auto simp: journal_is_def list_all_iff)
  then have "lines c = map (stored_line L) es" by (simp add: lines_entries)
  then have "bad_lines L c = []" using c(2) by (auto simp: bad_lines_def reads_back_def filter_empty_conv)
  moreover have "valid_utf8 c" using c by (simp add: valid_utf8_entries)
  ultimately show ?thesis using open_clean [OF Some] assms by (simp add: journal_is_def)
qed

lemma mapE_parse_lines:
  assumes "\<forall>e \<in> set es. reads_back L e"
  shows "mapE (parse_line L) (enumerate n (map (stored_line L) es)) =
    Inr (map (\<lambda>e. Some (event_value e)) es)"
  using assms
  by (induction es arbitrary: n) (auto simp: parse_line_def stored_line_trim reads_back_def)

lemma strict_events_entries:
  assumes "\<forall>e \<in> set es. reads_back L e"
  shows "strict_events L (unlines (map (stored_line L) es)) = Inr (map event_value es)"
proof -
  note lines_entries [OF assms]
  moreover have "List.map_filter (\<lambda>e. e) (map (\<lambda>e. Some (event_value e)) es) = map event_value es"
    by (induction es) (simp_all add: List.map_filter_def)
  ultimately show ?thesis using mapE_parse_lines [OF assms] by (simp add: strict_events_def)
qed

text \<open>The strict check on such a journal.\<close>

definition strict_decision ::
  "materialized \<Rightarrow> string \<Rightarrow> edge_type \<Rightarrow> string \<Rightarrow> string option \<Rightarrow> relate_error + unit" where
  "strict_decision g src edge dst provenance =
     (case (resolve_from g src, resolve_to g dst) of
        (None, _) \<Rightarrow> Inl (MissingEndpoint ''--from'' src)
      | (Some _, None) \<Rightarrow> Inl (MissingEndpoint ''--to'' dst)
      | (Some f, Some t) \<Rightarrow> mapErr AdjacencyErr (validate_edge f edge t provenance))"

lemma graph_of_materialize: "materialize secs (map event_value es) as_of True = graph_of es"
  by (simp add: materialize_def)

lemma strict_content_entries:
  assumes "journal_is L es st"
  shows "strict_content st = Inr (unlines (map (stored_line L) es))"
  using assms valid_utf8_entries [of es L]
  by (cases "journal_file st") (auto simp: journal_is_def strict_content_def read_to_string_def list_all_iff)

lemma strict_on_entries:
  assumes "journal_is L es st"
  shows "validate_relate_request_strict L secs src edge dst p False st =
    strict_decision (graph_of es) src edge dst p"
proof -
  have rb: "\<forall>e \<in> set es. reads_back L e" using assms by (simp add: journal_is_def list_all_iff)
  show ?thesis
    by (auto simp: validate_relate_request_strict_def strict_decision_def
        strict_content_entries [OF assms] strict_events_entries [OF rb]
        graph_of_materialize Let_def split: option.splits)
qed

section \<open>Properties\<close>

lemma mapE_parse_iff:
  "mapE (parse_line L) (enumerate n ls) = Inr evs \<Longrightarrow>
     list_all (\<lambda>l. case x_entry L l of None \<Rightarrow> trim l = [] | Some _ \<Rightarrow> True) ls \<and>
     List.map_filter (\<lambda>e. e) evs = map event_value (entries_of L ls)"
proof (induction ls arbitrary: n evs)
  case (Cons l ls)
  then obtain ev evs' where ev: "parse_line L (n, l) = Inr ev" and evs: "evs = ev # evs'"
    and rest: "mapE (parse_line L) (enumerate (Suc n) ls) = Inr evs'" by auto
  note IH = Cons.IH [OF rest]
  show ?case
    using IH ev
    by (cases "x_entry L l")
      (auto simp: evs parse_line_def entries_of_def List.map_filter_def split: if_splits)
qed (simp add: entries_of_def List.map_filter_def)

lemma mapE_parse_complete:
  "list_all (\<lambda>l. case x_entry L l of None \<Rightarrow> trim l = [] | Some _ \<Rightarrow> True) ls \<Longrightarrow>
   \<exists>evs. mapE (parse_line L) (enumerate n ls) = Inr evs"
  by (induction ls arbitrary: n) (auto simp: parse_line_def split: option.splits)

lemma strict_events_iff:
  "strict_events L c = Inr evs \<longleftrightarrow>
     list_all (\<lambda>l. case x_entry L l of None \<Rightarrow> trim l = [] | Some _ \<Rightarrow> True) (lines c) \<and>
     evs = map event_value (entries_of L (lines c))"
  unfolding strict_events_def
  using mapE_parse_iff [of L 0 "lines c"] mapE_parse_complete [of L "lines c" 0] by auto

text \<open>The strict check accepts exactly the writes that keep the graph sound: the journal can be
  read, each of its non-blank lines is an entry, both endpoints exist in the replayed graph (a
  URI target needs no node), and the triple of their kinds is legal.\<close>

theorem strict_relate_accepts:
  "validate_relate_request_strict L secs src edge dst p False st = Inr () \<longleftrightarrow>
   (\<exists>c f t. strict_content st = Inr c \<and>
      list_all (\<lambda>l. case x_entry L l of None \<Rightarrow> trim l = [] | Some _ \<Rightarrow> True) (lines c) \<and>
      resolve_from (graph_of (entries_of L (lines c))) src = Some f \<and>
      resolve_to (graph_of (entries_of L (lines c))) dst = Some t \<and>
      validate_edge f edge t p = Inr ())"
proof (cases "strict_content st")
  case (Inr c)
  show ?thesis
  proof (cases "strict_events L c")
    case (Inl e)
    then show ?thesis
      using Inr strict_events_iff [of L c "map event_value (entries_of L (lines c))"]
      by (auto simp: validate_relate_request_strict_def)
  next
    case (Inr evs)
    then show ?thesis
      using \<open>strict_content st = Inr c\<close> strict_events_iff [of L c evs]
      by (auto simp: validate_relate_request_strict_def graph_of_materialize Let_def split: option.splits)
  qed
qed (simp add: validate_relate_request_strict_def)

text \<open>Dangling writes escape the URI rule: with dangling endpoints allowed and the source node
  missing, a custom edge to a URI is accepted, although \<open>validate\<close> refuses that edge to that
  URI from every kind of node.\<close>

theorem dangling_custom_edge_to_uri:
  assumes "strict_content st = Inr c" and "strict_events L c = Inr evs"
    and "resolve_from (materialize secs evs None True) src = None"
    and "is_uri_shape dst" and "is_custom_edge edge" and "has_valid_provenance p"
  shows "validate_relate_request_strict L secs src edge dst p True st = Inr () \<and>
    validate_edge f edge (Uri dst) p = Inl (illegal f edge (Uri dst))"
proof -
  have "edge \<noteq> LocatedAt" "edge \<noteq> OriginatedAt" using assms(5) by auto
  then show ?thesis
    using assms by (simp add: validate_relate_request_strict_def resolve_to_def validate_edge_def)
qed

theorem dangling_custom_edge_to_uri_witness:
  "validate_relate_request_strict demo_base 0 ''a'' (CustomEdge ''SEE'') ''/x'' (Some ''p'') True empty_store = Inr ()"
proof -
  have "has_valid_provenance (Some ''p'')" "is_uri_shape ''/x''"
    by (simp_all add: has_valid_provenance_def is_uri_shape_def text_eval)
  moreover have "strict_content empty_store = Inr []" "strict_events demo_base [] = Inr []"
    "resolve_from (materialize 0 [] None True) ''a'' = None"
    by (simp_all add: strict_content_def read_to_string_def empty_store_def strict_events_def
        List.map_filter_def resolve_from_def materialize_def empty_graph_def)
  ultimately show ?thesis
    using dangling_custom_edge_to_uri [of empty_store "[]" demo_base "[]" 0 "''a''" "''/x''"
        "CustomEdge ''SEE''" "Some ''p''" Task] by simp
qed

end
