(* ===== verification/Edge_Write.thy ===== *)
theory Edge_Write
  imports Requests
begin

text \<open>
  The choke point of edge writes (\<open>crates/innen-core/src/edge_write.rs\<close>): validate strictly
  against the raw journal, then open, then append one \<open>edge.assert\<close>.  The lemmas show what a
  write adds to the replayed graph and that a journal written through it has no dangling edge.
\<close>

datatype edge_write_error = RequestErr relate_error | JournalErr journal_error

record edge_assert =
  a_from :: string
  a_edge :: edge_type
  a_to :: string
  a_weight :: "32 word option"
  a_valid_from :: "string option"
  a_valid_until :: "string option"
  a_provenance :: "string option"
  a_allow_dangling :: bool

definition new_edge_assert :: "string \<Rightarrow> edge_type \<Rightarrow> string \<Rightarrow> edge_assert" where
  "new_edge_assert src edge dst =
     \<lparr>a_from = src, a_edge = edge, a_to = dst, a_weight = None, a_valid_from = None,
      a_valid_until = None, a_provenance = None, a_allow_dangling = False\<rparr>"

definition set_opt :: "string \<Rightarrow> json option \<Rightarrow> jobject \<Rightarrow> jobject" where
  "set_opt k v m = (case v of None \<Rightarrow> m | Some x \<Rightarrow> omap_insert k x m)"

definition edge_payload :: "edge_assert \<Rightarrow> jobject" where
  "edge_payload req =
     set_opt ''provenance'' (map_option JStr (a_provenance req))
     (set_opt ''valid_until'' (map_option JStr (a_valid_until req))
     (set_opt ''valid_from'' (map_option JStr (a_valid_from req))
     (set_opt ''weight'' (map_option json_of_f32 (a_weight req))
     (obj_of [(''from'', JStr (a_from req)), (''type'', JStr (edge_name (a_edge req))),
              (''to'', JStr (a_to req))]))))"

definition append_edge_assert ::
  "lib \<Rightarrow> string \<Rightarrow> nat \<Rightarrow> edge_assert \<Rightarrow> store \<Rightarrow> (edge_write_error + string) \<times> store" where
  "append_edge_assert L qdir secs req st =
     (case validate_relate_request_strict L secs (a_from req) (a_edge req) (a_to req)
             (a_provenance req) (a_allow_dangling req) st of
        Inl e \<Rightarrow> (Inl (RequestErr e), st)
      | Inr _ \<Rightarrow>
          (case journal_open L qdir secs st of
             (Inl e, st') \<Rightarrow> (Inl (JournalErr e), st')
           | (Inr _, st') \<Rightarrow>
               (case journal_append L secs ''edge.assert'' (JObj (edge_payload req)) st' of
                  (Inl e, st'') \<Rightarrow> (Inl (JournalErr e), st'')
                | (Inr i, st'') \<Rightarrow> (Inr i, st''))))"

section \<open>What a write adds\<close>

lemma edge_payload_fields:
  "map_of (edge_payload req) ''from'' = Some (JStr (a_from req))"
  "map_of (edge_payload req) ''to'' = Some (JStr (a_to req))"
  "map_of (edge_payload req) ''type'' = Some (JStr (edge_name (a_edge req)))"
  "map_of (edge_payload req) ''observed_utc'' = None"
  "map_of (edge_payload req) ''weight'' = map_option json_of_f32 (a_weight req)"
  "map_of (edge_payload req) ''valid_from'' = map_option JStr (a_valid_from req)"
  "map_of (edge_payload req) ''valid_until'' = map_option JStr (a_valid_until req)"
  "map_of (edge_payload req) ''provenance'' = map_option JStr (a_provenance req)"
  by (auto simp: edge_payload_def set_opt_def obj_of_map_of split: option.splits)

lemma edge_payload_valid: "validate ''edge.assert'' (JObj (edge_payload req)) = Inr ()"
  by (simp add: validate_iff acceptable_def required_fields_def jget_str_def edge_payload_fields)

lemma event_value_parts:
  assumes "payload e = JObj m"
  shows "event_parts (event_value e) = Some (entry_op e, m, Some (observed_utc e))"
  using assms by (simp add: event_parts_def event_value_def jget_str_def obj_of_map_of)

lemma bind_JStr [simp]: "Option.bind (map_option JStr x) as_str = x"
  by (cases x) auto

text \<open>The row a write stands for, when its timestamps are canonical.\<close>

definition written_row :: "nat \<Rightarrow> edge_assert \<Rightarrow> stored_edge" where
  "written_row secs req =
     \<lparr>e_from = a_from req, e_edge = edge_of_str (edge_name (a_edge req)), e_to = a_to req,
      e_weight = map_option f32_of_f64 (Option.bind (map_option json_of_f32 (a_weight req)) as_f64),
      e_valid_from = (case a_valid_from req of None \<Rightarrow> format_utc secs | Some t \<Rightarrow> t),
      e_valid_until = a_valid_until req, e_retracted = False, e_observed_utc = format_utc secs,
      e_provenance = a_provenance req\<rparr>"

definition canonical_window :: "edge_assert \<Rightarrow> bool" where
  "canonical_window req \<longleftrightarrow>
     (case a_valid_from req of None \<Rightarrow> True | Some t \<Rightarrow> t = [] \<or> is_canonical_ts t) \<and>
     (case a_valid_until req of None \<Rightarrow> True | Some t \<Rightarrow> is_canonical_ts t)"

abbreviation edge_entry :: "lib \<Rightarrow> nat \<Rightarrow> edge_assert \<Rightarrow> journal_entry" where
  "edge_entry L secs req \<equiv> new_entry L secs ''edge.assert'' (JObj (edge_payload req))"

lemma asserted_written:
  assumes "secs < 253402300800"
  shows "asserted (event_value (edge_entry L secs req)) =
    (if canonical_window req then Some (written_row secs req) else None)"
  using format_utc_canonical [OF assms]
  by (auto simp: asserted_def event_value_parts new_entry_def assert_row_def edge_ends_def
      edge_payload_fields written_row_def canonical_window_def or_else_def Let_def
      option.map_comp o_def split: option.splits)

lemma rows_of_append:
  "rows_of (xs @ ys) = map (\<lambda>row. mark (list_ex (retracts row) ys) row) (rows_of xs) @ rows_of ys"
  by (induction xs) (simp_all add: mark_mark disj_commute split: option.splits)

lemma rows_of_snoc_assert:
  assumes "\<And>row. \<not> retracts row e"
  shows "rows_of (xs @ [e]) = rows_of xs @ (case asserted e of None \<Rightarrow> [] | Some row \<Rightarrow> [row])"
  using assms by (simp add: rows_of_append mark_def split: option.splits)

lemma append_edge_Inr:
  assumes "append_edge_assert L q secs req st = (Inr i, st'')" and "journal_is L es st"
  shows "validate_relate_request_strict L secs (a_from req) (a_edge req) (a_to req)
      (a_provenance req) (a_allow_dangling req) st = Inr ()"
    and "journal_append L secs ''edge.assert'' (JObj (edge_payload req)) st = (Inr i, st'')"
  using assms journal_is_open [OF assms(2), of q secs]
  by (auto simp: append_edge_assert_def split: sum.splits prod.splits)

lemma append_edge_refused:
  "append_edge_assert L q secs req st = (Inl (RequestErr e), st') \<Longrightarrow> st' = st"
  by (auto simp: append_edge_assert_def split: sum.splits prod.splits)

section \<open>Reference integrity\<close>

text \<open>The steps that write a journal: upserts, retractions and configuration through the plain
  append, edges through the choke point without dangling endpoints, and opening.  Each written
  entry is one the library reads back.\<close>

inductive writes :: "lib \<Rightarrow> store \<Rightarrow> store \<Rightarrow> bool" for L where
  plain: "op \<noteq> ''edge.assert'' \<Longrightarrow> reads_back L (new_entry L secs op pl) \<Longrightarrow>
    journal_append L secs op pl st = (r, st') \<Longrightarrow> writes L st st'"
| edge: "\<not> a_allow_dangling req \<Longrightarrow> reads_back L (edge_entry L secs req) \<Longrightarrow>
    append_edge_assert L q secs req st = (r, st') \<Longrightarrow> writes L st st'"
| reopen: "journal_open L q secs st = (r, st') \<Longrightarrow> writes L st st'"

inductive reachable :: "lib \<Rightarrow> store \<Rightarrow> bool" for L where
  fresh: "journal_file st = None \<Longrightarrow> innen_dir st \<Longrightarrow> reachable L st"
| step: "reachable L st \<Longrightarrow> writes L st st' \<Longrightarrow> reachable L st'"

definition known :: "journal_entry list \<Rightarrow> string \<Rightarrow> bool" where
  "known es nid \<longleftrightarrow> history nid (map event_value es) \<noteq> []"

definition row_anchored :: "journal_entry list \<Rightarrow> stored_edge \<Rightarrow> bool" where
  "row_anchored es row \<longleftrightarrow> known es (e_from row) \<and> (is_uri_shape (e_to row) \<or> known es (e_to row))"

definition anchored :: "lib \<Rightarrow> journal_entry list \<Rightarrow> bool" where
  "anchored L es \<longleftrightarrow> list_all (row_anchored es) (rows_of (map event_value es))"

lemma known_mono: "known es nid \<Longrightarrow> known (es @ fs) nid"
  by (auto simp: known_def history_def List.map_filter_def)

lemma known_iff: "known es nid \<longleftrightarrow> map_of (nodes (graph_of es)) nid \<noteq> None"
  by (simp add: known_def node_history)

lemma row_anchored_mono: "row_anchored es row \<Longrightarrow> row_anchored (es @ fs) row"
  by (auto simp: row_anchored_def intro: known_mono)

lemma row_anchored_mark [simp]: "row_anchored es (mark b row) = row_anchored es row"
  by (simp add: row_anchored_def mark_def)

lemma anchored_snoc:
  assumes "anchored L es"
    and "\<And>row. asserted (event_value e) = Some row \<Longrightarrow> row_anchored es row"
  shows "anchored L (es @ [e])"
  using assms
  by (auto simp: anchored_def rows_of_append list_all_iff intro: row_anchored_mono
      split: option.splits)

lemma asserted_other: "entry_op e \<noteq> ''edge.assert'' \<Longrightarrow> asserted (event_value e) = None"
  by (auto simp: asserted_def event_parts_def event_value_def jget_str_def obj_of_map_of
      split: option.splits)

lemma strict_known:
  assumes "strict_decision (graph_of es) src edge dst p = Inr ()"
  shows "known es src \<and> (is_uri_shape dst \<or> known es dst)"
  using assms
  by (auto simp: strict_decision_def resolve_from_def resolve_to_def known_iff
      split: option.splits if_splits)

lemma writes_invariant:
  assumes "writes L st st'" and "journal_is L es st" and "anchored L es"
  shows "\<exists>es'. journal_is L es' st' \<and> anchored L es'"
  using assms(1)
proof cases
  case (plain op secs pl r)
  show ?thesis
  proof (cases r)
    case (Inl e)
    then have "st' = st" using plain(3) append_Inl by blast
    then show ?thesis using assms by blast
  next
    case (Inr i)
    note a = plain(3) [unfolded Inr]
    have "anchored L (es @ [new_entry L secs op pl])"
      using assms(3) plain(1) by (intro anchored_snoc) (simp_all add: asserted_other new_entry_def)
    then show ?thesis using journal_is_append [OF assms(2) a plain(2)] by blast
  qed
next
  case (edge req secs q r)
  show ?thesis
  proof (cases r)
    case (Inl e)
    have "st' = st"
    proof (cases e)
      case (RequestErr x)
      then show ?thesis using edge(3) Inl append_edge_refused by blast
    next
      case (JournalErr x)
      then show ?thesis
        using edge(3) Inl journal_is_open [OF assms(2), of q secs] append_Inl
        by (fastforce simp: append_edge_assert_def split: sum.splits prod.splits)
    qed
    then show ?thesis using assms by blast
  next
    case (Inr i)
    note s = append_edge_Inr [OF edge(3) [unfolded Inr] assms(2)]
    have "known es (a_from req) \<and> (is_uri_shape (a_to req) \<or> known es (a_to req))"
      using s(1) edge(1) strict_known by (simp add: strict_on_entries [OF assms(2)])
    then have "row_anchored es row" if "asserted (event_value (edge_entry L secs req)) = Some row" for row
      using that
      by (auto simp: row_anchored_def asserted_def event_value_parts new_entry_def assert_row_def
          edge_ends_def edge_payload_fields Let_def split: option.splits if_splits)
    then have "anchored L (es @ [edge_entry L secs req])" by (rule anchored_snoc [OF assms(3)])
    then show ?thesis using journal_is_append [OF assms(2) s(2) edge(2)] by blast
  qed
next
  case (reopen q secs r)
  then have "st' = st" using journal_is_open [OF assms(2), of q secs] by simp
  then show ?thesis using assms by blast
qed

lemma reachable_invariant: "reachable L st \<Longrightarrow> \<exists>es. journal_is L es st \<and> anchored L es"
proof (induction rule: reachable.induct)
  case (fresh st)
  then show ?case by (intro exI [of _ "[]"]) (simp add: journal_is_def anchored_def)
next
  case (step st st')
  then show ?case using writes_invariant by blast
qed

section \<open>Properties\<close>

text \<open>A refused edge write changes nothing: when the strict check fails, for whatever reason,
  the directory is as it was; a corrupt journal is neither repaired nor quarantined.\<close>

theorem refused_edge_writes_nothing:
  assumes "append_edge_assert L q secs req st = (r, st')"
    and "validate_relate_request_strict L secs (a_from req) (a_edge req) (a_to req)
      (a_provenance req) (a_allow_dangling req) st = Inl e"
  shows "r = Inl (RequestErr e) \<and> st' = st"
  using assms by (simp add: append_edge_assert_def)

theorem refused_edge_writes_nothing_witness:
  "snd (append_edge_assert demo_base ''q'' 0 (new_edge_assert ''a'' BelongsTo ''b'')
     (empty_store\<lparr>journal_file := Some ''x''\<rparr>)) = empty_store\<lparr>journal_file := Some ''x''\<rparr>"
proof -
  let ?st = "empty_store\<lparr>journal_file := Some ''x''\<rparr>" and ?req = "new_edge_assert ''a'' BelongsTo ''b''"
  obtain r st' where o: "append_edge_assert demo_base ''q'' 0 ?req ?st = (r, st')"
    by (cases "append_edge_assert demo_base ''q'' 0 ?req ?st") auto
  have "strict_content ?st = Inr ''x''" "strict_events demo_base ''x'' = Inl (InvalidJournal 1)"
  proof -
    have "plain ''x''" by (simp add: byte_def)
    then have "lines ''x'' = [''x'']" "valid_utf8 ''x''" by (simp_all add: lines_tail plain_one_line plain_valid del: plain_simps)
    moreover have "trim ''x'' = ''x''" by code_simp
    ultimately show "strict_content ?st = Inr ''x''" "strict_events demo_base ''x'' = Inl (InvalidJournal 1)"
      by (simp_all add: strict_content_def read_to_string_def strict_events_def parse_line_def demo_base_def)
  qed
  then have "validate_relate_request_strict demo_base 0 (a_from ?req) (a_edge ?req) (a_to ?req)
      (a_provenance ?req) (a_allow_dangling ?req) ?st = Inl (InvalidJournal 1)"
    by (simp add: validate_relate_request_strict_def)
  from refused_edge_writes_nothing [OF o this] o show ?thesis by simp
qed

text \<open>C28. An accepted edge write adds one entry, whose id it returns, and to the replayed graph one
  row with the endpoints, kind, weight, validity window and provenance of the request: no node
  and no other row changes.  But the row is there only if the window of the request is
  canonical: a write with, say, an offset in its \<open>valid_from\<close> is acknowledged with an event id
  and then skipped by every replay.\<close>

theorem accepted_edge_is_replayed:
  assumes "append_edge_assert L q secs req st = (Inr i, st')" and "journal_is L es st"
    and "reads_back L (edge_entry L secs req)" and "secs < 253402300800"
  shows "read_all L st' = Inr (es @ [edge_entry L secs req]) \<and> i = entry_id (edge_entry L secs req) \<and>
    rows_of (map event_value (es @ [edge_entry L secs req])) =
      rows_of (map event_value es) @ (if canonical_window req then [written_row secs req] else []) \<and>
    nodes (graph_of (es @ [edge_entry L secs req])) = nodes (graph_of es)"
proof -
  let ?e = "edge_entry L secs req"
  note s = append_edge_Inr [OF assms(1,2)]
  have "read_all L st' = Inr (es @ [?e])"
    using journal_is_append [OF assms(2) s(2) assms(3)] by (rule journal_is_read)
  moreover have "i = entry_id ?e" using append_Inr(3) [OF s(2)] by (simp add: new_entry_def)
  moreover have parts: "event_parts (event_value ?e) =
      Some (''edge.assert'', edge_payload req, Some (format_utc secs))"
    by (simp add: event_value_parts new_entry_def)
  then have "\<not> retracts row (event_value ?e)" for row by (simp add: retracts_def)
  from rows_of_snoc_assert [OF this, of "map event_value es"]
  have "rows_of (map event_value (es @ [?e])) =
      rows_of (map event_value es) @ (if canonical_window req then [written_row secs req] else [])"
    by (simp add: asserted_written [OF assms(4)])
  moreover have "nodes (graph_of (es @ [?e])) = nodes (graph_of es)"
    by (simp add: apply_event_def parts split: option.splits)
  ultimately show ?thesis by blast
qed

text \<open>A journal of two nodes, and an edge between them.\<close>

definition demo_task :: journal_entry where
  "demo_task = new_entry demo_base 0 ''node.upsert'' (JObj [(''id'', JStr ''a''), (''type'', JStr ''Task'')])"

definition demo_project :: journal_entry where
  "demo_project = new_entry demo_base 0 ''node.upsert'' (JObj [(''id'', JStr ''bb''), (''type'', JStr ''Project'')])"

definition demo_edge :: edge_assert where
  "demo_edge = new_edge_assert ''a'' BelongsTo ''bb''"

definition demo_edge_lib :: lib where
  "demo_edge_lib = demo_lib [demo_task, demo_project, edge_entry demo_base 0 demo_edge]"

lemma demo_edge_payload:
  "edge_payload demo_edge = [(''from'', JStr ''a''), (''to'', JStr ''bb''), (''type'', JStr ''BELONGS_TO'')]"
  by (simp add: edge_payload_def demo_edge_def new_edge_assert_def set_opt_def obj_of_def less_char_def)

lemma demo_edge_reads_back:
  "reads_back demo_edge_lib demo_task" "reads_back demo_edge_lib demo_project"
  "reads_back demo_edge_lib (edge_entry demo_base 0 demo_edge)"
proof -
  let ?es = "[demo_task, demo_project, edge_entry demo_base 0 demo_edge]"
  have "list_all eplain ?es"
    by (simp add: demo_task_def demo_project_def demo_edge_payload byte_def)
  moreover have "distinct (map (\<lambda>e. length (stored_line demo_base e)) ?es)"
    by (simp add: demo_task_def demo_project_def demo_edge_payload demo_line_length join_with_def)
  ultimately show "reads_back demo_edge_lib demo_task" "reads_back demo_edge_lib demo_project"
    "reads_back demo_edge_lib (edge_entry demo_base 0 demo_edge)"
    unfolding demo_edge_lib_def by (auto intro: demo_reads_back_all)
qed

lemma demo_edge_strict:
  "strict_decision (graph_of [demo_task, demo_project]) ''a'' BelongsTo ''bb'' None = Inr ()"
proof -
  have n: "nodes (graph_of [demo_task, demo_project]) =
    [(''a'', JObj [(''id'', JStr ''a''), (''observed_utc'', JStr (format_utc 0)), (''type'', JStr ''Task'')]),
     (''bb'', JObj [(''id'', JStr ''bb''), (''observed_utc'', JStr (format_utc 0)), (''type'', JStr ''Project'')])]"
    by (simp add: demo_task_def demo_project_def new_entry_def apply_event_def event_value_parts
        upsert_node_def empty_graph_def merge_env_def merge_field_def obj_of_def less_char_def)
  have k: "node_of_str ''Task'' = Task" "node_of_str ''Project'' = Project"
    using node_of_str_name [of Task] node_of_str_name [of Project] by simp_all
  have "\<not> is_uri_shape ''bb''"
    by (simp add: is_uri_shape_def starts_with_def contains_str_def sublist_Cons_right)
  then show ?thesis
    unfolding strict_decision_def resolve_from_def resolve_to_def n
    by (simp add: node_kind_def jget_str_def k validate_edge_Inr custom_party_def in_table_def node_rows_def)
qed

lemma demo_edge_run:
  obtains st2 st3 i where "journal_is demo_edge_lib [demo_task, demo_project] st2"
    "reachable demo_edge_lib st2"
    "append_edge_assert demo_edge_lib ''q'' 0 demo_edge st2 = (Inr i, st3)"
proof -
  let ?L = "demo_edge_lib"
  have lib: "new_entry ?L 0 op pl = new_entry demo_base 0 op pl" for op pl
    by (simp add: demo_edge_lib_def)
  have v: "validate ''node.upsert'' (JObj [(''id'', JStr i), (''type'', JStr t)]) = Inr ()" for i t
    by (simp add: validate_iff acceptable_def required_fields_def jget_str_def)
  have j0: "journal_is ?L [] empty_store" "reachable ?L empty_store"
    by (simp_all add: journal_is_def empty_store_def fresh)
  obtain i1 st1 where a1: "journal_append ?L 0 ''node.upsert''
      (JObj [(''id'', JStr ''a''), (''type'', JStr ''Task'')]) empty_store = (Inr i1, st1)"
    using append_ok [OF v] by (simp add: empty_store_def)
  have j1: "journal_is ?L [demo_task] st1"
    using journal_is_append [OF j0(1) a1] demo_edge_reads_back(1) by (simp add: lib demo_task_def)
  have r1: "reachable ?L st1"
    using demo_edge_reads_back(1)
    by (intro step [OF j0(2)] plain [OF _ _ a1]) (simp_all add: lib demo_task_def)
  obtain i2 st2 where a2: "journal_append ?L 0 ''node.upsert''
      (JObj [(''id'', JStr ''bb''), (''type'', JStr ''Project'')]) st1 = (Inr i2, st2)"
    using append_ok [OF v] j1 by (simp add: journal_is_def)
  have j2: "journal_is ?L [demo_task, demo_project] st2"
    using journal_is_append [OF j1 a2] demo_edge_reads_back(2) by (simp add: lib demo_project_def)
  have r2: "reachable ?L st2"
    using demo_edge_reads_back(2)
    by (intro step [OF r1] plain [OF _ _ a2]) (simp_all add: lib demo_project_def)
  have "validate_relate_request_strict ?L 0 ''a'' BelongsTo ''bb'' None False st2 = Inr ()"
    using demo_edge_strict by (simp add: strict_on_entries [OF j2])
  moreover obtain i3 st3 where "journal_append ?L 0 ''edge.assert'' (JObj (edge_payload demo_edge)) st2 = (Inr i3, st3)"
    using append_ok [OF edge_payload_valid] j2 by (simp add: journal_is_def)
  ultimately have "append_edge_assert ?L ''q'' 0 demo_edge st2 = (Inr i3, st3)"
    by (simp add: append_edge_assert_def demo_edge_def new_edge_assert_def journal_is_open [OF j2])
  then show thesis using that j2 r2 by blast
qed

theorem accepted_edge_is_replayed_witness:
  "rows_of (map event_value [demo_task, demo_project, edge_entry demo_base 0 demo_edge]) =
   [written_row 0 demo_edge]"
proof -
  obtain st2 st3 i where r: "journal_is demo_edge_lib [demo_task, demo_project] st2"
    "append_edge_assert demo_edge_lib ''q'' 0 demo_edge st2 = (Inr i, st3)"
    using demo_edge_run by blast
  have "rows_of (map event_value [demo_task, demo_project]) = []"
    by (simp add: asserted_other demo_task_def demo_project_def new_entry_def)
  moreover have "canonical_window demo_edge"
    by (simp add: canonical_window_def demo_edge_def new_edge_assert_def)
  ultimately show ?thesis
    using accepted_edge_is_replayed [OF r(2,1)] demo_edge_reads_back(3)
    by (simp add: demo_edge_lib_def)
qed

text \<open>C1. No dangling edges: in every journal reached from an empty one by upserts, retractions and
  configuration, by edge writes through the choke point that do not ask for dangling
  endpoints, and by opening, every edge row of the replayed graph starts at a node of the
  graph and ends at a node of it or at a URI.\<close>

theorem no_dangling_edges:
  assumes "reachable L st" and "read_all L st = Inr es"
    and "row \<in> set (edges (materialize secs (map event_value es) None True))"
  shows "map_of (nodes (materialize secs (map event_value es) None True)) (e_from row) \<noteq> None \<and>
    (is_uri_shape (e_to row) \<or>
     map_of (nodes (materialize secs (map event_value es) None True)) (e_to row) \<noteq> None)"
proof -
  obtain es' where es': "journal_is L es' st" "anchored L es'"
    using reachable_invariant [OF assms(1)] by blast
  with assms(2) have "es' = es" by (simp add: journal_is_read)
  with es'(2) assms(3) have "row_anchored es row"
    by (simp add: anchored_def list_all_iff edges_materialize)
  then show ?thesis by (simp add: row_anchored_def known_iff graph_of_materialize)
qed

theorem no_dangling_edges_witness:
  "map_of (nodes (materialize 0 (map event_value
     [demo_task, demo_project, edge_entry demo_base 0 demo_edge]) None True)) ''a'' \<noteq> None"
proof -
  obtain st2 st3 i where r: "journal_is demo_edge_lib [demo_task, demo_project] st2" "reachable demo_edge_lib st2"
    "append_edge_assert demo_edge_lib ''q'' 0 demo_edge st2 = (Inr i, st3)"
    using demo_edge_run by blast
  have e: "edge_entry demo_edge_lib 0 demo_edge = edge_entry demo_base 0 demo_edge"
    by (simp add: demo_edge_lib_def)
  note rb = demo_edge_reads_back(3) [folded e]
  have st3: "reachable demo_edge_lib st3"
    using rb by (intro step [OF r(2)] edge [OF _ _ r(3)]) (simp_all add: demo_edge_def new_edge_assert_def)
  have read: "read_all demo_edge_lib st3 = Inr [demo_task, demo_project, edge_entry demo_base 0 demo_edge]"
    using journal_is_append [OF r(1) append_edge_Inr(2) [OF r(3,1)] rb]
    by (intro journal_is_read) (simp add: e)
  have "asserted (event_value (edge_entry demo_base 0 demo_edge)) = Some (written_row 0 demo_edge)"
    by (simp add: asserted_written canonical_window_def demo_edge_def new_edge_assert_def)
  then have "written_row 0 demo_edge \<in> set (edges (materialize 0 (map event_value
     [demo_task, demo_project, edge_entry demo_base 0 demo_edge]) None True))"
    by (simp add: edges_materialize mark_def)
  from no_dangling_edges [OF st3 read this] show ?thesis
    by (simp add: written_row_def demo_edge_def new_edge_assert_def)
qed

end
