(* ===== verification/Project_Ref.thy ===== *)
theory Project_Ref
  imports Materialize
begin

text \<open>
  Resolution of human project references (\<open>project_key\<close> and \<open>resolve_project_id\<close> of
  \<open>crates/innen-core/src/graph/materialize.rs\<close>): normalised keys, the rank of a project for a
  reference, and the choice among the best ranked.  The lemmas show that the choice is the
  unique project of the best rank, or an error.
\<close>

section \<open>Project references\<close>

definition project_key :: "string \<Rightarrow> string" where
  "project_key value =
     (let normalized = replace_char (CHR 0x5C) ''/'' (trim_end_char (CHR ''/'') (trim value));
          lower = to_ascii_lowercase normalized
      in trim_start_str ''./''
           (case split_once lower ''/workspace/'' of None \<Rightarrow> lower | Some (_, relative) \<Rightarrow> relative))"

definition strip_namespace :: "string \<Rightarrow> string" where
  "strip_namespace q =
     (case List.map_filter (strip_prefix q) [''project:'', ''workspace:'', ''p:''] of
        [] \<Rightarrow> q | r # _ \<Rightarrow> r)"

definition str_or_empty :: "json \<Rightarrow> string \<Rightarrow> string" where
  "str_or_empty node k = (case as_str (jidx node k) of None \<Rightarrow> [] | Some s \<Rightarrow> s)"

definition is_project :: "json \<Rightarrow> bool" where
  "is_project node =
     (case as_str (jidx node ''type'') of None \<Rightarrow> False | Some kind \<Rightarrow> eq_ignore_ascii_case kind ''project'')"

definition project_rank :: "string \<Rightarrow> string \<Rightarrow> json \<Rightarrow> nat option" where
  "project_rank query nid node =
     (let bare_query = strip_namespace query;
          id_key = project_key nid;
          bare_id = strip_namespace id_key;
          label = project_key (str_or_empty node ''label'');
          path = project_key (str_or_empty node ''path'')
      in if query = id_key then Some 0
         else if bare_query = bare_id \<or> (path \<noteq> [] \<and> bare_query = path) then Some 1
         else if label \<noteq> [] \<and> query = label then Some 2
         else if last (split_char (CHR ''/'') bare_id) = bare_query then Some 3
         else None)"

definition rank_node ::
  "string \<Rightarrow> string \<times> json \<Rightarrow> (nat \<times> string list) list \<Rightarrow> (nat \<times> string list) list" where
  "rank_node query = (\<lambda>(nid, node) ranked.
     if \<not> is_project node then ranked
     else case project_rank query nid node of
       None \<Rightarrow> ranked
     | Some rank \<Rightarrow> omap_upd rank [] (\<lambda>ids. ids @ [nid]) ranked)"

definition resolve_project_id :: "materialized \<Rightarrow> string \<Rightarrow> string + string" where
  "resolve_project_id graph input =
     (let query = project_key input;
          ranked = fold (rank_node query) (nodes graph) []
      in case ranked of
           [] \<Rightarrow> Inl (''unknown project: '' @ input)
         | (_, ids) # _ \<Rightarrow>
             (let candidates = remdups_adj (sort ids)
              in if length candidates \<noteq> 1 then
                   Inl (''ambiguous project: '' @ input @ ''; candidates: '' @ join_with '', '' candidates)
                 else Inr (hd candidates)))"

section \<open>Resolving project references\<close>

text \<open>The projects of a given rank for a reference.\<close>

definition ranked_at :: "materialized \<Rightarrow> string \<Rightarrow> nat \<Rightarrow> string set" where
  "ranked_at g q r =
     {nid. \<exists>node. (nid, node) \<in> set (nodes g) \<and> is_project node \<and>
        project_rank (project_key q) nid node = Some r}"

definition ids_at :: "(nat \<times> string list) list \<Rightarrow> nat \<Rightarrow> string set" where
  "ids_at ranked r = set (case map_of ranked r of None \<Rightarrow> [] | Some ids \<Rightarrow> ids)"

definition ranks_ok :: "(nat \<times> string list) list \<Rightarrow> bool" where
  "ranks_ok ranked \<longleftrightarrow> omap_ok ranked \<and> (\<forall>r ids. map_of ranked r = Some ids \<longrightarrow> ids \<noteq> [])"

lemma rank_node_ok: "ranks_ok acc \<Longrightarrow> ranks_ok (rank_node q x acc)"
  by (auto simp: ranks_ok_def rank_node_def split: prod.splits option.splits if_splits)

lemma rank_node_ids:
  "ids_at (rank_node q (i, n) acc) r =
     ids_at acc r \<union> {nid. nid = i \<and> is_project n \<and> project_rank q i n = Some r}"
  by (auto simp: ids_at_def rank_node_def split: option.splits)

lemma rank_fold:
  assumes "ranks_ok acc"
  shows "ranks_ok (fold (rank_node q) nds acc) \<and>
    ids_at (fold (rank_node q) nds acc) r = ids_at acc r \<union>
      {nid. \<exists>node. (nid, node) \<in> set nds \<and> is_project node \<and> project_rank q nid node = Some r}"
  using assms
proof (induction nds arbitrary: acc)
  case (Cons x nds)
  then show ?case
    using Cons.IH [OF rank_node_ok [OF Cons.prems, of q x]] rank_node_ids [of q "fst x" "snd x" acc r]
    by (cases x) auto
qed simp

lemma ranked_fold:
  defines "m g q \<equiv> fold (rank_node (project_key q)) (nodes g) []"
  shows "omap_ok (m g q)" and "map_of (m g q) r = Some ids \<Longrightarrow> set ids = ranked_at g q r \<and> ids \<noteq> []"
    and "map_of (m g q) r = None \<Longrightarrow> ranked_at g q r = {}"
  using rank_fold [of "[]" "project_key q" "nodes g" r]
  by (auto simp: m_def ranks_ok_def ids_at_def ranked_at_def)

lemma remdups_sort_single:
  "length (remdups_adj (sort xs)) = 1 \<longleftrightarrow> (\<exists>x. set xs = {x})"
  "set xs = {x} \<Longrightarrow> hd (remdups_adj (sort xs)) = x" for xs :: "'a :: linorder list"
proof -
  have single: "remdups_adj (sort xs) = [x]" if "set xs = {x}" for x
  proof -
    have st: "set (sort xs) = {x}" using that by simp
    then have "sort xs \<noteq> []" by (metis empty_not_insert list.set(1))
    then have "length (sort xs) \<noteq> 0" by (simp only: length_0_conv not_False_eq_True)
    moreover have "sort xs = replicate (length (sort xs)) x"
      using st by (metis replicate_length_same singletonD)
    ultimately show ?thesis by (metis remdups_adj_replicate)
  qed
  then show "set xs = {x} \<Longrightarrow> hd (remdups_adj (sort xs)) = x" by simp
  have "\<exists>x. set xs = {x}" if "length (remdups_adj (sort xs)) = 1"
  proof -
    from that obtain x where "remdups_adj (sort xs) = [x]" by (auto simp: length_Suc_conv)
    then have "set (remdups_adj (sort xs)) = {x}" by simp
    then show ?thesis by (auto simp del: remdups_adj.simps)
  qed
  then show "length (remdups_adj (sort xs)) = 1 \<longleftrightarrow> (\<exists>x. set xs = {x})"
    using single by auto
qed

lemma omap_least:
  assumes "omap_ok ((k, v) # m)" and "map_of ((k, v) # m) k' = Some v'" and "k' \<noteq> k"
  shows "k < k'"
  using assms by (auto dest!: map_of_SomeD split: if_splits)

lemma resolve_iff:
  "resolve_project_id g q = Inr i \<longleftrightarrow>
   (\<exists>r. ranked_at g q r = {i} \<and> (\<forall>r' < r. ranked_at g q r' = {}))"
proof (cases "fold (rank_node (project_key q)) (nodes g) []")
  case Nil
  then have "ranked_at g q r = {}" for r using ranked_fold(3) [of q g r] by simp
  then show ?thesis using Nil by (simp add: resolve_project_id_def Let_def)
next
  case (Cons p m)
  obtain r ids where p: "p = (r, ids)" by (cases p)
  note f = ranked_fold [of q g, unfolded Cons p]
  have ids: "set ids = ranked_at g q r" and ne: "ranked_at g q r \<noteq> {}"
    using f(2) [of r ids] by auto
  have low: "ranked_at g q r' = {}" if "r' < r" for r'
  proof (cases "map_of ((r, ids) # m) r'")
    case (Some v)
    then have "r < r'" using omap_least [OF f(1)] that by auto
    with that show ?thesis by simp
  qed (rule f(3))
  have "resolve_project_id g q = Inr i \<longleftrightarrow> set ids = {i}"
    using remdups_sort_single(1) [of ids] remdups_sort_single(2) [of ids]
    by (auto simp: resolve_project_id_def Let_def Cons p)
  then show ?thesis
    using ids ne low by (metis linorder_neqE_nat insert_not_empty)
qed

text \<open>A project reference is never guessed: resolution succeeds with an id exactly when that
  id alone holds the best rank any project has for the reference (exact id, then id or path
  without namespace, then label, then last path segment).\<close>

theorem resolve_project_unique:
  "resolve_project_id g q = Inr i \<longleftrightarrow>
   (\<exists>r. ranked_at g q r = {i} \<and> (\<forall>r'\<in>{..<r}. ranked_at g q r' = {}))"
  by (simp add: resolve_iff Ball_def)

definition demo_projects :: materialized where
  "demo_projects = empty_graph\<lparr>nodes := [(''project:b'', JObj [(''label'', JStr ''a''), (''type'', JStr ''Project'')]),
     (''x:a'', JObj [(''label'', JStr ''B''), (''type'', JStr ''project'')])]\<rparr>"

lemma demo_keys:
  "project_key ''b'' = ''b''" "project_key ''a'' = ''a''" "project_key ''B'' = ''b''"
  "project_key ''project:b'' = ''project:b''" "project_key ''x:a'' = ''x:a''" "project_key [] = []"
  by (simp_all add: project_key_def text_eval)

lemma demo_fields:
  "strip_namespace ''b'' = ''b''" "strip_namespace ''project:b'' = ''b''" "strip_namespace ''x:a'' = ''x:a''"
  "str_or_empty (JObj [(''label'', JStr t), (''type'', JStr k)]) ''label'' = t"
  "str_or_empty (JObj [(''label'', JStr t), (''type'', JStr k)]) ''path'' = []"
  by (simp_all add: strip_namespace_def List.map_filter_def strip_prefix_def str_or_empty_def jidx_def)

lemma demo_ranks:
  "project_rank ''b'' ''project:b'' (JObj [(''label'', JStr ''a''), (''type'', JStr k)]) = Some 1"
  "project_rank ''b'' ''x:a'' (JObj [(''label'', JStr ''B''), (''type'', JStr k)]) = Some 2"
  by (simp_all add: project_rank_def demo_keys demo_fields)

lemma demo_is_project:
  "is_project (JObj [(''label'', JStr t), (''type'', JStr ''Project'')])"
  "is_project (JObj [(''label'', JStr t), (''type'', JStr ''project'')])"
  by (simp_all add: is_project_def jidx_def eq_ignore_ascii_case_def to_ascii_lowercase_def lower_char_def
      byte_def char_of_def bit_Suc bit_0)

theorem resolve_project_unique_witness:
  "\<exists>r. ranked_at demo_projects ''b'' r = {''project:b''}"
proof -
  have "resolve_project_id demo_projects ''b'' = Inr ''project:b''"
  proof -
    have "fold (rank_node ''b'') (nodes demo_projects) [] = [(1, [''project:b'']), (2, [''x:a''])]"
      by (simp add: demo_projects_def rank_node_def demo_ranks demo_is_project omap_upd_def)
    then show ?thesis unfolding resolve_project_id_def demo_keys Let_def by simp
  qed
  from iffD1 [OF resolve_project_unique this] show ?thesis
    by (elim exE conjE) (rule exI)
qed

end
