(* ===== verification/Markers.thy ===== *)
theory Markers
  imports Json_Model
begin

text \<open>
  What the reversible page codecs share
  (\<open>crates/innen-core/src/conversation/{compact,deltas,prefixes}.rs\<close>): collecting the keys of
  a value, choosing a marker key that no source object uses, replacing string leaves by marker
  objects, and restoring them.  The locale \<open>marker_codec\<close> is the contract of a codec: what
  stands under a marker decodes to the text it replaced; it gives that restoring inverts
  replacing.
\<close>

section \<open>Definitions\<close>

text \<open>\<open>BTreeSet<&str>::insert\<close> on the ascending list of elements is \<open>insort_insert\<close>.
  The keys of a value, as the inventories collect them.\<close>

fun collect_keys :: "json \<Rightarrow> string list \<Rightarrow> string list"
  and collect_keys_list :: "json list \<Rightarrow> string list \<Rightarrow> string list"
  and collect_keys_fields :: "jobject \<Rightarrow> string list \<Rightarrow> string list" where
  "collect_keys (JArr xs) ks = collect_keys_list xs ks"
| "collect_keys (JObj m) ks = collect_keys_fields m ks"
| "collect_keys v ks = ks"
| "collect_keys_list [] ks = ks"
| "collect_keys_list (x # xs) ks = collect_keys_list xs (collect_keys x ks)"
| "collect_keys_fields [] ks = ks"
| "collect_keys_fields (kv # m) ks =
     collect_keys_fields m (collect_keys (snd kv) (insort_insert (fst kv) ks))"

lemma collect_keys_set:
  "set (collect_keys v ks) = jkeys v \<union> set ks"
  "set (collect_keys_list xs ks) = jkeys_list xs \<union> set ks"
  "set (collect_keys_fields m ks) = jkeys_fields m \<union> set ks"
  by (induction v ks and xs ks and m ks rule: collect_keys_collect_keys_list_collect_keys_fields.induct)
    auto

text \<open>\<open>while keys.contains(key) { key.push('_') }\<close>.\<close>

function fresh_key :: "string list \<Rightarrow> string \<Rightarrow> string" where
  "fresh_key keys key = (if key \<in> set keys then fresh_key keys (key @ ''_'') else key)"
  by pat_completeness auto
termination
proof (relation "measure (\<lambda>(keys, key). card {k \<in> set keys. length key \<le> length k})", goal_cases)
  case (2 keys key)
  have "{k \<in> set keys. length (key @ ''_'') \<le> length k} \<subseteq> {k \<in> set keys. length key \<le> length k} - {key}"
    by auto
  moreover have "key \<in> {k \<in> set keys. length key \<le> length k}" using 2 by simp
  ultimately have "card {k \<in> set keys. length (key @ ''_'') \<le> length k} < card {k \<in> set keys. length key \<le> length k}"
    by (intro psubset_card_mono) auto
  then show ?case by simp
qed simp

declare fresh_key.simps [simp del]

lemma fresh_key_new: "fresh_key keys key \<notin> set keys"
  by (induction keys key rule: fresh_key.induct) (subst fresh_key.simps, simp)

text \<open>The string leaves of a value in document order.\<close>

fun strings_of :: "json \<Rightarrow> string list"
  and strings_of_list :: "json list \<Rightarrow> string list"
  and strings_of_fields :: "jobject \<Rightarrow> string list" where
  "strings_of (JStr s) = [s]"
| "strings_of (JArr xs) = strings_of_list xs"
| "strings_of (JObj m) = strings_of_fields m"
| "strings_of v = []"
| "strings_of_list [] = []"
| "strings_of_list (x # xs) = strings_of x @ strings_of_list xs"
| "strings_of_fields [] = []"
| "strings_of_fields (kv # m) = strings_of (snd kv) @ strings_of_fields m"

text \<open>Replacing string leaves by markers.\<close>

fun rewrite :: "(string \<Rightarrow> json option) \<Rightarrow> json \<Rightarrow> json"
  and rewrite_list :: "(string \<Rightarrow> json option) \<Rightarrow> json list \<Rightarrow> json list"
  and rewrite_fields :: "(string \<Rightarrow> json option) \<Rightarrow> jobject \<Rightarrow> jobject" where
  "rewrite f (JStr s) = (case f s of None \<Rightarrow> JStr s | Some w \<Rightarrow> w)"
| "rewrite f (JArr xs) = JArr (rewrite_list f xs)"
| "rewrite f (JObj m) = JObj (rewrite_fields f m)"
| "rewrite f v = v"
| "rewrite_list f [] = []"
| "rewrite_list f (x # xs) = rewrite f x # rewrite_list f xs"
| "rewrite_fields f [] = []"
| "rewrite_fields f (kv # m) = (fst kv, rewrite f (snd kv)) # rewrite_fields f m"

text \<open>The marker objects \<open>{key: x}\<close> of a replacement table.\<close>

definition mark_with :: "string \<Rightarrow> ('a \<Rightarrow> json) \<Rightarrow> (string \<times> 'a) list \<Rightarrow> string \<Rightarrow> json option" where
  "mark_with key wire table s = map_option (\<lambda>x. JObj [(key, wire x)]) (map_of table s)"

text \<open>Restoring: an object that holds the marker key must hold nothing else.\<close>

fun restore :: "string \<Rightarrow> string \<Rightarrow> (json \<Rightarrow> string + json) \<Rightarrow> json \<Rightarrow> string + json"
  and restore_list :: "string \<Rightarrow> string \<Rightarrow> (json \<Rightarrow> string + json) \<Rightarrow> json list \<Rightarrow> string + json list"
  and restore_fields :: "string \<Rightarrow> string \<Rightarrow> (json \<Rightarrow> string + json) \<Rightarrow> jobject \<Rightarrow> string + jobject" where
  "restore key amb dec (JObj m) =
     (case map_of m key of
        Some x \<Rightarrow> if length m \<noteq> 1 then Inl amb else dec x
      | None \<Rightarrow> bindE (restore_fields key amb dec m) (\<lambda>m'. Inr (JObj m')))"
| "restore key amb dec (JArr xs) = bindE (restore_list key amb dec xs) (\<lambda>xs'. Inr (JArr xs'))"
| "restore key amb dec v = Inr v"
| "restore_list key amb dec [] = Inr []"
| "restore_list key amb dec (x # xs) =
     bindE (restore key amb dec x) (\<lambda>y. bindE (restore_list key amb dec xs) (\<lambda>ys. Inr (y # ys)))"
| "restore_fields key amb dec [] = Inr []"
| "restore_fields key amb dec (kv # m) =
     bindE (restore key amb dec (snd kv)) (\<lambda>y.
     bindE (restore_fields key amb dec m) (\<lambda>n. Inr ((fst kv, y) # n)))"

section \<open>The contract of a codec\<close>

locale marker_codec =
  fixes key :: string
    and amb :: string
    and dec :: "json \<Rightarrow> string + json"
    and repl :: "string \<Rightarrow> json option"
  assumes marker: "repl s = Some w \<Longrightarrow> \<exists>x. w = JObj [(key, x)] \<and> dec x = Inr (JStr s)"
begin

lemma rewrite_fields_key: "map_of m key = None \<Longrightarrow> map_of (rewrite_fields repl m) key = None"
  by (induction m) auto

lemma restore_rewrite:
  "key \<notin> jkeys v \<Longrightarrow> restore key amb dec (rewrite repl v) = Inr v"
  "key \<notin> jkeys_list xs \<Longrightarrow> restore_list key amb dec (rewrite_list repl xs) = Inr xs"
  "key \<notin> jkeys_fields m \<Longrightarrow> restore_fields key amb dec (rewrite_fields repl m) = Inr m"
proof -
  have leaf: "restore key amb dec (case repl s of None \<Rightarrow> JStr s | Some w \<Rightarrow> w) = Inr (JStr s)" for s
    by (cases "repl s") (auto dest: marker)
  show "key \<notin> jkeys v \<Longrightarrow> restore key amb dec (rewrite repl v) = Inr v"
    "key \<notin> jkeys_list xs \<Longrightarrow> restore_list key amb dec (rewrite_list repl xs) = Inr xs"
    "key \<notin> jkeys_fields m \<Longrightarrow> restore_fields key amb dec (rewrite_fields repl m) = Inr m"
  proof (induction v and xs and m rule: jkeys_jkeys_list_jkeys_fields.induct)
    case (2 m)
    then have "map_of m key = None" using jkeys_fields_fst [of m key] by (metis jkeys.simps(2))
    with 2 show ?case by (simp add: rewrite_fields_key)
  qed (auto simp: leaf prod_eq_iff)
qed

lemma restore_obj:
  "key \<notin> jkeys (JObj m) \<Longrightarrow> restore key amb dec (JObj (rewrite_fields repl m)) = Inr (JObj m)"
  using restore_rewrite(1) [of "JObj m"] by simp

end

text \<open>Restoring never grows a value, when what it puts in place of a marker is one node.\<close>

lemma restore_jnodes:
  assumes "\<And>x w. dec x = Inr w \<Longrightarrow> jnodes w \<le> Suc (jnodes x)"
  shows "restore key amb dec v = Inr w \<Longrightarrow> jnodes w \<le> jnodes v"
    and "restore_list key amb dec xs = Inr ys \<Longrightarrow> jnodes_list ys \<le> jnodes_list xs"
    and "restore_fields key amb dec m = Inr n \<Longrightarrow> jnodes_fields n \<le> jnodes_fields m"
proof (induction v and xs and m arbitrary: w and ys and n rule: jkeys_jkeys_list_jkeys_fields.induct)
  case (2 m)
  show ?case
  proof (cases "map_of m key")
    case None
    with 2 show ?thesis by auto
  next
    case (Some x)
    with "2.prems" have "length m = 1" "dec x = Inr w" by (auto split: if_splits)
    moreover from this Some have "m = [(key, x)]" by (auto simp: length_Suc_conv split: if_splits)
    ultimately show ?thesis using assms [of x w] by simp
  qed
qed (auto, fastforce?)

end
