(* ===== verification/Fragments.thy ===== *)
theory Fragments
  imports Markers
begin

text \<open>
  The fragment table of the wire format \<open>innen.edges.v1\<close>
  (\<open>crates/innen-core/src/conversation/{deltas,prefixes}.rs\<close>): texts are cut into parts, equal
  parts share one fragment, and a marker lists the fragments whose concatenation is the text.
  Both encoders write this format; \<open>decode_edges\<close> reads it.  The lemmas show that the table
  keeps every marker's text while it grows, so that the format decodes to what was encoded.
\<close>

section \<open>The table\<close>

type_synonym table = "string list \<times> (string \<times> nat) list"

text \<open>\<open>indices.entry(part).or_insert_with(|| { fragments.push(part); fragments.len() - 1 })\<close>.\<close>

definition intern :: "string \<Rightarrow> table \<Rightarrow> nat \<times> table" where
  "intern part = (\<lambda>(frags, ids).
     (case map_of ids part of
        Some i \<Rightarrow> (i, frags, ids)
      | None \<Rightarrow> (length frags, frags @ [part], omap_insert part (length frags) ids)))"

fun intern_all :: "string list \<Rightarrow> table \<Rightarrow> nat list \<times> table" where
  "intern_all [] t = ([], t)"
| "intern_all (p # ps) t =
     (let (i, t') = intern p t; (is, t'') = intern_all ps t' in (i # is, t''))"

definition table_ok :: "table \<Rightarrow> bool" where
  "table_ok = (\<lambda>(frags, ids). \<forall>p i. map_of ids p = Some i \<longrightarrow> i < length frags \<and> frags ! i = p)"

text \<open>The text of a join, and the table extended without moving a fragment.\<close>

definition joins_to :: "string list \<Rightarrow> nat list \<Rightarrow> string \<Rightarrow> bool" where
  "joins_to frags is s \<longleftrightarrow> (\<forall>i \<in> set is. i < length frags) \<and> concat (map (\<lambda>i. frags ! i) is) = s"

lemma table_ok_Nil [simp]: "table_ok ([], [])"
  by (simp add: table_ok_def)

lemma intern_ok:
  assumes "table_ok (frags, ids)" and "intern p (frags, ids) = (i, frags', ids')"
  shows "table_ok (frags', ids') \<and> i < length frags' \<and> frags' ! i = p \<and> (\<exists>ext. frags' = frags @ ext)"
proof (cases "map_of ids p")
  case None
  then have e: "i = length frags" "frags' = frags @ [p]" "ids' = omap_insert p (length frags) ids"
    using assms(2) by (auto simp: intern_def)
  have "table_ok (frags', ids')"
    using assms(1) by (auto simp: table_ok_def e nth_append less_Suc_eq split: if_splits)
  then show ?thesis by (simp add: e)
next
  case (Some j)
  then show ?thesis using assms by (auto simp: intern_def table_ok_def)
qed

lemma joins_to_append: "joins_to frags is s \<Longrightarrow> joins_to (frags @ ext) is s"
  by (auto simp: joins_to_def nth_append intro!: arg_cong [where f = concat] map_cong)

lemma joins_to_Cons:
  "i < length frags \<Longrightarrow> joins_to frags is s \<Longrightarrow> joins_to frags (i # is) (frags ! i @ s)"
  by (auto simp: joins_to_def)

lemma intern_all_ok:
  assumes "table_ok t" and "intern_all ps t = (is, t')"
  shows "table_ok t' \<and> joins_to (fst t') is (concat ps) \<and> (\<exists>ext. fst t' = fst t @ ext)"
  using assms
proof (induction ps arbitrary: t "is" t')
  case Nil
  then show ?case by (auto simp: joins_to_def)
next
  case (Cons p ps)
  obtain i t1 where i: "intern p t = (i, t1)" by (cases "intern p t")
  obtain js t2 where js: "intern_all ps t1 = (js, t2)" by (cases "intern_all ps t1")
  have e: "is = i # js" "t' = t2" using Cons.prems(2) i js by auto
  obtain ext where one: "table_ok t1" "i < length (fst t1)" "fst t1 ! i = p" "fst t1 = fst t @ ext"
    using intern_ok [of "fst t" "snd t" p i "fst t1" "snd t1"] Cons.prems(1) i by auto
  obtain ext' where rest: "table_ok t2" "joins_to (fst t2) js (concat ps)" "fst t2 = fst t1 @ ext'"
    using Cons.IH [OF one(1) js] by blast
  have "i < length (fst t2)" "fst t2 ! i = p" using one(2,3) rest(3) by (simp_all add: nth_append)
  with joins_to_Cons [OF this(1) rest(2)] show ?case using one(4) rest by (simp add: e)
qed

text \<open>Replacements whose joins are the texts they replace.\<close>

definition repl_ok :: "string list \<Rightarrow> (string \<times> nat list) list \<Rightarrow> bool" where
  "repl_ok frags repl \<longleftrightarrow> (\<forall>s is. map_of repl s = Some is \<longrightarrow> joins_to frags is s)"

lemma repl_ok_Nil [simp]: "repl_ok frags []"
  by (simp add: repl_ok_def)

lemma repl_ok_append: "repl_ok frags repl \<Longrightarrow> repl_ok (frags @ ext) repl"
  by (auto simp: repl_ok_def intro: joins_to_append)

lemma repl_ok_insert: "repl_ok frags repl \<Longrightarrow> joins_to frags is s \<Longrightarrow> repl_ok frags (omap_insert s is repl)"
  by (auto simp: repl_ok_def)

text \<open>One text cut into parts, interned and entered: the step both encoders repeat.\<close>

definition add_join ::
  "string \<Rightarrow> string list \<Rightarrow> table \<times> (string \<times> nat list) list \<Rightarrow> table \<times> (string \<times> nat list) list" where
  "add_join text parts = (\<lambda>(t, repl).
     (let (is, t') = intern_all parts t in (t', omap_insert text is repl)))"

definition joins_ok :: "table \<times> (string \<times> nat list) list \<Rightarrow> bool" where
  "joins_ok = (\<lambda>(t, repl). table_ok t \<and> repl_ok (fst t) repl)"

lemma joins_ok_Nil [simp]: "joins_ok (([], []), [])"
  by (simp add: joins_ok_def)

lemma add_join_ok:
  assumes "joins_ok st" and "concat parts = text"
  shows "joins_ok (add_join text parts st)"
proof -
  obtain t repl where st: "st = (t, repl)" by (cases st)
  obtain js t' where a: "intern_all parts t = (js, t')" by (cases "intern_all parts t")
  obtain ext where t': "table_ok t'" "joins_to (fst t') js text" "fst t' = fst t @ ext"
    using intern_all_ok [OF _ a] assms by (auto simp: joins_ok_def st)
  moreover have "repl_ok (fst t') repl"
    using assms(1) t'(3) by (simp add: joins_ok_def st repl_ok_append)
  ultimately show ?thesis by (simp add: add_join_def st a joins_ok_def repl_ok_insert)
qed

section \<open>The wire format\<close>

definition wire_join :: "nat list \<Rightarrow> json" where
  "wire_join is = JArr (map jnat is)"

definition edges_packet :: "string \<Rightarrow> string list \<Rightarrow> json \<Rightarrow> json" where
  "edges_packet key frags page =
     jobj [(''encoding'', JStr ''innen.edges.v1''), (''join_key'', JStr key),
           (''fragments'', JArr (map JStr frags)), (''page'', page)]"

definition fragment_at :: "json list \<Rightarrow> json \<Rightarrow> string + string" where
  "fragment_at frags index =
     bindE (ok_or ''invalid fragment index'' (as_u64 index)) (\<lambda>i.
     ok_or ''missing fragment'' (if i < length frags then as_str (frags ! i) else None))"

definition decode_join :: "json list \<Rightarrow> json \<Rightarrow> string + json" where
  "decode_join frags x =
     bindE (ok_or ''invalid join'' (as_array x)) (\<lambda>parts.
     bindE (mapE (fragment_at frags) parts) (\<lambda>ts. Inr (JStr (concat ts))))"

definition decode_edges :: "json \<Rightarrow> string + json" where
  "decode_edges value =
     (if jidx value ''encoding'' \<noteq> JStr ''innen.edges.v1'' then Inr value
      else
        bindE (ok_or ''missing join key'' (as_str (jidx value ''join_key''))) (\<lambda>key.
        bindE (ok_or ''missing fragments'' (as_array (jidx value ''fragments''))) (\<lambda>frags.
        if list_ex (\<lambda>f. \<not> is_string f) frags then Inl ''nonliteral fragment''
        else
          bindE (ok_or ''missing page''
            (case jget value ''page'' of Some p \<Rightarrow> if is_object p then Some p else None | None \<Rightarrow> None)) (\<lambda>page.
          restore key ''ambiguous join marker'' (decode_join frags) page))))"

lemma fragment_at_jnat: "i < length frags \<Longrightarrow> fragment_at (map JStr frags) (jnat i) = Inr (frags ! i)"
  by (simp add: fragment_at_def)

lemma decode_wire_join:
  assumes "joins_to frags is s"
  shows "decode_join (map JStr frags) (wire_join is) = Inr (JStr s)"
proof -
  have "mapE (fragment_at (map JStr frags)) (map jnat is) = Inr (map (\<lambda>i. frags ! i) is)"
    if "\<forall>i \<in> set is. i < length frags"
    using that by (induction "is") (auto simp: fragment_at_jnat)
  then show ?thesis using assms by (simp add: decode_join_def wire_join_def joins_to_def)
qed

text \<open>A table and replacements that fit are a codec for every key; those that do not fit replace
  nothing.\<close>

interpretation join_codec: marker_codec key "''ambiguous join marker''" "decode_join (map JStr frags)"
    "\<lambda>s. if repl_ok frags repl then mark_with key wire_join repl s else None"
  for key frags repl
  by unfold_locales (auto simp: mark_with_def repl_ok_def decode_wire_join split: if_splits)

lemma edges_packet_fields:
  "jidx (edges_packet key frags page) ''encoding'' = JStr ''innen.edges.v1''"
  "jidx (edges_packet key frags page) ''join_key'' = JStr key"
  "jidx (edges_packet key frags page) ''fragments'' = JArr (map JStr frags)"
  "jget (edges_packet key frags page) ''page'' = Some page"
  by (simp_all add: edges_packet_def jidx_def obj_of_map_of)

lemma decode_edges_packet:
  assumes "repl_ok frags repl" and "key \<notin> jkeys (JObj m)"
  shows "decode_edges (edges_packet key frags (rewrite (mark_with key wire_join repl) (JObj m))) =
    Inr (JObj m)"
proof -
  have "restore key ''ambiguous join marker'' (decode_join (map JStr frags))
      (JObj (rewrite_fields (mark_with key wire_join repl) m)) = Inr (JObj m)"
    using join_codec.restore_obj [of key m frags repl, simplified if_P [OF assms(1)], OF assms(2)] .
  then show ?thesis by (simp add: decode_edges_def edges_packet_fields list_ex_iff)
qed

text \<open>Decoding does not grow a value, so the decoders can recurse on what it returns.\<close>

lemma decode_join_jnodes: "decode_join frags x = Inr w \<Longrightarrow> jnodes w \<le> Suc (jnodes x)"
  by (auto simp: decode_join_def)

lemma decode_edges_jnodes:
  assumes "decode_edges value = Inr w" and "jidx value ''encoding'' = JStr ''innen.edges.v1''"
  shows "jnodes w < jnodes value"
proof -
  obtain page key frags where p: "jget value ''page'' = Some page"
      "restore key ''ambiguous join marker'' (decode_join frags) page = Inr w"
    using assms by (auto simp: decode_edges_def split: if_splits option.splits)
  have "jnodes w \<le> jnodes page"
    by (rule restore_jnodes(1) [OF _ p(2)]) (rule decode_join_jnodes)
  with jget_jnodes [OF p(1)] show ?thesis by simp
qed

end
