(* ===== verification/Prefixes.thy ===== *)
theory Prefixes
  imports Fragments "HOL-Library.Product_Lexorder"
begin

text \<open>
  Factoring repeated line prefixes inside strings
  (\<open>crates/innen-core/src/conversation/prefixes.rs\<close>): candidate prefixes are whole lines that
  repeat and common prefixes of neighbouring lines, ranked by what they save; each line is
  given at most one of them; each text is cut at its prefixes.  The ranking only decides the
  size of the result: whatever it assigns is a prefix of its line, so the parts of a text
  always join to the text.
\<close>

section \<open>Common beginnings\<close>

fun common_len :: "string \<Rightarrow> string \<Rightarrow> nat" where
  "common_len (a # s) (b # t) = (if a = b then Suc (common_len s t) else 0)"
| "common_len s t = 0"

text \<open>\<open>while !ok(n) { n -= 1 }\<close>, for a condition that holds at 0.\<close>

fun back_to :: "(nat \<Rightarrow> bool) \<Rightarrow> nat \<Rightarrow> nat" where
  "back_to ok 0 = 0"
| "back_to ok (Suc n) = (if ok (Suc n) then Suc n else back_to ok n)"

definition common_prefix :: "string \<Rightarrow> string \<Rightarrow> nat" where
  "common_prefix a b = back_to (\<lambda>n. is_char_boundary a n \<and> is_char_boundary b n) (common_len a b)"

lemma common_len_le: "common_len a b \<le> length a" "common_len a b \<le> length b"
  by (induction a b rule: common_len.induct) auto

lemma back_to_le: "back_to ok n \<le> n"
  by (induction n) auto

lemma back_to_ok: "ok 0 \<Longrightarrow> ok (back_to ok n)"
  by (induction n) auto

lemma take_common_len: "n \<le> common_len a b \<Longrightarrow> take n a = take n b"
  by (induction a b arbitrary: n rule: common_len.induct) (auto simp: take_Cons' split: if_splits)

lemma common_prefix_take: "take (common_prefix a b) a = take (common_prefix a b) b"
  unfolding common_prefix_def by (rule take_common_len) (rule back_to_le)

section \<open>Candidates and their assignment\<close>

definition line_counts :: "string list \<Rightarrow> (string \<times> nat) list" where
  "line_counts texts =
     fold (\<lambda>text. fold (\<lambda>line counts.
             if length line \<ge> 64 then omap_upd line 0 Suc counts else counts)
           (split_inclusive text)) texts []"

definition rule_chars :: "char list" where
  "rule_chars = [CHR '' '', CHR 0x09, CHR 0x0D, CHR 0x0A, CHR ''|'', CHR ''+'', CHR ''-'']"

definition whole_lines :: "(string \<times> nat) list \<Rightarrow> string list" where
  "whole_lines counts =
     fold (\<lambda>(line, count) cs.
        if count > 1 \<and> trim_matches_set rule_chars line \<noteq> [] then insort_insert line cs else cs)
       counts []"

fun pair_prefixes :: "string list \<Rightarrow> string list \<Rightarrow> string list" where
  "pair_prefixes (a # b # rest) cs =
     (let n = common_prefix a b; p = take n a in
      pair_prefixes (b # rest)
        (if n \<ge> 64 \<and> trim_matches_set rule_chars p \<noteq> [] then insort_insert p cs else cs))"
| "pair_prefixes _ cs = cs"

definition prefix_score :: "(string \<times> nat) list \<Rightarrow> string \<Rightarrow> nat" where
  "prefix_score counts p =
     (let count = sum_list (map snd (filter (\<lambda>(line, _). starts_with line p) counts)) in
      (count - 1) * length p - count * 12)"

definition ranked_prefixes :: "(string \<times> nat) list \<Rightarrow> (nat \<times> string) list" where
  "ranked_prefixes counts =
     (let candidates = pair_prefixes (map fst counts) (whole_lines counts) in
      rev (sort (map (\<lambda>p. (prefix_score counts p, p)) candidates)))"

definition count_of :: "(string \<times> nat) list \<Rightarrow> string \<Rightarrow> nat" where
  "count_of counts line = (case map_of counts line of None \<Rightarrow> 0 | Some n \<Rightarrow> n)"

definition assign_prefix ::
  "(string \<times> nat) list \<Rightarrow> nat \<times> string \<Rightarrow> (string \<times> string) list \<Rightarrow> (string \<times> string) list" where
  "assign_prefix counts = (\<lambda>(score, p) assigned.
     if score = 0 then assigned
     else
       (let matching = filter (\<lambda>line. map_of assigned line = None \<and> starts_with line p) (map fst counts) in
        if sum_list (map (count_of counts) matching) < 2 then assigned
        else fold (\<lambda>line. omap_insert line p) matching assigned))"

definition assigned_prefixes :: "string list \<Rightarrow> (string \<times> string) list" where
  "assigned_prefixes texts =
     (let counts = line_counts texts in fold (assign_prefix counts) (ranked_prefixes counts) [])"

section \<open>Cutting a text\<close>

fun cut_lines :: "(string \<times> string) list \<Rightarrow> string list \<Rightarrow> string list \<Rightarrow> string \<Rightarrow> bool \<Rightarrow> string list \<times> string \<times> bool" where
  "cut_lines assigned [] parts buffer changed = (parts, buffer, changed)"
| "cut_lines assigned (line # ls) parts buffer changed =
     (case map_of assigned line of
        Some p \<Rightarrow>
          cut_lines assigned ls
            ((if buffer = [] then parts else parts @ [buffer]) @ [p]) (drop (length p) line) True
      | None \<Rightarrow> cut_lines assigned ls parts (buffer @ line) changed)"

definition cut_text :: "(string \<times> string) list \<Rightarrow> string \<Rightarrow> string list option" where
  "cut_text assigned text =
     (let (parts, buffer, changed) = cut_lines assigned (split_inclusive text) [] [] False in
      if \<not> changed then None
      else Some (if buffer = [] then parts else parts @ [buffer]))"

definition prefix_joins :: "string list \<Rightarrow> table \<times> (string \<times> nat list) list" where
  "prefix_joins texts =
     (let assigned = assigned_prefixes texts;
          unique = fold insort_insert texts []
      in fold (\<lambda>text st. case cut_text assigned text of None \<Rightarrow> st | Some parts \<Rightarrow> add_join text parts st)
           unique (([], []), []))"

definition encode_prefixes :: "(json \<Rightarrow> string) \<Rightarrow> json \<Rightarrow> json option" where
  "encode_prefixes ser original =
     (let ((frags, _), repl) = prefix_joins (strings_of original) in
      if repl = [] then None
      else
        (let key = fresh_key (collect_keys original []) ''$join'';
             packed = edges_packet key frags (rewrite (mark_with key wire_join repl) original)
         in if length (ser packed) < length (ser original) then Some packed else None))"

section \<open>The parts join to the text\<close>

definition assigned_ok :: "(string \<times> string) list \<Rightarrow> bool" where
  "assigned_ok assigned \<longleftrightarrow> (\<forall>line p. map_of assigned line = Some p \<longrightarrow> prefix p line)"

lemma assigned_ok_Nil [simp]: "assigned_ok []"
  by (simp add: assigned_ok_def)

lemma assigned_ok_insert [intro]: "assigned_ok a \<Longrightarrow> prefix p l \<Longrightarrow> assigned_ok (omap_insert l p a)"
  by (simp add: assigned_ok_def)

lemma assign_prefix_ok: "assigned_ok assigned \<Longrightarrow> assigned_ok (assign_prefix counts sp assigned)"
proof -
  assume ok: "assigned_ok assigned"
  obtain score p where sp: "sp = (score, p)" by (cases sp)
  have "assigned_ok (fold (\<lambda>line. omap_insert line p) ls a)"
    if "assigned_ok a" "\<forall>l \<in> set ls. prefix p l" for ls a
    using that by (induction ls arbitrary: a) auto
  then show ?thesis using ok by (auto simp: sp assign_prefix_def Let_def starts_with_def)
qed

lemma assigned_prefixes_ok: "assigned_ok (assigned_prefixes texts)"
  unfolding assigned_prefixes_def Let_def
  by (rule fold_invariant [where Q = "\<lambda>_. True"]) (auto intro: assign_prefix_ok)

lemma cut_lines_concat:
  assumes "assigned_ok assigned" and "cut_lines assigned ls parts buffer ch = (parts', buffer', ch')"
  shows "concat parts' @ buffer' = concat parts @ buffer @ concat ls"
  using assms(2)
proof (induction ls arbitrary: parts buffer ch)
  case (Cons l ls)
  show ?case
  proof (cases "map_of assigned l")
    case None
    then show ?thesis using Cons.IH [of parts "buffer @ l" ch] Cons.prems by simp
  next
    case (Some p)
    then have "prefix p l" using assms(1) by (simp add: assigned_ok_def)
    then have "p @ drop (length p) l = l" by (auto simp: prefix_def)
    moreover have "concat parts' @ buffer' =
        concat ((if buffer = [] then parts else parts @ [buffer]) @ [p]) @ drop (length p) l @ concat ls"
      using Some Cons.prems by (intro Cons.IH) auto
    ultimately show ?thesis by (simp split: if_splits)
  qed
qed simp

lemma cut_text_concat:
  assumes "assigned_ok assigned" and "cut_text assigned text = Some parts"
  shows "concat parts = text"
proof -
  obtain ps b ch where c: "cut_lines assigned (split_inclusive text) [] [] False = (ps, b, ch)"
    by (cases "cut_lines assigned (split_inclusive text) [] [] False")
  from cut_lines_concat [OF assms(1) c] assms(2) show ?thesis
    by (auto simp: cut_text_def c split: if_splits)
qed

lemma prefix_joins_ok: "joins_ok (prefix_joins texts)"
  unfolding prefix_joins_def Let_def
proof (rule fold_invariant [where Q = "\<lambda>_. True"])
  fix tx st assume "joins_ok st"
  then show "joins_ok (case cut_text (assigned_prefixes texts) tx of
      None \<Rightarrow> st | Some parts \<Rightarrow> add_join tx parts st)"
    using cut_text_concat [OF assigned_prefixes_ok, of texts tx]
    by (auto intro: add_join_ok split: option.split)
qed auto

lemma decode_encode_prefixes:
  assumes "encode_prefixes ser (JObj m) = Some packed"
  shows "decode_edges packed = Inr (JObj m)" and "jidx packed ''encoding'' = JStr ''innen.edges.v1''"
    and "length (ser packed) < length (ser (JObj m))"
proof -
  obtain frags ids repl where j: "prefix_joins (strings_of (JObj m)) = ((frags, ids), repl)"
    by (cases "prefix_joins (strings_of (JObj m))") auto
  then have ok: "repl_ok frags repl"
    using prefix_joins_ok [of "strings_of (JObj m)"] by (simp add: joins_ok_def)
  define key where "key = fresh_key (collect_keys (JObj m) []) ''$join''"
  have new: "key \<notin> jkeys (JObj m)"
    using fresh_key_new [of "collect_keys (JObj m) []" "''$join''"]
    by (simp only: key_def collect_keys_set) simp
  have packed: "packed = edges_packet key frags (rewrite (mark_with key wire_join repl) (JObj m))"
    and short: "length (ser packed) < length (ser (JObj m))"
    using assms
    by (auto simp: encode_prefixes_def j Let_def key_def simp del: strings_of.simps collect_keys.simps
        rewrite.simps split: if_splits)
  show "decode_edges packed = Inr (JObj m)" unfolding packed by (rule decode_edges_packet [OF ok new])
  show "jidx packed ''encoding'' = JStr ''innen.edges.v1''" by (simp add: packed edges_packet_fields)
  show "length (ser packed) < length (ser (JObj m))" by (rule short)
qed

end
