(* ===== verification/Deltas.thy ===== *)
theory Deltas
  imports Prefixes
begin

text \<open>
  Factoring the shared edges of neighbouring long strings
  (\<open>crates/innen-core/src/conversation/deltas.rs\<close>): of two texts next to each other in the
  ascending list of long texts, the common beginning and the common end become fragments.
  \<open>encode\<close> takes the smaller of this and the prefix encoding.  The lemmas show that either
  decodes to the original value, and that the result is never longer.
\<close>

section \<open>Shared edges of two texts\<close>

definition common_suffix :: "nat \<Rightarrow> string \<Rightarrow> string \<Rightarrow> nat" where
  "common_suffix p a b =
     back_to (\<lambda>n. is_char_boundary a (length a - n) \<and> is_char_boundary b (length b - n))
       (common_len (rev (drop p a)) (rev (drop p b)))"

definition shared_edges :: "string \<Rightarrow> string \<Rightarrow> nat \<times> nat" where
  "shared_edges a b = (let p = common_prefix a b in (p, common_suffix p a b))"

text \<open>Prefix and suffix never overlap, and both end at character boundaries of both texts.\<close>

lemma shared_edges_bounds:
  assumes "shared_edges a b = (p, s)"
  shows "p + s \<le> length a" "p + s \<le> length b" "take p a = take p b"
    and "drop (length a - s) a = drop (length b - s) b"
    and "is_char_boundary a p" "is_char_boundary b p"
    and "is_char_boundary a (length a - s)" "is_char_boundary b (length b - s)"
proof -
  have p: "p = common_prefix a b" and s: "s = common_suffix p a b"
    using assms by (auto simp: shared_edges_def Let_def)
  have pl: "p \<le> length a" "p \<le> length b"
    using back_to_le common_len_le order_trans unfolding p common_prefix_def by metis+
  let ?c = "common_len (rev (drop p a)) (rev (drop p b))"
  have sc: "s \<le> ?c" unfolding s common_suffix_def by (rule back_to_le)
  have "s \<le> length a - p" "s \<le> length b - p"
    using sc common_len_le [of "rev (drop p a)" "rev (drop p b)"] by auto
  with pl show le: "p + s \<le> length a" "p + s \<le> length b" by auto
  show "take p a = take p b" unfolding p by (rule common_prefix_take)
  have "take s (rev (drop p a)) = take s (rev (drop p b))" using sc by (rule take_common_len)
  then have "rev (drop (length a - s) a) = rev (drop (length b - s) b)"
    using le by (simp add: take_rev)
  then show "drop (length a - s) a = drop (length b - s) b" by simp
  have "is_char_boundary a p \<and> is_char_boundary b p"
    unfolding p common_prefix_def by (rule back_to_ok) (simp add: is_char_boundary_def)
  then show "is_char_boundary a p" "is_char_boundary b p" by auto
  have "is_char_boundary a (length a - s) \<and> is_char_boundary b (length b - s)"
    unfolding s common_suffix_def by (rule back_to_ok) (simp add: is_char_boundary_def)
  then show "is_char_boundary a (length a - s)" "is_char_boundary b (length b - s)" by auto
qed

section \<open>Encoding\<close>

definition long_texts :: "json \<Rightarrow> string list" where
  "long_texts v = fold (\<lambda>s ts. if length s \<ge> 256 then insort_insert s ts else ts) (strings_of v) []"

text \<open>The non-empty ones among beginning, middle and end of a text.\<close>

definition edge_parts :: "nat \<Rightarrow> nat \<Rightarrow> string \<Rightarrow> string list" where
  "edge_parts p s tx =
     filter (\<lambda>part. part \<noteq> [])
       [take p tx, take (length tx - s - p) (drop p tx), drop (length tx - s) tx]"

fun edge_joins :: "string list \<Rightarrow> table \<times> (string \<times> nat list) list \<Rightarrow> table \<times> (string \<times> nat list) list" where
  "edge_joins (a # b # rest) st =
     (let (p, s) = shared_edges a b in
      if p + s < 256 then edge_joins (b # rest) st
      else edge_joins rest (add_join b (edge_parts p s b) (add_join a (edge_parts p s a) st)))"
| "edge_joins _ st = st"

definition encode_edges :: "(json \<Rightarrow> string) \<Rightarrow> json \<Rightarrow> json" where
  "encode_edges ser original =
     (let key = fresh_key (collect_keys original []) ''$join'';
          ((frags, _), repl) = edge_joins (long_texts original) (([], []), [])
      in if repl = [] then original
         else
           (let packed = edges_packet key frags (rewrite (mark_with key wire_join repl) original)
            in if length (ser packed) < length (ser original) then packed else original))"

definition encode_deltas :: "(json \<Rightarrow> string) \<Rightarrow> json \<Rightarrow> json" where
  "encode_deltas ser original =
     (case encode_prefixes ser original of
        Some p \<Rightarrow> if length (ser p) < length (ser (encode_edges ser original)) then p
                  else encode_edges ser original
      | None \<Rightarrow> encode_edges ser original)"

section \<open>Decoding what was encoded\<close>

lemma edge_parts_concat: "p + s \<le> length tx \<Longrightarrow> concat (edge_parts p s tx) = tx"
proof -
  assume le: "p + s \<le> length tx"
  have drop_empty: "concat (filter (\<lambda>x. x \<noteq> []) ps) = concat ps" for ps :: "string list"
    by (induction ps) auto
  have "take (length tx - s - p) (drop p tx) @ drop (length tx - s) tx = drop p tx"
    using append_take_drop_id [of "length tx - s - p" "drop p tx"] le by (simp add: drop_drop)
  then show ?thesis by (simp add: edge_parts_def drop_empty del: filter.simps)
qed

lemma edge_joins_ok: "joins_ok st \<Longrightarrow> joins_ok (edge_joins ts st)"
proof (induction ts st rule: edge_joins.induct)
  case (1 a b rest st)
  obtain p s where e: "shared_edges a b = (p, s)" by (cases "shared_edges a b")
  note le = shared_edges_bounds(1,2) [OF e]
  show ?case
  proof (cases "p + s < 256")
    case True
    then show ?thesis using 1 e by simp
  next
    case False
    have "joins_ok (add_join b (edge_parts p s b) (add_join a (edge_parts p s a) st))"
      using 1(3) le by (intro add_join_ok) (simp_all add: edge_parts_concat)
    then show ?thesis using 1(2) [OF e [symmetric] refl False] e False by simp
  qed
qed auto

text \<open>Either the value itself, or a shorter packet that decodes to it.\<close>

definition packs :: "(json \<Rightarrow> string) \<Rightarrow> json \<Rightarrow> json \<Rightarrow> bool" where
  "packs ser original packed \<longleftrightarrow>
     packed = original \<or>
     jidx packed ''encoding'' = JStr ''innen.edges.v1'' \<and> decode_edges packed = Inr original \<and>
     length (ser packed) < length (ser original)"

lemma encode_edges_packs: "packs ser (JObj m) (encode_edges ser (JObj m))"
proof -
  define key where "key = fresh_key (collect_keys (JObj m) []) ''$join''"
  obtain frags ids repl where j: "edge_joins (long_texts (JObj m)) (([], []), []) = ((frags, ids), repl)"
    by (cases "edge_joins (long_texts (JObj m)) (([], []), [])") auto
  have ok: "repl_ok frags repl"
    using edge_joins_ok [OF joins_ok_Nil, of "long_texts (JObj m)"] by (simp add: j joins_ok_def)
  have new: "key \<notin> jkeys (JObj m)"
    using fresh_key_new [of "collect_keys (JObj m) []" "''$join''"]
    by (simp only: key_def collect_keys_set) simp
  let ?packed = "edges_packet key frags (rewrite (mark_with key wire_join repl) (JObj m))"
  have "encode_edges ser (JObj m) =
      (if repl \<noteq> [] \<and> length (ser ?packed) < length (ser (JObj m)) then ?packed else JObj m)"
    by (simp add: encode_edges_def j key_def [symmetric] Let_def del: rewrite.simps collect_keys.simps)
  then show ?thesis
    using decode_edges_packet [OF ok new]
    by (auto simp: packs_def edges_packet_fields simp del: rewrite.simps)
qed

lemma encode_deltas_packs: "packs ser (JObj m) (encode_deltas ser (JObj m))"
proof (cases "encode_prefixes ser (JObj m)")
  case None
  then show ?thesis using encode_edges_packs by (simp add: encode_deltas_def)
next
  case (Some p)
  then have "packs ser (JObj m) p"
    using decode_encode_prefixes [OF Some] by (simp add: packs_def)
  then show ?thesis using encode_edges_packs Some by (simp add: encode_deltas_def)
qed

section \<open>Properties\<close>

text \<open>The edge and prefix factoring is lossless and never costs bytes: for every JSON object that
  does not itself claim to be such a packet, decoding the encoding gives the object back
  exactly, and the encoding prints at most as long.\<close>

theorem decode_encode_deltas:
  assumes "jget (JObj m) ''encoding'' \<noteq> Some (JStr ''innen.edges.v1'')"
  shows "decode_edges (encode_deltas ser (JObj m)) = Inr (JObj m) \<and>
    length (ser (encode_deltas ser (JObj m))) \<le> length (ser (JObj m))"
proof -
  have "decode_edges (JObj m) = Inr (JObj m)"
    using assms by (auto simp: decode_edges_def jidx_def split: option.splits)
  then show ?thesis using encode_deltas_packs [of ser m] by (auto simp: packs_def)
qed

theorem decode_encode_deltas_witness:
  "decode_edges (encode_deltas (\<lambda>v. ''x'') (JObj [(''a'', JStr ''x''), (''b'', JArr [JObj [(''$join'', JNull)]])])) =
     Inr (JObj [(''a'', JStr ''x''), (''b'', JArr [JObj [(''$join'', JNull)]])])"
  using decode_encode_deltas [of "[(''a'', JStr ''x''), (''b'', JArr [JObj [(''$join'', JNull)]])]" "\<lambda>v. ''x''"]
  by simp

end
