(* ===== verification/Compact.thy ===== *)
theory Compact
  imports Deltas
begin

text \<open>
  The page codec (\<open>crates/innen-core/src/conversation/compact.rs\<close>): records grouped by their
  field names, the fields equal in a whole group factored out of it, rows for the rest, and a
  table of long strings that occur more than once.  The shorter text wins at each stage.
  \<open>decode_page\<close> reverses every stage, the edge packets included, and terminates because each
  stage it undoes leaves a smaller value.
\<close>

section \<open>Pages\<close>

record page_record =
  r_line :: nat
  r_event :: json

record page =
  p_session_id :: string
  p_source :: string
  p_source_path :: string
  p_view :: string
  p_offset :: nat
  p_next_offset :: "nat option"
  p_records :: "page_record list"
  p_warnings :: "string list"

definition record_value :: "page_record \<Rightarrow> json" where
  "record_value r = jobj [(''line'', jnat (r_line r)), (''event'', r_event r)]"

definition page_value :: "page \<Rightarrow> json" where
  "page_value p = jobj
     [(''session_id'', JStr (p_session_id p)), (''source'', JStr (p_source p)),
      (''source_path'', JStr (p_source_path p)), (''view'', JStr (p_view p)),
      (''offset'', jnat (p_offset p)),
      (''next_offset'', case p_next_offset p of None \<Rightarrow> JNull | Some n \<Rightarrow> jnat n),
      (''records'', JArr (map record_value (p_records p))),
      (''warnings'', JArr (map JStr (p_warnings p)))]"

section \<open>Rows\<close>

text \<open>The records by their lists of field names; none when an event is no object.\<close>

fun group_records :: "nat \<Rightarrow> page_record list \<Rightarrow> (string list \<times> nat list) list \<Rightarrow> (string list \<times> nat list) list option" where
  "group_records i [] groups = Some groups"
| "group_records i (r # rs) groups =
     (case as_object (r_event r) of
        None \<Rightarrow> None
      | Some event \<Rightarrow>
          group_records (Suc i) rs (omap_upd (map fst event) [] (\<lambda>is. is @ [i]) groups))"

definition all_equal :: "page_record list \<Rightarrow> nat list \<Rightarrow> string \<Rightarrow> bool" where
  "all_equal rs is key =
     list_all (\<lambda>i. js_eq (jidx (r_event (rs ! i)) key) (jidx (r_event (rs ! hd is)) key)) is"

definition shared_fields :: "page_record list \<Rightarrow> string list \<Rightarrow> nat list \<Rightarrow> jobject" where
  "shared_fields rs keys is =
     fold (\<lambda>key. omap_insert key (jidx (r_event (rs ! hd is)) key)) (filter (all_equal rs is) keys) []"

definition row_fields_of :: "page_record list \<Rightarrow> string list \<Rightarrow> nat list \<Rightarrow> string list" where
  "row_fields_of rs keys is = filter (\<lambda>key. \<not> all_equal rs is key) keys"

definition row_of :: "page_record \<Rightarrow> nat \<Rightarrow> string list \<Rightarrow> json" where
  "row_of r layout fs =
     JArr [jnat (r_line r), jnat layout, JArr (map (\<lambda>key. jidx (r_event r) key) fs)]"

definition layout_of :: "page_record list \<Rightarrow> string list \<times> nat list \<Rightarrow> json" where
  "layout_of rs = (\<lambda>(keys, is).
     jobj [(''fields'', JArr (map JStr (row_fields_of rs keys is))),
           (''shared'', JObj (shared_fields rs keys is))])"

text \<open>One group: a layout is pushed and the rows of its records are set.\<close>

definition add_layout ::
  "page_record list \<Rightarrow> string list \<times> nat list \<Rightarrow> json list \<times> json list \<Rightarrow> json list \<times> json list" where
  "add_layout rs = (\<lambda>(keys, is) (layouts, rows).
     (layouts @ [layout_of rs (keys, is)],
      fold (\<lambda>i rows. rows[i := row_of (rs ! i) (length layouts) (row_fields_of rs keys is)]) is rows))"

definition rows_packet :: "json \<Rightarrow> json list \<Rightarrow> json list \<Rightarrow> json" where
  "rows_packet original layouts rows =
     (case original of
        JObj m \<Rightarrow>
          JObj (omap_insert ''rows'' (JArr rows)
               (omap_insert ''layouts'' (JArr layouts)
               (omap_insert ''row_fields'' (JArr [JStr ''line'', JStr ''layout'', JStr ''values''])
               (omap_insert ''encoding'' (JStr ''innen.rows.v1'')
               (omap_remove ''records'' m)))))
      | v \<Rightarrow> v)"

section \<open>Strings\<close>

definition text_counts :: "json \<Rightarrow> (string \<times> nat) list" where
  "text_counts v =
     fold (\<lambda>s counts. if length s \<ge> 256 then omap_upd s 0 Suc counts else counts) (strings_of v) []"

definition repeated_texts :: "json \<Rightarrow> string list" where
  "repeated_texts v = map fst (filter (\<lambda>(_, n). n > 1) (text_counts v))"

definition strings_packet :: "string \<Rightarrow> string list \<Rightarrow> json \<Rightarrow> json" where
  "strings_packet key texts pg =
     jobj [(''encoding'', JStr ''innen.strings.v1''), (''ref_key'', JStr key),
           (''texts'', JArr (map JStr texts)), (''page'', pg)]"

definition factor_strings :: "(json \<Rightarrow> string) \<Rightarrow> json \<Rightarrow> json" where
  "factor_strings ser original =
     (let texts = repeated_texts original in
      if texts = [] then original
      else
        (let key = fresh_key (collect_keys original []) ''$text'';
             indices = zip texts [0..<length texts];
             packed = strings_packet key texts (rewrite (mark_with key jnat indices) original)
         in if length (ser packed) < length (ser original) then packed else original))"

definition encode_page :: "(json \<Rightarrow> string) \<Rightarrow> page \<Rightarrow> json" where
  "encode_page ser p =
     (let original = page_value p in
      case group_records 0 (p_records p) [] of
        None \<Rightarrow> original
      | Some groups \<Rightarrow>
          (let (layouts, rows) = fold (add_layout (p_records p)) groups ([], replicate (length (p_records p)) JNull);
               packed = rows_packet original layouts rows;
               best = (if length (ser packed) < length (ser original) then packed else original)
           in factor_strings ser best))"

section \<open>Decoding\<close>

definition decode_text_ref :: "json list \<Rightarrow> json \<Rightarrow> string + json" where
  "decode_text_ref texts x =
     bindE (ok_or ''invalid string index'' (as_u64 x)) (\<lambda>i.
     ok_or ''unknown string index'' (if i < length texts then Some (texts ! i) else None))"

definition insert_field :: "json \<times> json \<Rightarrow> jobject \<Rightarrow> string + jobject" where
  "insert_field = (\<lambda>(key, item) event.
     bindE (ok_or ''invalid field name'' (as_str key)) (\<lambda>k.
     if map_of event k \<noteq> None then Inl ''duplicate field'' else Inr (omap_insert k item event)))"

definition decode_row :: "json list \<Rightarrow> json \<Rightarrow> string + json" where
  "decode_row layouts row =
     bindE (ok_or ''invalid row'' (case as_array row of Some [l, i, vs] \<Rightarrow> Some (l, i, vs) | _ \<Rightarrow> None))
       (\<lambda>(line, index, values).
     bindE (ok_or ''invalid source line'' (case as_u64 line of Some n \<Rightarrow> if n > 0 then Some n else None | None \<Rightarrow> None)) (\<lambda>_.
     bindE (ok_or ''invalid layout index'' (as_u64 index)) (\<lambda>i.
     bindE (ok_or ''unknown layout'' (if i < length layouts then Some (layouts ! i) else None)) (\<lambda>layout.
     bindE (ok_or ''missing fields'' (as_array (jidx layout ''fields''))) (\<lambda>fs.
     bindE (ok_or ''field count mismatch''
       (case as_array values of Some vs \<Rightarrow> if length vs = length fs then Some vs else None | None \<Rightarrow> None)) (\<lambda>vs.
     bindE (ok_or ''missing shared fields'' (as_object (jidx layout ''shared''))) (\<lambda>shared.
     bindE (foldE insert_field (zip fs vs) shared) (\<lambda>event.
     Inr (jobj [(''line'', line), (''event'', JObj event)])))))))))"

definition decode_rows :: "json \<Rightarrow> string + json" where
  "decode_rows value =
     (if jidx value ''encoding'' \<noteq> JStr ''innen.rows.v1'' \<or>
         \<not> js_eq (jidx value ''row_fields'') (JArr [JStr ''line'', JStr ''layout'', JStr ''values''])
      then Inl ''unsupported conversation encoding''
      else
        bindE (ok_or ''missing layouts'' (as_array (jidx value ''layouts''))) (\<lambda>layouts.
        bindE (ok_or ''missing rows'' (as_array (jidx value ''rows''))) (\<lambda>rows.
        bindE (mapE (decode_row layouts) rows) (\<lambda>records.
        bindE (ok_or ''invalid page'' (as_object value)) (\<lambda>m.
        Inr (JObj (omap_insert ''records'' (JArr records)
          (fold omap_remove [''encoding'', ''row_fields'', ''layouts'', ''rows'', ''guide''] m))))))))"

text \<open>The string stage: the page with its references replaced, still to be decoded.\<close>

definition decode_strings :: "json \<Rightarrow> string + json" where
  "decode_strings value =
     bindE (ok_or ''missing reference key'' (as_str (jidx value ''ref_key''))) (\<lambda>key.
     bindE (ok_or ''missing strings'' (as_array (jidx value ''texts''))) (\<lambda>texts.
     if list_ex (\<lambda>s. \<not> is_string s) texts then Inl ''invalid string table''
     else
       bindE (ok_or ''missing page''
         (case jget value ''page'' of Some p \<Rightarrow> if is_object p then Some p else None | None \<Rightarrow> None)) (\<lambda>pg.
       if jidx pg ''encoding'' = JStr ''innen.strings.v1'' then Inl ''nested string encoding''
       else restore key ''ambiguous string reference'' (decode_text_ref texts) pg)))"

lemma decode_strings_jnodes:
  assumes "decode_strings value = Inr w"
  shows "jnodes w < jnodes value"
proof -
  obtain pg key texts where p: "jget value ''page'' = Some pg"
      "restore key ''ambiguous string reference'' (decode_text_ref texts) pg = Inr w"
      "\<forall>t \<in> set texts. is_string t"
    using assms by (auto simp: decode_strings_def list_ex_iff split: if_splits option.splits)
  have "jnodes w \<le> jnodes pg"
  proof (rule restore_jnodes(1) [OF _ p(2)])
    fix x w assume "decode_text_ref texts x = Inr w"
    then have "is_string w" using p(3) by (auto simp: decode_text_ref_def split: if_splits)
    then show "jnodes w \<le> Suc (jnodes x)" by (cases w) auto
  qed
  with jget_jnodes [OF p(1)] show ?thesis by simp
qed

function decode_page :: "json \<Rightarrow> string + json" where
  "decode_page value =
     (if jidx value ''encoding'' = JStr ''innen.edges.v1'' then bindE (decode_edges value) decode_page
      else if jidx value ''encoding'' = JStr ''innen.strings.v1'' then bindE (decode_strings value) decode_page
      else if jget value ''encoding'' = None then Inr value
      else decode_rows value)"
  by pat_completeness auto
termination
  by (relation "measure jnodes") (auto dest: decode_edges_jnodes decode_strings_jnodes)

declare decode_page.simps [simp del]

section \<open>Guides\<close>

definition COMMON_GUIDE :: string where
  "COMMON_GUIDE = ''For innen.strings.v1, replace each singleton object keyed by ref_key in page with texts[index]. For innen.rows.v1, each row is [source line, layout index, values]; its event merges layout.shared with values keyed by layout.fields in order. Preserve row order and all page metadata. Other pages are ordinary JSON.''"

definition EDGE_GUIDE :: string where
  "EDGE_GUIDE = ''For innen.edges.v1, replace each singleton object keyed by join_key in page with the concatenation of fragments at its listed indices, in order, with no separator. Fragments are literal strings. Then decode the restored page.''"

definition ATTACHMENT_GUIDE :: string where
  "ATTACHMENT_GUIDE = ''innen.attachments.v1 omits source payloads. Decode page, then each attachments entry identifies a record, source line and event JSON pointer. Retrieve using read at offset line minus one with --attachment pointer --expect-sha256 hash. Replace only the listed marker with the returned value. Images and encrypted content have not been interpreted.''"

lemma jidx_jnodes: "jidx v k \<noteq> JNull \<Longrightarrow> jnodes (jidx v k) < jnodes v"
  by (auto simp: jidx_def dest: jget_jnodes split: option.splits)

function guides_of :: "json \<Rightarrow> string list" where
  "guides_of current =
     (case as_str (jidx current ''encoding'') of
        None \<Rightarrow> []
      | Some e \<Rightarrow>
          if e = ''innen.edges.v1'' then EDGE_GUIDE # guides_of (jidx current ''page'')
          else if e = ''innen.attachments.v1'' then ATTACHMENT_GUIDE # guides_of (jidx current ''page'')
          else if e = ''innen.strings.v1'' \<or> e = ''innen.rows.v1'' then [COMMON_GUIDE]
          else [])"
  by pat_completeness auto
termination
proof (relation "measure jnodes")
  have "jnodes (jidx current ''page'') < jnodes current" if str: "as_str (jidx current ''encoding'') = Some e" for current e
  proof -
    obtain m where m: "current = JObj m" using str by (cases current) (simp_all add: jidx_def)
    show ?thesis
    proof (cases "jidx current ''page'' = JNull")
      case True
      have "m \<noteq> []" using str by (auto simp: m jidx_def)
      then have "1 < jnodes current" by (cases m) (auto simp: m trans_less_add1)
      then show ?thesis using True by simp
    qed (rule jidx_jnodes)
  qed
  then show "\<And>current x. as_str (jidx current ''encoding'') = Some x \<Longrightarrow> x = ''innen.edges.v1'' \<Longrightarrow>
      (jidx current ''page'', current) \<in> measure jnodes"
    and "\<And>current x. as_str (jidx current ''encoding'') = Some x \<Longrightarrow> x \<noteq> ''innen.edges.v1'' \<Longrightarrow>
      x = ''innen.attachments.v1'' \<Longrightarrow> (jidx current ''page'', current) \<in> measure jnodes"
    by simp_all
qed simp

declare guides_of.simps [simp del]

definition with_guide :: "json \<Rightarrow> json" where
  "with_guide value =
     (case guides_of value of
        [] \<Rightarrow> value
      | gs \<Rightarrow>
          (case value of
             JObj m \<Rightarrow> JObj (omap_insert ''guide'' (JStr (join_with [CHR 0x0A] gs)) m)
           | v \<Rightarrow> v))"

section \<open>Strings decode back\<close>

lemma strings_packet_fields [simp]:
  "jidx (strings_packet key texts pg) ''encoding'' = JStr ''innen.strings.v1''"
  "jidx (strings_packet key texts pg) ''ref_key'' = JStr key"
  "jidx (strings_packet key texts pg) ''texts'' = JArr (map JStr texts)"
  "jget (strings_packet key texts pg) ''page'' = Some pg"
  "is_object (strings_packet key texts pg)"
  by (simp_all add: strings_packet_def jidx_def obj_of_map_of)

interpretation text_codec: marker_codec key "''ambiguous string reference''"
  "decode_text_ref (map JStr texts)" "mark_with key jnat (zip texts [0..<length texts])"
  for key texts
proof
  fix s w assume "mark_with key jnat (zip texts [0..<length texts]) s = Some w"
  then obtain i where w: "w = JObj [(key, jnat i)]" and "map_of (zip texts [0..<length texts]) s = Some i"
    by (auto simp: mark_with_def)
  then have "i < length texts \<and> texts ! i = s" by (auto dest!: map_of_SomeD simp: set_zip)
  then show "\<exists>x. w = JObj [(key, x)] \<and> decode_text_ref (map JStr texts) x = Inr (JStr s)"
    by (simp add: w decode_text_ref_def)
qed

lemma decode_strings_packet:
  assumes "key \<notin> jkeys (JObj m)" and "jidx (JObj m) ''encoding'' \<noteq> JStr ''innen.strings.v1''"
  shows "decode_strings (strings_packet key texts
           (rewrite (mark_with key jnat (zip texts [0..<length texts])) (JObj m))) = Inr (JObj m)"
proof -
  define repl where "repl = mark_with key jnat (zip texts [0..<length texts])"
  have "jidx (JObj (rewrite_fields repl m)) ''encoding'' \<noteq> JStr ''innen.strings.v1''"
  proof -
    have lookup: "map_of (rewrite_fields repl m) k = map_option (rewrite repl) (map_of m k)" for k
      by (induction m) auto
    have stays: "rewrite repl v = JStr s \<Longrightarrow> v = JStr s" for v s
      by (cases v) (auto simp: repl_def mark_with_def split: option.splits)
    show ?thesis using assms(2) stays by (auto simp: jidx_def lookup split: option.splits)
  qed
  then show ?thesis
    using text_codec.restore_obj [OF assms(1)] unfolding repl_def [symmetric]
    by (simp add: decode_strings_def list_ex_iff repl_def del: restore.simps)
qed

section \<open>Rows decode back\<close>

text \<open>The groups partition the record indices by the field names of their events.\<close>

definition keys_at :: "page_record list \<Rightarrow> nat \<Rightarrow> string list" where
  "keys_at rs i = (case as_object (r_event (rs ! i)) of Some m \<Rightarrow> map fst m | None \<Rightarrow> [])"

definition groups_ok :: "page_record list \<Rightarrow> nat \<Rightarrow> (string list \<times> nat list) list \<Rightarrow> bool" where
  "groups_ok rs n groups \<longleftrightarrow>
     omap_ok groups \<and>
     (\<forall>keys is. map_of groups keys = Some is \<longrightarrow> is \<noteq> [] \<and> set is = {i. i < n \<and> keys_at rs i = keys}) \<and>
     (\<forall>i < n. map_of groups (keys_at rs i) \<noteq> None)"

lemma groups_ok_step:
  assumes "groups_ok rs n groups"
  shows "groups_ok rs (Suc n) (omap_upd (keys_at rs n) [] (\<lambda>is. is @ [n]) groups)"
  using assms unfolding groups_ok_def
  by (auto simp: less_Suc_eq split: option.splits if_splits)

lemma group_records_ok:
  assumes "group_records n (drop n rs) groups = Some groups'" and "groups_ok rs n groups" and "n \<le> length rs"
  shows "groups_ok rs (length rs) groups' \<and> (\<forall>i. n \<le> i \<and> i < length rs \<longrightarrow> is_object (r_event (rs ! i)))"
  using assms
proof (induction "length rs - n" arbitrary: n groups)
  case 0
  then show ?case by auto
next
  case (Suc d)
  then have n: "n < length rs" by simp
  then have "drop n rs = rs ! n # drop (Suc n) rs" by (simp add: Cons_nth_drop_Suc)
  with Suc.prems(1) obtain m where m: "as_object (r_event (rs ! n)) = Some m"
      "group_records (Suc n) (drop (Suc n) rs) (omap_upd (map fst m) [] (\<lambda>is. is @ [n]) groups) = Some groups'"
    by (auto split: option.splits)
  have "keys_at rs n = map fst m" by (simp add: keys_at_def m)
  then have "groups_ok rs (length rs) groups' \<and> (\<forall>i. Suc n \<le> i \<and> i < length rs \<longrightarrow> is_object (r_event (rs ! i)))"
    using Suc.hyps(1) [of "Suc n", OF _ m(2)] Suc.hyps(2) n groups_ok_step [OF Suc.prems(2)] by simp
  moreover have "is_object (r_event (rs ! n))" using m(1) by (cases "r_event (rs ! n)") auto
  ultimately show ?case by (metis not_less_eq_eq le_antisym)
qed

text \<open>The rows that \<open>add_layout\<close> sets, and the layouts it pushes.\<close>

lemma set_rows:
  "fold (\<lambda>i rows. rows[i := f i]) is rows ! j =
     (if j \<in> set is \<and> j < length rows then f j else rows ! j)"
proof (induction "is" arbitrary: rows)
  case (Cons a "is")
  then show ?case by (cases "a = j"; cases "j < length rows") (auto simp: list_update_beyond)
qed simp

lemma set_rows_length [simp]: "length (fold (\<lambda>i rows. rows[i := f i]) is rows) = length rows"
  by (induction "is" arbitrary: rows) auto

lemma fold_add_layout:
  assumes "fold (add_layout rs) gs (ls, rows) = (ls', rows')"
  shows "ls' = ls @ map (layout_of rs) gs" and "length rows' = length rows"
    and "\<forall>g \<in> set gs. j \<notin> set (snd g) \<Longrightarrow> rows' ! j = rows ! j"
    and "i < length gs \<Longrightarrow> j \<in> set (snd (gs ! i)) \<Longrightarrow> j < length rows \<Longrightarrow>
      \<forall>i' < length gs. i \<noteq> i' \<longrightarrow> j \<notin> set (snd (gs ! i')) \<Longrightarrow>
      rows' ! j = row_of (rs ! j) (length ls + i) (row_fields_of rs (fst (gs ! i)) (snd (gs ! i)))"
proof -
  let ?goal = "\<lambda>gs ls rows. ls' = ls @ map (layout_of rs) gs \<and> length rows' = length rows \<and>
    ((\<forall>g \<in> set gs. j \<notin> set (snd g)) \<longrightarrow> rows' ! j = rows ! j) \<and>
    (\<forall>i < length gs. j \<in> set (snd (gs ! i)) \<and> j < length rows \<and>
      (\<forall>i' < length gs. i \<noteq> i' \<longrightarrow> j \<notin> set (snd (gs ! i'))) \<longrightarrow>
      rows' ! j = row_of (rs ! j) (length ls + i) (row_fields_of rs (fst (gs ! i)) (snd (gs ! i))))"
  have "?goal gs ls rows"
    using assms
  proof (induction gs arbitrary: ls rows)
    case (Cons g gs)
    obtain keys "is" where g: "g = (keys, is)" by (cases g)
    define rows1 where "rows1 = fold (\<lambda>i rows. rows[i := row_of (rs ! i) (length ls) (row_fields_of rs keys is)]) is rows"
    have IH: "?goal gs (ls @ [layout_of rs g]) rows1"
      using Cons.prems by (intro Cons.IH) (simp add: add_layout_def g rows1_def)
    have len: "length rows1 = length rows" by (simp add: rows1_def)
    show ?case
    proof (intro conjI impI allI)
      show "ls' = ls @ map (layout_of rs) (g # gs)" using IH by simp
      show "length rows' = length rows" using IH len by simp
      show "rows' ! j = rows ! j" if "\<forall>g \<in> set (g # gs). j \<notin> set (snd g)"
        using IH that by (simp add: g rows1_def set_rows)
    next
      fix i assume i: "i < length (g # gs)" and a: "j \<in> set (snd ((g # gs) ! i)) \<and> j < length rows \<and>
        (\<forall>i' < length (g # gs). i \<noteq> i' \<longrightarrow> j \<notin> set (snd ((g # gs) ! i')))"
      show "rows' ! j = row_of (rs ! j) (length ls + i) (row_fields_of rs (fst ((g # gs) ! i)) (snd ((g # gs) ! i)))"
      proof (cases i)
        case 0
        have "\<forall>g' \<in> set gs. j \<notin> set (snd g')"
        proof
          fix g' assume "g' \<in> set gs"
          then obtain i' where "i' < length gs" "gs ! i' = g'" by (auto simp: in_set_conv_nth)
          then show "j \<notin> set (snd g')" using a 0 by (metis Suc_less_eq length_Cons nat.distinct(1) nth_Cons_Suc)
        qed
        then show ?thesis using IH a 0 by (simp add: rows1_def set_rows g)
      next
        case (Suc k)
        have "\<forall>i' < length gs. k \<noteq> i' \<longrightarrow> j \<notin> set (snd (gs ! i'))"
          using a Suc by (metis Suc_inject Suc_less_eq length_Cons nth_Cons_Suc)
        then show ?thesis using IH a i Suc len by simp
      qed
    qed
  qed simp
  then show "ls' = ls @ map (layout_of rs) gs" and "length rows' = length rows"
    and "\<forall>g \<in> set gs. j \<notin> set (snd g) \<Longrightarrow> rows' ! j = rows ! j"
    and "i < length gs \<Longrightarrow> j \<in> set (snd (gs ! i)) \<Longrightarrow> j < length rows \<Longrightarrow>
      \<forall>i' < length gs. i \<noteq> i' \<longrightarrow> j \<notin> set (snd (gs ! i')) \<Longrightarrow>
      rows' ! j = row_of (rs ! j) (length ls + i) (row_fields_of rs (fst (gs ! i)) (snd (gs ! i)))"
    by blast+
qed

lemma shared_fields_ok [simp]: "omap_ok (shared_fields rs keys is)"
  and shared_fields_map_of: "map_of (shared_fields rs keys is) k =
    (if k \<in> set keys \<and> all_equal rs is k then Some (jidx (r_event (rs ! hd is)) k) else None)"
proof -
  have "omap_ok m \<Longrightarrow> omap_ok (fold (\<lambda>key. omap_insert key (f key)) ks m) \<and>
      map_of (fold (\<lambda>key. omap_insert key (f key)) ks m) k = (if k \<in> set ks then Some (f k) else map_of m k)"
    for f :: "string \<Rightarrow> json" and ks m
    by (induction ks arbitrary: m) simp_all
  then show "omap_ok (shared_fields rs keys is)" and "map_of (shared_fields rs keys is) k =
    (if k \<in> set keys \<and> all_equal rs is k then Some (jidx (r_event (rs ! hd is)) k) else None)"
    by (simp_all add: shared_fields_def)
qed

text \<open>The fields of a row go into distinct free places of the shared object.\<close>

lemma insert_fields:
  assumes "distinct fs" and "\<forall>k \<in> set fs. map_of m k = None" and "omap_ok m"
  shows "\<exists>e. foldE insert_field (zip (map JStr fs) (map f fs)) m = Inr e \<and> omap_ok e \<and>
    (\<forall>k. map_of e k = (if k \<in> set fs then Some (f k) else map_of m k))"
  using assms
proof (induction fs arbitrary: m)
  case (Cons k fs)
  then have "\<exists>e. foldE insert_field (zip (map JStr fs) (map f fs)) (omap_insert k (f k) m) = Inr e \<and> omap_ok e \<and>
    (\<forall>k'. map_of e k' = (if k' \<in> set fs then Some (f k') else map_of (omap_insert k (f k) m) k'))"
    by (intro Cons.IH) auto
  moreover have "insert_field (JStr k, f k) m = Inr (omap_insert k (f k) m)"
    using Cons.prems by (simp add: insert_field_def)
  ultimately show ?case using Cons.prems(1) by force
qed simp

lemma omap_js_eq:
  assumes "omap_ok m" and "omap_ok n" and "dom (map_of m) = dom (map_of n)"
    and eq: "\<And>k v w. map_of m k = Some v \<Longrightarrow> map_of n k = Some w \<Longrightarrow> js_eq v w"
  shows "js_eq_fields m n"
proof -
  have "map fst m = map fst n"
    using assms(1,2,3) by (simp add: omap_ok_def dom_map_of_conv_image_fst strict_sorted_equal)
  then have len: "length m = length n" and fst: "\<And>i. i < length m \<Longrightarrow> fst (m ! i) = fst (n ! i)"
    by (metis length_map, metis length_map nth_map)
  have "js_eq (snd (m ! i)) (snd (n ! i))" if "i < length m" for i
  proof (rule eq)
    show "map_of m (fst (m ! i)) = Some (snd (m ! i))"
      using that assms(1) by (simp add: omap_map_of_iff)
    show "map_of n (fst (m ! i)) = Some (snd (n ! i))"
      using that assms(2) len by (simp add: omap_map_of_iff fst)
  qed
  with len fst show ?thesis by (simp add: js_eq_fields_iff list_all2_conv_all_nth)
qed

lemma decode_row_of:
  assumes i: "i \<in> set is" and keys: "map fst m = keys" "r_event (rs ! i) = JObj m" "omap_ok m"
    and line: "0 < r_line (rs ! i)" and l: "l < length layouts" "layouts ! l = layout_of rs (keys, is)"
    and bound: "set is \<subseteq> {..<length rs}"
  shows "\<exists>e. decode_row layouts (row_of (rs ! i) l (row_fields_of rs keys is)) =
      Inr (jobj [(''line'', jnat (r_line (rs ! i))), (''event'', JObj e)]) \<and> js_eq_fields e m \<and>
      (\<forall>kv \<in> set e. \<exists>r \<in> set rs. snd kv = jidx (r_event r) (fst kv))"
proof -
  define fs where "fs = row_fields_of rs keys is"
  let ?sh = "shared_fields rs keys is" and ?f = "\<lambda>k. jidx (r_event (rs ! i)) k"
  have "distinct keys" using keys by (auto dest: omap_ok_distinct)
  then have "distinct fs" by (simp add: fs_def row_fields_of_def)
  moreover have "\<forall>k \<in> set fs. map_of ?sh k = None"
    by (auto simp: fs_def row_fields_of_def shared_fields_map_of)
  ultimately obtain e where e: "foldE insert_field (zip (map JStr fs) (map ?f fs)) ?sh = Inr e" "omap_ok e"
      "\<And>k. map_of e k = (if k \<in> set fs then Some (?f k) else map_of ?sh k)"
    using insert_fields [of fs ?sh ?f] by auto
  have lay: "jidx (layouts ! l) ''fields'' = JArr (map JStr fs)" "jidx (layouts ! l) ''shared'' = JObj ?sh"
    by (simp_all add: l(2) layout_of_def fs_def jidx_def obj_of_map_of)
  have row: "decode_row layouts (row_of (rs ! i) l fs) =
      Inr (jobj [(''line'', jnat (r_line (rs ! i))), (''event'', JObj e)])"
    using line l(1) by (simp add: decode_row_def row_of_def lay e(1))
  have "js_eq_fields e m"
  proof (rule omap_js_eq [OF e(2) keys(3)])
    have "dom (map_of m) = set keys" by (simp add: keys(1) [symmetric] dom_map_of_conv_image_fst)
    then show "dom (map_of e) = dom (map_of m)"
      by (auto simp: e(3) fs_def row_fields_of_def shared_fields_map_of dom_def split: if_splits)
    fix k v w assume "map_of e k = Some v" and w: "map_of m k = Some w"
    moreover have "?f k = w" using w keys(2) by (simp add: jidx_def)
    moreover have "all_equal rs is k \<Longrightarrow> js_eq (?f k) (jidx (r_event (rs ! hd is)) k)"
      using i by (simp add: all_equal_def list_all_iff)
    ultimately show "js_eq v w"
      by (auto simp: e(3) shared_fields_map_of split: if_splits dest: js_eq_sym)
  qed
  moreover have "\<exists>r \<in> set rs. v = jidx (r_event r) k" if "(k, v) \<in> set e" for k v
  proof -
    have "hd is \<in> set is" using i by (cases "is") auto
    then have "rs ! i \<in> set rs" "rs ! hd is \<in> set rs" using i bound by auto
    moreover have "map_of e k = Some v" using that e(2) by (simp add: omap_map_of_iff)
    ultimately show ?thesis by (auto simp: e(3) shared_fields_map_of split: if_splits)
  qed
  ultimately show ?thesis using row by (auto simp: fs_def)
qed

definition page_ok :: "page \<Rightarrow> bool" where
  "page_ok p \<longleftrightarrow> (\<forall>r \<in> set (p_records p). 0 < r_line r \<and> wf_json (r_event r))"

definition exact_numbers :: "page \<Rightarrow> bool" where
  "exact_numbers p \<longleftrightarrow> (\<forall>r \<in> set (p_records p). no_neg_zero (r_event r))"

text \<open>A decoded record is the source record up to the sign of zeros.\<close>

definition same_record :: "page_record list \<Rightarrow> page_record \<Rightarrow> json \<Rightarrow> bool" where
  "same_record rs r v \<longleftrightarrow> js_eq v (record_value r) \<and>
     ((\<forall>r \<in> set rs. no_neg_zero (r_event r)) \<longrightarrow> v = record_value r)"

lemma jidx_no_neg_zero: "no_neg_zero v \<Longrightarrow> no_neg_zero (jidx v k)"
  by (cases v) (auto simp: jidx_def no_neg_zero_fields_iff split: option.splits dest!: map_of_SomeD)

lemma decode_rows_of:
  assumes g: "group_records 0 rs [] = Some gs"
    and f: "fold (add_layout rs) gs ([], replicate (length rs) JNull) = (layouts, rows)"
    and ok: "\<forall>r \<in> set rs. 0 < r_line r \<and> wf_json (r_event r)"
  shows "\<exists>vs. mapE (decode_row layouts) rows = Inr vs \<and> list_all2 (same_record rs) rs vs"
proof -
  have gok: "groups_ok rs (length rs) gs" and objs: "\<And>i. i < length rs \<Longrightarrow> is_object (r_event (rs ! i))"
    using group_records_ok [of 0 rs "[]" gs] g by (auto simp: groups_ok_def)
  note lay = fold_add_layout(1) [OF f] and len = fold_add_layout(2) [OF f]
  have one: "\<exists>v. decode_row layouts (rows ! i) = Inr v \<and> same_record rs (rs ! i) v" if i: "i < length rs" for i
  proof -
    obtain m where m: "r_event (rs ! i) = JObj m" using objs [OF i] by (cases "r_event (rs ! i)") auto
    have rok: "0 < r_line (rs ! i)" "omap_ok m" using ok i m by (auto dest!: bspec [OF _ nth_mem])
    have keys: "keys_at rs i = map fst m" by (simp add: keys_at_def m)
    obtain "is" where "is": "map_of gs (map fst m) = Some is"
      using gok i by (auto simp: groups_ok_def keys)
    then obtain l where l: "l < length gs" "gs ! l = (map fst m, is)"
      by (auto dest!: map_of_SomeD simp: in_set_conv_nth)
    have members: "set (snd (gs ! l')) = {i. i < length rs \<and> keys_at rs i = fst (gs ! l')}" if "l' < length gs" for l'
    proof -
      have "map_of gs (fst (gs ! l')) = Some (snd (gs ! l'))"
        using that gok by (simp add: groups_ok_def omap_map_of_iff)
      then show ?thesis using gok by (auto simp: groups_ok_def)
    qed
    have i_in: "i \<in> set is" using members [OF l(1)] i keys by (simp add: l(2))
    have bound: "set is \<subseteq> {..<length rs}" using members [OF l(1)] by (auto simp: l(2))
    have "\<forall>l' < length gs. l \<noteq> l' \<longrightarrow> i \<notin> set (snd (gs ! l'))"
    proof (intro allI impI notI)
      fix l' assume l': "l' < length gs" "l \<noteq> l'" "i \<in> set (snd (gs ! l'))"
      then have "fst (gs ! l') = fst (gs ! l)" using members [OF l'(1)] keys by (simp add: l(2))
      moreover have "distinct (map fst gs)" using gok by (simp add: groups_ok_def omap_ok_distinct)
      ultimately show False using l' l(1) by (metis length_map nth_eq_iff_index_eq nth_map)
    qed
    then have "rows ! i = row_of (rs ! i) l (row_fields_of rs (map fst m) is)"
      using fold_add_layout(4) [OF f l(1), of i] i_in i by (simp add: l(2))
    then obtain e where e: "decode_row layouts (rows ! i) =
        Inr (jobj [(''line'', jnat (r_line (rs ! i))), (''event'', JObj e)])" "js_eq_fields e m"
        "\<forall>kv \<in> set e. \<exists>r \<in> set rs. snd kv = jidx (r_event r) (fst kv)"
      using decode_row_of [OF i_in refl m rok(2,1), of l layouts] l bound by (auto simp: lay)
    have "same_record rs (rs ! i) (jobj [(''line'', jnat (r_line (rs ! i))), (''event'', JObj e)])"
    proof -
      have "e = m" if "\<forall>r \<in> set rs. no_neg_zero (r_event r)"
      proof (rule js_eq_eq(3) [OF e(2)])
        show "no_neg_zero_fields e" using e(3) that by (auto simp: no_neg_zero_fields_iff jidx_no_neg_zero)
        show "no_neg_zero_fields m" using that i m by (metis nth_mem no_neg_zero.simps(3))
      qed
      then show ?thesis using e(2) by (auto simp: same_record_def record_value_def obj_of_def m jnat_def)
    qed
    with e(1) show ?thesis by blast
  qed
  define vs where "vs = map (\<lambda>i. projr (decode_row layouts (rows ! i))) [0..<length rs]"
  have "mapE (decode_row layouts) rows = Inr vs"
    using len by (auto simp: mapE_Inr_iff list_all2_conv_all_nth vs_def dest!: one)
  moreover have "list_all2 (same_record rs) rs vs"
    by (auto simp: list_all2_conv_all_nth vs_def dest!: one)
  ultimately show ?thesis by blast
qed

section \<open>Whole pages\<close>

definition page_meta :: "page \<Rightarrow> jobject" where
  "page_meta p = omap_remove ''records'' (obj_of
     [(''session_id'', JStr (p_session_id p)), (''source'', JStr (p_source p)),
      (''source_path'', JStr (p_source_path p)), (''view'', JStr (p_view p)),
      (''offset'', jnat (p_offset p)),
      (''next_offset'', case p_next_offset p of None \<Rightarrow> JNull | Some n \<Rightarrow> jnat n),
      (''warnings'', JArr (map JStr (p_warnings p)))])"

lemma page_meta_ok [simp]: "omap_ok (page_meta p)"
  by (simp add: page_meta_def)

lemma page_meta_none [simp]:
  "map_of (page_meta p) ''records'' = None" "map_of (page_meta p) ''encoding'' = None"
  "map_of (page_meta p) ''row_fields'' = None" "map_of (page_meta p) ''layouts'' = None"
  "map_of (page_meta p) ''rows'' = None" "map_of (page_meta p) ''guide'' = None"
  by (simp_all add: page_meta_def obj_of_map_of)

lemma page_value_meta: "page_value p = JObj (omap_insert ''records'' (JArr (map record_value (p_records p))) (page_meta p))"
  unfolding page_value_def page_meta_def
  by (auto intro!: omap_ext simp: obj_of_map_of fun_eq_iff)

definition page_with :: "page \<Rightarrow> json list \<Rightarrow> json" where
  "page_with p vs = JObj (omap_insert ''records'' (JArr vs) (page_meta p))"

lemma page_with_same:
  assumes "list_all2 (same_record (p_records p)) (p_records p) vs"
  shows "js_eq (page_with p vs) (page_value p)" and "exact_numbers p \<Longrightarrow> page_with p vs = page_value p"
proof -
  have "js_eq_list vs (map record_value (p_records p))"
    using assms by (auto simp: js_eq_list_iff list_all2_conv_all_nth same_record_def)
  then have "js_eq_fields (omap_insert ''records'' (JArr vs) (page_meta p))
      (omap_insert ''records'' (JArr (map record_value (p_records p))) (page_meta p))"
    by (intro omap_js_eq) (auto split: if_splits)
  then show "js_eq (page_with p vs) (page_value p)" by (simp add: page_with_def page_value_meta)
  assume "exact_numbers p"
  then have "list_all2 (\<lambda>r v. v = record_value r) (p_records p) vs"
    using assms by (auto simp: exact_numbers_def same_record_def elim: list_all2_mono)
  then have "vs = map record_value (p_records p)"
    by (auto simp: list_all2_conv_all_nth intro: nth_equalityI)
  then show "page_with p vs = page_value p" by (simp add: page_with_def page_value_meta)
qed

lemma decode_rows_packet:
  assumes "mapE (decode_row layouts) rows = Inr vs"
  shows "decode_rows (rows_packet (page_value p) layouts rows) = Inr (page_with p vs)"
    and "jidx (rows_packet (page_value p) layouts rows) ''encoding'' = JStr ''innen.rows.v1''"
    and "\<exists>m. rows_packet (page_value p) layouts rows = JObj m"
proof -
  define m where "m = omap_insert ''rows'' (JArr rows) (omap_insert ''layouts'' (JArr layouts)
    (omap_insert ''row_fields'' (JArr [JStr ''line'', JStr ''layout'', JStr ''values''])
    (omap_insert ''encoding'' (JStr ''innen.rows.v1'')
    (omap_remove ''records'' (omap_insert ''records'' (JArr (map record_value (p_records p))) (page_meta p))))))"
  have p: "rows_packet (page_value p) layouts rows = JObj m"
    by (simp add: rows_packet_def page_value_meta m_def)
  have "omap_ok m" by (simp add: m_def)
  then have "omap_insert ''records'' (JArr vs) (fold omap_remove [''encoding'', ''row_fields'', ''layouts'', ''rows'', ''guide''] m)
      = omap_insert ''records'' (JArr vs) (page_meta p)"
    by (intro omap_ext) (auto simp: m_def fun_eq_iff)
  then show "decode_rows (rows_packet (page_value p) layouts rows) = Inr (page_with p vs)"
    using assms by (simp add: decode_rows_def p page_with_def) (simp add: m_def jidx_def)
  show "jidx (rows_packet (page_value p) layouts rows) ''encoding'' = JStr ''innen.rows.v1''"
    by (simp add: p) (simp add: m_def jidx_def)
  show "\<exists>m. rows_packet (page_value p) layouts rows = JObj m" by (simp add: p)
qed

text \<open>What each stage decodes to, stated for the stages that follow it.\<close>

definition reads_as :: "(json \<Rightarrow> string) \<Rightarrow> page \<Rightarrow> json \<Rightarrow> bool" where
  "reads_as ser p packed \<longleftrightarrow> (\<exists>m. packed = JObj m) \<and>
     (\<exists>vs. decode_page packed = Inr (page_with p vs) \<and> list_all2 (same_record (p_records p)) (p_records p) vs) \<and>
     length (ser packed) \<le> length (ser (page_value p))"

lemma reads_as_plain: "reads_as ser p (page_value p)"
proof -
  have "jget (page_value p) ''encoding'' = None" by (simp add: page_value_meta)
  then have "decode_page (page_value p) = Inr (page_with p (map record_value (p_records p)))"
    by (subst decode_page.simps) (simp add: jidx_def page_with_def page_value_meta)
  moreover have "list_all2 (same_record (p_records p)) (p_records p) (map record_value (p_records p))"
    by (simp add: list_all2_conv_all_nth same_record_def)
  ultimately show ?thesis by (auto simp: reads_as_def page_value_meta)
qed

lemma reads_as_strings:
  assumes "reads_as ser p v" and "jidx v ''encoding'' \<noteq> JStr ''innen.strings.v1''"
  shows "reads_as ser p (factor_strings ser v)"
proof (cases "factor_strings ser v = v")
  case False
  obtain m where v: "v = JObj m" using assms(1) by (auto simp: reads_as_def)
  define key where "key = fresh_key (collect_keys v []) ''$text''"
  define texts where "texts = repeated_texts v"
  let ?packed = "strings_packet key texts (rewrite (mark_with key jnat (zip texts [0..<length texts])) v)"
  have f: "factor_strings ser v = ?packed" "length (ser ?packed) < length (ser v)"
    using False by (auto simp: factor_strings_def Let_def key_def texts_def split: if_splits)
  have "key \<notin> jkeys v"
    using fresh_key_new [of "collect_keys v []" "''$text''"] by (simp only: key_def collect_keys_set) simp
  then have "decode_strings ?packed = Inr v"
    using assms(2) unfolding v by (rule decode_strings_packet)
  then have "decode_page ?packed = decode_page v" by (subst decode_page.simps) simp
  then show ?thesis using assms(1) f by (auto simp: reads_as_def strings_packet_def)
qed (simp add: assms)

lemma reads_as_deltas:
  assumes "reads_as ser p v"
  shows "reads_as ser p (encode_deltas ser v)"
proof -
  obtain m where v: "v = JObj m" using assms by (auto simp: reads_as_def)
  show ?thesis
  proof (cases "encode_deltas ser v = v")
    case False
    then have "jidx (encode_deltas ser v) ''encoding'' = JStr ''innen.edges.v1''"
        "decode_edges (encode_deltas ser v) = Inr v" "length (ser (encode_deltas ser v)) < length (ser v)"
      using encode_deltas_packs [of ser m] by (auto simp: packs_def v)
    moreover from this have "decode_page (encode_deltas ser v) = decode_page v"
      by (subst decode_page.simps) simp
    moreover have "\<exists>n. encode_deltas ser v = JObj n"
      using calculation(1) by (cases "encode_deltas ser v") (auto simp: jidx_def)
    ultimately show ?thesis using assms by (auto simp: reads_as_def)
  qed (simp add: assms)
qed

lemma reads_as_encode:
  assumes "page_ok p"
  shows "reads_as ser p (encode_page ser p)"
proof (cases "group_records 0 (p_records p) []")
  case None
  then show ?thesis using reads_as_plain by (simp add: encode_page_def Let_def)
next
  case (Some gs)
  obtain layouts rows where f: "fold (add_layout (p_records p)) gs ([], replicate (length (p_records p)) JNull) = (layouts, rows)"
    by (cases "fold (add_layout (p_records p)) gs ([], replicate (length (p_records p)) JNull)")
  obtain vs where vs: "mapE (decode_row layouts) rows = Inr vs" "list_all2 (same_record (p_records p)) (p_records p) vs"
    using decode_rows_of [OF Some f] assms by (auto simp: page_ok_def)
  let ?packed = "rows_packet (page_value p) layouts rows"
  note dec = decode_rows_packet [OF vs(1), of p]
  define best where "best = (if length (ser ?packed) < length (ser (page_value p)) then ?packed else page_value p)"
  have "reads_as ser p best"
  proof (cases "best = page_value p")
    case False
    then have b: "best = ?packed" "length (ser ?packed) < length (ser (page_value p))"
      by (auto simp: best_def split: if_splits)
    obtain enc where "jget ?packed ''encoding'' = Some enc" using dec(2) by (auto simp: jidx_def split: option.splits)
    then have "decode_page ?packed = Inr (page_with p vs)"
      by (subst decode_page.simps) (simp add: dec(1,2))
    then show ?thesis using b vs(2) dec(3) by (auto simp: reads_as_def)
  qed (simp add: reads_as_plain)
  moreover have "jidx best ''encoding'' \<noteq> JStr ''innen.strings.v1''"
    using dec(2) by (auto simp: best_def page_value_meta jidx_def)
  ultimately have "reads_as ser p (factor_strings ser best)" by (rule reads_as_strings)
  then show ?thesis by (simp add: encode_page_def Some f Let_def best_def)
qed

section \<open>Guides are framing only\<close>

lemma omap_remove_insert: "omap_remove k (omap_insert k v m) = omap_remove k m"
  by (induction m) (auto simp: omap_remove_def)

lemma omap_remove_commute: "omap_remove a (omap_remove b m) = omap_remove b (omap_remove a m)"
  by (simp add: omap_remove_def conj_commute)

lemma decode_page_guide: "decode_page (JObj (omap_insert ''guide'' g m)) = decode_page (JObj m)"
  if "map_of m ''encoding'' = Some enc"
proof -
  let ?v = "JObj (omap_insert ''guide'' g m)"
  have same: "jidx ?v k = jidx (JObj m) k" "jget ?v k = map_of m k" if "k \<noteq> ''guide''" for k
    using that by (simp_all add: jidx_def)
  have strings: "decode_strings ?v = decode_strings (JObj m)"
    by (simp add: decode_strings_def jidx_def cong: if_cong)
  have edges: "decode_edges ?v = decode_edges (JObj m)" if "jidx (JObj m) ''encoding'' = JStr ''innen.edges.v1''"
    using that by (simp add: decode_edges_def jidx_def cong: if_cong)
  have "fold omap_remove [''encoding'', ''row_fields'', ''layouts'', ''rows'', ''guide''] (omap_insert ''guide'' g m)
      = omap_remove ''rows'' (omap_remove ''layouts'' (omap_remove ''row_fields'' (omap_remove ''encoding''
          (omap_remove ''guide'' (omap_insert ''guide'' g m)))))"
    by (simp add: omap_remove_commute [of "''guide''"])
  also have "\<dots> = fold omap_remove [''encoding'', ''row_fields'', ''layouts'', ''rows'', ''guide''] m"
    by (simp add: omap_remove_insert omap_remove_commute [of "''guide''"])
  finally have "decode_rows ?v = decode_rows (JObj m)" by (simp add: decode_rows_def same)
  then show ?thesis using that edges
    by (subst (1 2) decode_page.simps) (simp add: same strings cong: if_cong)
qed

lemma decode_page_with_guide: "decode_page (with_guide v) = decode_page v"
proof (cases "guides_of v")
  case (Cons g gs)
  then have "as_str (jidx v ''encoding'') \<noteq> None" by (subst (asm) guides_of.simps) (auto split: option.splits)
  then obtain m enc where v: "v = JObj m" and "map_of m ''encoding'' = Some enc"
    by (cases v) (auto simp: jidx_def split: option.splits)
  then show ?thesis using Cons by (simp add: with_guide_def decode_page_guide)
qed (simp add: with_guide_def)

section \<open>Properties\<close>

text \<open>C6. The page codec loses nothing: when every record has a positive line and a well formed event,
  the compacted and edge factored page, guide included, decodes to the plain page, with numbers
  equal as the program compares them, and exactly to it when no number is a negative zero; the
  encoding before the guide is never printed longer than the plain page.\<close>

theorem decode_encode_page:
  assumes "\<forall>r \<in> set (p_records p). 0 < r_line r \<and> wf_json (r_event r)"
  shows "\<exists>v. decode_page (with_guide (encode_deltas ser (encode_page ser p))) = Inr v \<and>
      js_eq v (page_value p) \<and>
      ((\<forall>r \<in> set (p_records p). no_neg_zero (r_event r)) \<longrightarrow> v = page_value p) \<and>
      length (ser (encode_deltas ser (encode_page ser p))) \<le> length (ser (page_value p))"
proof -
  have "page_ok p" using assms by (simp add: page_ok_def)
  then have "reads_as ser p (encode_deltas ser (encode_page ser p))"
    by (intro reads_as_deltas reads_as_encode)
  then show ?thesis
    using page_with_same by (auto simp: reads_as_def exact_numbers_def decode_page_with_guide)
qed

definition demo_page :: page where
  "demo_page = \<lparr>p_session_id = ''s'', p_source = ''Codex'', p_source_path = ''a.jsonl'', p_view = ''events'',
     p_offset = 0, p_next_offset = None,
     p_records = [\<lparr>r_line = 1, r_event = JObj [(''n'', jnat 1), (''t'', JStr ''x'')]\<rparr>,
                  \<lparr>r_line = 3, r_event = JObj [(''n'', jnat 2), (''t'', JStr ''x'')]\<rparr>],
     p_warnings = []\<rparr>"

theorem decode_encode_page_witness:
  "decode_page (with_guide (encode_deltas (\<lambda>v. ''x'') (encode_page (\<lambda>v. ''x'') demo_page))) = Inr (page_value demo_page)"
proof -
  have "\<forall>r \<in> set (p_records demo_page). 0 < r_line r \<and> wf_json (r_event r)"
    and "\<forall>r \<in> set (p_records demo_page). no_neg_zero (r_event r)"
    by (simp_all add: demo_page_def jnat_def)
  then show ?thesis using decode_encode_page [of demo_page "\<lambda>v. ''x''"] by auto
qed

end
