(* ===== verification/Ledger_Model.thy ===== *)
theory Ledger_Model
  imports Journal
begin

text \<open>
  The archive ledger's data, files and projection
  (\<open>crates/innen-core/src/artifact/ledger/{model,fs,state}.rs\<close>).  A ledger lives in one archive
  directory: a manifest that names it, an append-only log of receipts and events, and two
  projections of the log, an index and a section of a timeline.  Paths are their components;
  what the file system says about a path, the content of the files that receipts describe, and
  the derived printers and parsers are bundled in the record \<open>ledger_env\<close>.  Every operation
  holds the exclusive lock while it writes, so operations are sequential steps on the state.
\<close>

section \<open>Data\<close>

datatype ledger_error =
    LIo io_error
  | LInvalid string
  | LConflict string
  | LDownloads string
  | LHashMismatch string string
  | ProjectionAfterAppend ledger_error

datatype lifecycle_stage = Intake | Authoring | Verification | Delivery

datatype source_kind = KDocument | KEvent | KDataset | KOther

record receipt =
  rc_id :: string
  rc_document_id :: "string option"
  rc_path :: string
  rc_sha256 :: string
  rc_bytes :: nat
  rc_source_kind :: source_kind
  rc_role :: string
  rc_stage :: lifecycle_stage
  rc_owner_project :: string
  rc_relation :: string
  rc_observed_utc :: string
  rc_document_date :: "string option"
  rc_authority :: "string option"
  rc_evidence_status :: "string option"
  rc_provenance :: "string option"
  rc_approval_valid_from :: "string option"
  rc_approval_valid_until :: "string option"

record event_record =
  ev_sequence :: nat
  ev_kind :: string
  ev_receipt_id :: string
  ev_observed_utc :: string
  ev_event_date :: "string option"
  ev_supersedes :: "string option"
  ev_new_path :: "string option"
  ev_expected_sha256 :: "string option"
  ev_note :: "string option"
  ev_new_owner_project :: "string option"
  ev_new_relation :: "string option"
  ev_provenance :: "string option"

record file_event =
  fe_magic :: string
  fe_receipt :: "receipt option"
  fe_event :: "event_record option"

record projection =
  pj_magic :: string
  pj_project_id :: string
  pj_title :: string
  pj_categories :: "string list"
  pj_receipts :: "receipt list"
  pj_events :: "event_record list"

definition MAGIC :: string where
  "MAGIC = ''innen-project-ledger-v1''"

definition LEDGER_BEGIN :: string where
  "LEDGER_BEGIN = ''<!-- innen-ledger:start -->''"

definition LEDGER_END :: string where
  "LEDGER_END = ''<!-- innen-ledger:end -->''"

text \<open>The archive directory's own files, and an opened ledger.\<close>

record archive =
  manifest_file :: "string option"
  events_file :: "string option"
  timeline_file :: "string option"
  index_file :: "string option"
  legacy_index_file :: "string option"

record ledger =
  lg_root :: "string list"
  lg_downloads_root :: "string list"
  lg_legacy_index :: bool

text \<open>A path: absolute or not, and its components.\<close>

datatype path = Path (is_absolute: bool) (comps: "string list")

record ledger_env =
  le_sha :: "string \<Rightarrow> 8 word list"
  le_exists :: "string list \<Rightarrow> bool"
  le_canonicalize :: "string list \<Rightarrow> io_error + string list"
  le_content :: "string list \<Rightarrow> io_error + string"
  le_home :: "string list"
  le_event_text :: "file_event \<Rightarrow> string"
  le_event_parse :: "string \<Rightarrow> string + file_event"
  le_projection_text :: "projection \<Rightarrow> string"
  le_projection_parse :: "string \<Rightarrow> string + projection"
  le_replace :: "string \<Rightarrow> io_error option"

section \<open>Paths and files\<close>

definition display_path :: "path \<Rightarrow> string" where
  "display_path p = (if is_absolute p then ''/'' else []) @ join_with ''/'' (comps p)"

definition shown :: "string list \<Rightarrow> string" where
  "shown cs = display_path (Path True cs)"

text \<open>The nearest existing ancestor, and the file names below it (\<open>..\<close> has no file name).\<close>

fun nearest_existing :: "(string list \<Rightarrow> bool) \<Rightarrow> string list \<Rightarrow> string list \<Rightarrow> (string list \<times> string list) option" where
  "nearest_existing ex [] tail = (if ex [] then Some ([], tail) else None)"
| "nearest_existing ex (c # up) tail =
     (if ex (rev (c # up)) then Some (rev (c # up), tail)
      else nearest_existing ex up (if c = ''..'' then tail else c # tail))"

definition absolute :: "ledger_env \<Rightarrow> path \<Rightarrow> ledger_error + string list" where
  "absolute E p =
     (if \<not> is_absolute p then Inl (LInvalid (''path must be absolute: '' @ display_path p))
      else
        bindE (ok_or (LInvalid ''cannot resolve path'') (nearest_existing (le_exists E) (rev (comps p)) []))
          (\<lambda>(cur, tail). bindE (mapErr LIo (le_canonicalize E cur)) (\<lambda>out. Inr (out @ tail))))"

definition under :: "string list \<Rightarrow> string list \<Rightarrow> bool" where
  "under p b \<longleftrightarrow> p = b \<or> prefix b p"

definition default_downloads :: "ledger_env \<Rightarrow> ledger_error + string list" where
  "default_downloads E = absolute E (Path True (le_home E @ [''Downloads'']))"

definition hash_file :: "ledger_env \<Rightarrow> string list \<Rightarrow> io_error + string \<times> nat" where
  "hash_file E p = bindE (le_content E p) (\<lambda>c. Inr (sha256_hex (le_sha E) c, length c))"

definition replace_file :: "ledger_env \<Rightarrow> string \<Rightarrow> ledger_error + unit" where
  "replace_file E name = (case le_replace E name of None \<Rightarrow> Inr () | Some e \<Rightarrow> Inl (LIo e))"

section \<open>Reading the log\<close>

definition log_events :: "ledger_env \<Rightarrow> string \<Rightarrow> ledger_error + file_event list" where
  "log_events E content =
     mapE (\<lambda>line. mapErr LInvalid (le_event_parse E line)) (filter (\<lambda>l. trim l \<noteq> []) (lines content))"

definition read_manifest :: "ledger_env \<Rightarrow> archive \<Rightarrow> ledger_error + projection" where
  "read_manifest E st =
     bindE (ok_or (LIo NotFound) (manifest_file st)) (\<lambda>bytes. mapErr LInvalid (le_projection_parse E bytes))"

definition read_state :: "ledger_env \<Rightarrow> archive \<Rightarrow> ledger_error + projection \<times> receipt list \<times> event_record list" where
  "read_state E st =
     bindE (read_manifest E st) (\<lambda>p.
     bindE (mapErr LIo (read_to_string (events_file st))) (\<lambda>content.
     bindE (log_events E content) (\<lambda>fes.
     Inr (p, List.map_filter fe_receipt fes, List.map_filter fe_event fes))))"

section \<open>Projections\<close>

text \<open>The labels of the timeline, as UTF-8 bytes.\<close>

definition DATE_UNKNOWN :: string where
  "DATE_UNKNOWN =
     [CHR 0xE6, CHR 0x97, CHR 0xA5, CHR 0xE6, CHR 0x9C, CHR 0x9F, CHR 0xE6, CHR 0x9C,
     CHR 0xAA, CHR 0xE7, CHR 0x9F, CHR 0xA5]"

definition UNKNOWN :: string where
  "UNKNOWN =
     [CHR 0xE6, CHR 0x9C, CHR 0xAA, CHR 0xE7, CHR 0x9F, CHR 0xA5]"

definition L_DOC_DATE :: string where
  "L_DOC_DATE =
     ''- '' @ [CHR 0xE6, CHR 0x96, CHR 0x87, CHR 0xE4, CHR 0xBB, CHR 0xB6, CHR 0xE6,
     CHR 0x97, CHR 0xA5, CHR 0xE6, CHR 0x9C, CHR 0x9F] @ ''=''"

definition L_RECEIVED :: string where
  "L_RECEIVED =
     [CHR 0xEF, CHR 0xBD, CHR 0x9C, CHR 0xE6, CHR 0x94, CHR 0xB6, CHR 0xE4, CHR 0xBB,
     CHR 0xB6, CHR 0xE6, CHR 0x99, CHR 0x82, CHR 0xE9, CHR 0x96, CHR 0x93] @ ''=''"

definition L_FILE :: string where
  "L_FILE =
     [CHR 0xEF, CHR 0xBD, CHR 0x9C, CHR 0xE6, CHR 0xAA, CHR 0x94, CHR 0xE6, CHR 0xA1,
     CHR 0x88] @ ''=''"

definition L_DOC_ID :: string where
  "L_DOC_ID =
     [CHR 0xEF, CHR 0xBD, CHR 0x9C, CHR 0xE6, CHR 0x96, CHR 0x87, CHR 0xE4, CHR 0xBB,
     CHR 0xB6, CHR 0xE8, CHR 0xAD, CHR 0x98, CHR 0xE5, CHR 0x88, CHR 0xA5] @ ''=''"

definition L_ROLE :: string where
  "L_ROLE =
     [CHR 0xEF, CHR 0xBD, CHR 0x9C, CHR 0xE8, CHR 0xA7, CHR 0x92, CHR 0xE8, CHR 0x89,
     CHR 0xB2] @ ''=''"

definition L_STAGE :: string where
  "L_STAGE =
     [CHR 0xEF, CHR 0xBD, CHR 0x9C, CHR 0xE7, CHR 0x8B, CHR 0x80, CHR 0xE6, CHR 0x85,
     CHR 0x8B] @ ''=''"

definition L_RECEIPT :: string where
  "L_RECEIPT =
     [CHR 0xEF, CHR 0xBD, CHR 0x9C, CHR 0xE6, CHR 0x94, CHR 0xB6, CHR 0xE6, CHR 0x93,
     CHR 0x9A] @ ''=''"

definition L_PATH :: string where
  "L_PATH =
     [CHR 0xEF, CHR 0xBD, CHR 0x9C, CHR 0xE8, CHR 0xB7, CHR 0xAF, CHR 0xE5, CHR 0xBE,
     CHR 0x91] @ ''=''"

definition L_EVENT_DATE :: string where
  "L_EVENT_DATE =
     ''- '' @ [CHR 0xE4, CHR 0xBA, CHR 0x8B, CHR 0xE4, CHR 0xBB, CHR 0xB6, CHR 0xE6,
     CHR 0x97, CHR 0xA5, CHR 0xE6, CHR 0x9C, CHR 0x9F] @ ''=''"

definition L_EVENT :: string where
  "L_EVENT =
     [CHR 0xEF, CHR 0xBD, CHR 0x9C, CHR 0xE4, CHR 0xBA, CHR 0x8B, CHR 0xE4, CHR 0xBB,
     CHR 0xB6] @ ''=''"

definition L_OBSERVED :: string where
  "L_OBSERVED =
     [CHR 0xEF, CHR 0xBD, CHR 0x9C, CHR 0xE8, CHR 0xA7, CHR 0x80, CHR 0xE5, CHR 0xAF,
     CHR 0x9F, CHR 0xE6, CHR 0x99, CHR 0x82, CHR 0xE9, CHR 0x96, CHR 0x93] @ ''=''"

definition L_OWNER :: string where
  "L_OWNER =
     '' | '' @ [CHR 0xE6, CHR 0x96, CHR 0xB0, CHR 0xE6, CHR 0xAD, CHR 0xB8, CHR 0xE5,
     CHR 0xB1, CHR 0xAC] @ ''=''"

definition L_RELATION :: string where
  "L_RELATION =
     '' | '' @ [CHR 0xE6, CHR 0x96, CHR 0xB0, CHR 0xE9, CHR 0x97, CHR 0x9C, CHR 0xE4,
     CHR 0xBF, CHR 0x82] @ ''=''"

definition L_BASIS :: string where
  "L_BASIS =
     '' | '' @ [CHR 0xE6, CHR 0x9B, CHR 0xB4, CHR 0xE6, CHR 0xAD, CHR 0xA3, CHR 0xE4,
     CHR 0xBE, CHR 0x9D, CHR 0xE6, CHR 0x93, CHR 0x9A] @ ''=''"

fun stage_debug :: "lifecycle_stage \<Rightarrow> string" where
  "stage_debug Intake = ''Intake''"
| "stage_debug Authoring = ''Authoring''"
| "stage_debug Verification = ''Verification''"
| "stage_debug Delivery = ''Delivery''"

definition or_else :: "string option \<Rightarrow> string \<Rightarrow> string" where
  "or_else x d = (case x of None \<Rightarrow> d | Some s \<Rightarrow> s)"

definition receipt_row :: "receipt \<Rightarrow> string \<times> string" where
  "receipt_row r =
     (or_else (rc_document_date r) DATE_UNKNOWN,
      L_DOC_DATE @ or_else (rc_document_date r) DATE_UNKNOWN @ L_RECEIVED @ rc_observed_utc r @
      L_FILE @ last (split_char (CHR ''/'') (rc_path r)) @ L_DOC_ID @ or_else (rc_document_id r) UNKNOWN @
      L_ROLE @ rc_role r @ L_STAGE @ stage_debug (rc_stage r) @ L_RECEIPT @ rc_id r @ L_PATH @ rc_path r @
      [CHR 0x0A])"

definition labelled :: "string \<Rightarrow> string option \<Rightarrow> string" where
  "labelled l x = (case x of None \<Rightarrow> [] | Some s \<Rightarrow> l @ s)"

definition event_row :: "event_record \<Rightarrow> string \<times> string" where
  "event_row e =
     (or_else (ev_event_date e) DATE_UNKNOWN,
      L_EVENT_DATE @ or_else (ev_event_date e) DATE_UNKNOWN @ L_EVENT @ ev_kind e @ L_RECEIPT @ ev_receipt_id e @
      L_OBSERVED @ ev_observed_utc e @ labelled '' | '' (ev_note e) @ labelled L_OWNER (ev_new_owner_project e) @
      labelled L_RELATION (ev_new_relation e) @ labelled L_BASIS (ev_provenance e) @ [CHR 0x0A])"

definition timeline_body :: "receipt list \<Rightarrow> event_record list \<Rightarrow> string" where
  "timeline_body rs es = concat (map snd (sort_key fst (map receipt_row rs @ map event_row es)))"

text \<open>The text kept around the ledger's section, and the new timeline.\<close>

definition kept_text :: "string \<Rightarrow> string" where
  "kept_text old =
     (case (split_once old LEDGER_BEGIN, split_once old LEDGER_END) of
        (Some (before, _), Some (_, after)) \<Rightarrow> before @ after
      | _ \<Rightarrow> old)"

definition timeline_text :: "string \<Rightarrow> string \<Rightarrow> string \<Rightarrow> string" where
  "timeline_text old title body =
     kept_text old @ LEDGER_BEGIN @ [CHR 0x0A] @ ''# '' @ title @ [CHR 0x0A] @ body @ LEDGER_END @ [CHR 0x0A]"

definition write_index :: "ledger \<Rightarrow> string \<Rightarrow> archive \<Rightarrow> archive" where
  "write_index lg c st = (if lg_legacy_index lg then st\<lparr>legacy_index_file := Some c\<rparr> else st\<lparr>index_file := Some c\<rparr>)"

definition old_timeline :: "archive \<Rightarrow> string" where
  "old_timeline st = (case read_to_string (timeline_file st) of Inl _ \<Rightarrow> [] | Inr s \<Rightarrow> s)"

definition project_ledger :: "ledger_env \<Rightarrow> ledger \<Rightarrow> archive \<Rightarrow> (ledger_error + unit) \<times> archive" where
  "project_ledger E lg st =
     (case read_state E st of
        Inl e \<Rightarrow> (Inl e, st)
      | Inr (p, rs, es) \<Rightarrow>
          (case replace_file E ''index'' of
             Inl e \<Rightarrow> (Inl e, st)
           | Inr _ \<Rightarrow>
               (let st1 = write_index lg (le_projection_text E (p\<lparr>pj_receipts := rs, pj_events := es\<rparr>)) st in
                case replace_file E ''timeline'' of
                  Inl e \<Rightarrow> (Inl e, st1)
                | Inr _ \<Rightarrow>
                    (Inr (), st1\<lparr>timeline_file :=
                       Some (timeline_text (old_timeline st1) (pj_title p) (timeline_body rs es))\<rparr>))))"

definition append_locked :: "ledger_env \<Rightarrow> ledger \<Rightarrow> file_event \<Rightarrow> archive \<Rightarrow> (ledger_error + unit) \<times> archive" where
  "append_locked E lg x st =
     (case events_file st of
        None \<Rightarrow> (Inl (LIo NotFound), st)
      | Some c \<Rightarrow>
          (let st1 = st\<lparr>events_file := Some (c @ le_event_text E x @ [CHR 0x0A])\<rparr>;
               (r, st2) = project_ledger E lg st1
           in (mapErr ProjectionAfterAppend r, st2)))"

end
