(* ===== verification/Ledger.thy ===== *)
theory Ledger
  imports Ledger_Model
begin

text \<open>
  The operations of the archive ledger (\<open>crates/innen-core/src/artifact/ledger/ops.rs\<close>):
  creating or opening a ledger, receipts, events, and the receipt views derived from them.
  \<open>ledger_run\<close> is the ledger's life: created, then any operations, each through a handle of
  its own and on the disk as it is at that moment (which files exist, what they hold, which
  replacements fail); what all of them share is the serializer and the digest.  Its invariant says that
  the log reads back as what was accepted, that receipt ids are unique and event numbers
  gapless, that events name receipts that exist, and that what \<open>belongs_to\<close> somebody belongs
  to this archive's project.
\<close>

section \<open>Operations\<close>

record init_options =
  io_root :: path
  io_project_id :: string
  io_title :: string
  io_downloads_root :: "path option"
  io_categories :: "string list"

record add_options =
  ao_path :: path
  ao_document_id :: "string option"
  ao_source_kind :: source_kind
  ao_role :: string
  ao_stage :: lifecycle_stage
  ao_owner_project :: string
  ao_relation :: string
  ao_document_date :: "string option"
  ao_authority :: "string option"
  ao_evidence_status :: "string option"
  ao_provenance :: "string option"
  ao_approval_valid_from :: "string option"
  ao_approval_valid_until :: "string option"
  ao_downloads_root :: "path option"

datatype ledger_event =
    Note string string "string option"
  | Supersede string string "string option"
  | Relocate string path string "string option"
  | Reclassify string "string option" string string "string option"

definition downloads_of :: "ledger_env \<Rightarrow> path option \<Rightarrow> ledger_error + string list \<Rightarrow> ledger_error + string list" where
  "downloads_of E given fallback = (case given of None \<Rightarrow> fallback | Some p \<Rightarrow> absolute E p)"

definition init_checks :: "ledger_env \<Rightarrow> init_options \<Rightarrow> ledger_error + string list \<times> string list" where
  "init_checks E opt =
     (if io_title opt = [] \<or> io_project_id opt = [] then Inl (LInvalid ''title and project_id are required'')
      else
        bindE (absolute E (io_root opt)) (\<lambda>root.
        if root = [] \<or> last root \<noteq> io_title opt \<or> last root = ''..''
        then Inl (LInvalid ''archive basename must equal exact title'')
        else
          bindE (case io_downloads_root opt of None \<Rightarrow> Inr None | Some p \<Rightarrow> bindE (absolute E p) (\<lambda>d. Inr (Some d))) (\<lambda>given.
          bindE (default_downloads E) (\<lambda>dflt.
          let dl = (case given of None \<Rightarrow> dflt | Some d \<Rightarrow> d) in
          if under root dl then Inl (LDownloads (shown root)) else Inr (root, dl)))))"

definition new_projection :: "init_options \<Rightarrow> projection" where
  "new_projection opt =
     \<lparr>pj_magic = MAGIC, pj_project_id = io_project_id opt, pj_title = io_title opt,
      pj_categories = io_categories opt, pj_receipts = [], pj_events = []\<rparr>"

definition ledger_init :: "ledger_env \<Rightarrow> init_options \<Rightarrow> archive \<Rightarrow> (ledger_error + ledger) \<times> archive" where
  "ledger_init E opt st =
     (case init_checks E opt of
        Inl e \<Rightarrow> (Inl e, st)
      | Inr (root, dl) \<Rightarrow>
          if manifest_file st \<noteq> None then
            (bindE (read_manifest E st) (\<lambda>p.
               if pj_magic p \<noteq> MAGIC then Inl (LInvalid ''ledger manifest magic mismatch'')
               else if pj_project_id p \<noteq> io_project_id opt \<or> pj_title p \<noteq> io_title opt
               then Inl (LConflict ''existing ledger identity differs'')
               else Inr \<lparr>lg_root = root, lg_downloads_root = dl,
                         lg_legacy_index = (index_file st = None \<and> legacy_index_file st \<noteq> None)\<rparr>), st)
          else if timeline_file st \<noteq> None \<or> index_file st \<noteq> None \<or> legacy_index_file st \<noteq> None \<or> events_file st \<noteq> None
          then (Inl (LConflict ''preexisting timeline/index is unrelated''), st)
          else
            (let lg = \<lparr>lg_root = root, lg_downloads_root = dl, lg_legacy_index = False\<rparr>;
                 st1 = st\<lparr>manifest_file := Some (le_projection_text E (new_projection opt))\<rparr>;
                 (r, st2) = project_ledger E lg (st1\<lparr>events_file := Some []\<rparr>)
             in (bindE r (\<lambda>_. Inr lg), st2)))"

definition RELATIONS :: "string list" where
  "RELATIONS = [''belongs_to'', ''reference'']"

definition blank :: "string \<Rightarrow> bool" where
  "blank s \<longleftrightarrow> trim s = []"

definition add_checks :: "ledger_env \<Rightarrow> ledger \<Rightarrow> add_options \<Rightarrow> archive \<Rightarrow> ledger_error + string list \<times> projection" where
  "add_checks E lg opt st =
     (if ao_relation opt = ''belongs_to'' \<and> blank (ao_owner_project opt) then Inl (LInvalid ''belongs_to owner is required'')
      else if blank (ao_role opt) \<or> blank (or_else (ao_provenance opt) []) then Inl (LInvalid ''role and provenance are required'')
      else if ao_relation opt \<notin> set RELATIONS then Inl (LInvalid ''relation must be belongs_to or reference'')
      else
        bindE (absolute E (ao_path opt)) (\<lambda>p.
        bindE (downloads_of E (ao_downloads_root opt) (Inr (lg_downloads_root lg))) (\<lambda>dl.
        if under p dl \<and> ao_stage opt \<noteq> Intake then Inl (LDownloads (shown p))
        else
          bindE (read_state E st) (\<lambda>(ident, _, _).
          if ao_relation opt = ''belongs_to'' \<and> ao_owner_project opt \<noteq> pj_project_id ident
          then Inl (LInvalid ''belongs_to owner must match archive project'')
          else Inr (p, ident)))))"

definition receipt_id :: "ledger_env \<Rightarrow> projection \<Rightarrow> string \<Rightarrow> nat \<Rightarrow> string" where
  "receipt_id E ident sha n =
     (let archive_key = sha256_hex (le_sha E) (pj_project_id ident @ [CHR 0x00] @ pj_title ident)
      in ''receipt:'' @ take 16 archive_key @ '':'' @ sha @ '':'' @ nat_digits (n + 1))"

definition new_receipt ::
  "ledger_env \<Rightarrow> nat \<Rightarrow> add_options \<Rightarrow> projection \<Rightarrow> string list \<Rightarrow> string \<Rightarrow> nat \<Rightarrow> nat \<Rightarrow> receipt" where
  "new_receipt E secs opt ident p sha bytes n =
     \<lparr>rc_id = receipt_id E ident sha n, rc_document_id = ao_document_id opt, rc_path = shown p, rc_sha256 = sha,
      rc_bytes = bytes, rc_source_kind = ao_source_kind opt, rc_role = ao_role opt, rc_stage = ao_stage opt,
      rc_owner_project = ao_owner_project opt, rc_relation = ao_relation opt, rc_observed_utc = format_utc secs,
      rc_document_date = ao_document_date opt, rc_authority = ao_authority opt,
      rc_evidence_status = ao_evidence_status opt, rc_provenance = ao_provenance opt,
      rc_approval_valid_from = ao_approval_valid_from opt, rc_approval_valid_until = ao_approval_valid_until opt\<rparr>"

text \<open>What \<open>add\<close> decides to log, and \<open>add\<close>.\<close>

definition receipt_to_add :: "ledger_env \<Rightarrow> ledger \<Rightarrow> nat \<Rightarrow> add_options \<Rightarrow> archive \<Rightarrow> ledger_error + receipt" where
  "receipt_to_add E lg secs opt st =
     bindE (add_checks E lg opt st) (\<lambda>(p, ident).
     bindE (mapErr LIo (hash_file E p)) (\<lambda>(sha, bytes).
     bindE (read_state E st) (\<lambda>(_, old, _).
     Inr (new_receipt E secs opt ident p sha bytes (length old)))))"

definition receipt_line :: "receipt \<Rightarrow> file_event" where
  "receipt_line r = \<lparr>fe_magic = MAGIC, fe_receipt = Some r, fe_event = None\<rparr>"

definition ledger_add :: "ledger_env \<Rightarrow> ledger \<Rightarrow> nat \<Rightarrow> add_options \<Rightarrow> archive \<Rightarrow> (ledger_error + receipt) \<times> archive" where
  "ledger_add E lg secs opt st =
     (case receipt_to_add E lg secs opt st of
        Inl e \<Rightarrow> (Inl e, st)
      | Inr r \<Rightarrow> (let (res, st') = append_locked E lg (receipt_line r) st in (bindE res (\<lambda>_. Inr r), st')))"

definition require_receipt :: "receipt list \<Rightarrow> string \<Rightarrow> ledger_error + receipt" where
  "require_receipt rs rid = ok_or (LInvalid (''unknown receipt '' @ rid)) (find (\<lambda>r. rc_id r = rid) rs)"

definition event_base :: "string \<Rightarrow> string \<Rightarrow> nat \<Rightarrow> string option \<Rightarrow> event_record" where
  "event_base kind rid secs date =
     \<lparr>ev_sequence = 0, ev_kind = kind, ev_receipt_id = rid, ev_observed_utc = format_utc secs,
      ev_event_date = date, ev_supersedes = None, ev_new_path = None, ev_expected_sha256 = None,
      ev_note = None, ev_new_owner_project = None, ev_new_relation = None, ev_provenance = None\<rparr>"

fun event_record_of ::
  "ledger_env \<Rightarrow> ledger \<Rightarrow> nat \<Rightarrow> projection \<Rightarrow> receipt list \<Rightarrow> ledger_event \<Rightarrow> ledger_error + event_record" where
  "event_record_of E lg secs ident rs (Note rid note date) =
     bindE (require_receipt rs rid) (\<lambda>_.
     Inr ((event_base ''note'' rid secs date)\<lparr>ev_note := Some note\<rparr>))"
| "event_record_of E lg secs ident rs (Supersede rid old date) =
     bindE (require_receipt rs rid) (\<lambda>a.
     bindE (require_receipt rs old) (\<lambda>b.
     if rid = old \<or> rc_owner_project a \<noteq> rc_owner_project b \<or> rc_owner_project a \<noteq> pj_project_id ident
     then Inl (LInvalid ''invalid self or cross-owner supersession'')
     else Inr ((event_base ''supersede'' rid secs date)\<lparr>ev_supersedes := Some old\<rparr>)))"
| "event_record_of E lg secs ident rs (Relocate rid new_path expected date) =
     bindE (require_receipt rs rid) (\<lambda>r.
     bindE (absolute E new_path) (\<lambda>p.
     if under p (lg_downloads_root lg) \<and> rc_stage r \<noteq> Intake then Inl (LDownloads (shown p))
     else
       bindE (mapErr LIo (hash_file E p)) (\<lambda>(actual, _).
       if actual \<noteq> expected \<or> actual \<noteq> rc_sha256 r then Inl (LHashMismatch expected actual)
       else Inr ((event_base ''relocate'' rid secs date)
                   \<lparr>ev_new_path := Some (shown p), ev_expected_sha256 := Some actual\<rparr>))))"
| "event_record_of E lg secs ident rs (Reclassify rid owner relation prov date) =
     bindE (require_receipt rs rid) (\<lambda>_.
     if blank prov \<or> relation \<notin> set RELATIONS
     then Inl (LInvalid ''reclassification requires provenance and a valid relation'')
     else if relation = ''belongs_to'' \<and> blank (or_else owner [])
     then Inl (LInvalid ''belongs_to reclassification requires owner'')
     else if relation = ''belongs_to'' \<and> owner \<noteq> Some (pj_project_id ident)
     then Inl (LInvalid ''belongs_to reclassification owner must match archive project'')
     else Inr ((event_base ''reclassify'' rid secs date)
                 \<lparr>ev_new_owner_project := owner, ev_new_relation := Some relation, ev_provenance := Some prov\<rparr>))"

definition event_to_append :: "ledger_env \<Rightarrow> ledger \<Rightarrow> nat \<Rightarrow> ledger_event \<Rightarrow> archive \<Rightarrow> ledger_error + event_record" where
  "event_to_append E lg secs x st =
     bindE (read_state E st) (\<lambda>(ident, rs, es).
     bindE (event_record_of E lg secs ident rs x) (\<lambda>e.
     Inr (e\<lparr>ev_sequence := length es + 1\<rparr>)))"

definition event_line :: "event_record \<Rightarrow> file_event" where
  "event_line e = \<lparr>fe_magic = MAGIC, fe_receipt = None, fe_event = Some e\<rparr>"

definition append_event :: "ledger_env \<Rightarrow> ledger \<Rightarrow> nat \<Rightarrow> ledger_event \<Rightarrow> archive \<Rightarrow> (ledger_error + event_record) \<times> archive" where
  "append_event E lg secs x st =
     (case event_to_append E lg secs x st of
        Inl e \<Rightarrow> (Inl e, st)
      | Inr e \<Rightarrow>
          (let (res, st') = append_locked E lg (event_line e) st in
           (bindE res (\<lambda>_. bindE (read_state E st') (\<lambda>(_, _, es).
              ok_or (LInvalid ''event append produced no event'') (if es = [] then None else Some (last es)))), st')))"

section \<open>Views\<close>

definition effective_step :: "event_record \<Rightarrow> receipt \<Rightarrow> receipt" where
  "effective_step e r =
     (if ev_kind e = ''relocate'' then
        (case ev_new_path e of None \<Rightarrow> r | Some p \<Rightarrow> r\<lparr>rc_path := p\<rparr>)
      else if ev_kind e = ''reclassify'' then
        (let r1 = (case ev_new_owner_project e of None \<Rightarrow> r | Some opt \<Rightarrow> r\<lparr>rc_owner_project := opt\<rparr>);
             r2 = (case ev_new_relation e of None \<Rightarrow> r1 | Some x \<Rightarrow> r1\<lparr>rc_relation := x\<rparr>)
         in (case ev_provenance e of None \<Rightarrow> r2 | Some x \<Rightarrow> r2\<lparr>rc_provenance := Some x\<rparr>))
      else r)"

definition effective_receipt :: "receipt \<Rightarrow> event_record list \<Rightarrow> receipt" where
  "effective_receipt r es = fold effective_step (filter (\<lambda>e. ev_receipt_id e = rc_id r) es) r"

definition current_path :: "receipt \<Rightarrow> event_record list \<Rightarrow> string" where
  "current_path r es =
     (let moves = filter (\<lambda>e. ev_kind e = ''relocate'' \<and> ev_receipt_id e = rc_id r) es in
      or_else (if moves = [] then None else ev_new_path (last moves)) (rc_path r))"

definition read_receipt :: "ledger_env \<Rightarrow> archive \<Rightarrow> string \<Rightarrow> ledger_error + receipt" where
  "read_receipt E st rid =
     bindE (read_state E st) (\<lambda>(_, rs, es). bindE (require_receipt rs rid) (\<lambda>r. Inr (effective_receipt r es)))"

record check_report =
  cr_active :: nat
  cr_missing :: "string list"
  cr_changed :: "string list"
  cr_superseded :: "string list"

definition superseded :: "event_record list \<Rightarrow> receipt \<Rightarrow> bool" where
  "superseded es r \<longleftrightarrow> list_ex (\<lambda>e. ev_kind e = ''supersede'' \<and> ev_supersedes e = Some (rc_id r)) es"

text \<open>\<open>Path::new\<close> of an absolute path's text: its components.\<close>

definition path_comps :: "string \<Rightarrow> string list" where
  "path_comps s = filter (\<lambda>c. c \<noteq> [] \<and> c \<noteq> ''.'') (split_char (CHR ''/'') s)"

definition check_receipt ::
  "ledger_env \<Rightarrow> event_record list \<Rightarrow> receipt \<Rightarrow> check_report \<Rightarrow> ledger_error + check_report" where
  "check_receipt E es r out =
     (if superseded es r then Inr (out\<lparr>cr_superseded := cr_superseded out @ [rc_id r]\<rparr>)
      else
        (let out = out\<lparr>cr_active := cr_active out + 1\<rparr> in
         case hash_file E (path_comps (current_path r es)) of
           Inr (s, _) \<Rightarrow> if s \<noteq> rc_sha256 r then Inr (out\<lparr>cr_changed := cr_changed out @ [rc_id r]\<rparr>) else Inr out
         | Inl NotFound \<Rightarrow> Inr (out\<lparr>cr_missing := cr_missing out @ [rc_id r]\<rparr>)
         | Inl e \<Rightarrow> Inl (LIo e)))"

definition ledger_check :: "ledger_env \<Rightarrow> archive \<Rightarrow> ledger_error + check_report" where
  "ledger_check E st =
     bindE (read_state E st) (\<lambda>(_, rs, es).
     foldE (check_receipt E es) rs \<lparr>cr_active = 0, cr_missing = [], cr_changed = [], cr_superseded = []\<rparr>)"

section \<open>The log reads back\<close>

definition event_codec_ok :: "ledger_env \<Rightarrow> file_event \<Rightarrow> bool" where
  "event_codec_ok E x \<longleftrightarrow> le_event_parse E (le_event_text E x) = Inr x \<and> one_line (le_event_text E x) \<and>
     trim (le_event_text E x) \<noteq> [] \<and> valid_utf8 (le_event_text E x)"

text \<open>The archive holds the ledger named by \<open>p\<close> with the log \<open>fes\<close>.\<close>

definition holds :: "ledger_env \<Rightarrow> archive \<Rightarrow> projection \<Rightarrow> file_event list \<Rightarrow> bool" where
  "holds E st p fes \<longleftrightarrow> read_manifest E st = Inr p \<and>
     events_file st = Some (unlines (map (le_event_text E) fes)) \<and> (\<forall>x \<in> set fes. event_codec_ok E x)"

lemma holds_read_state:
  assumes "holds E st p fes"
  shows "read_state E st = Inr (p, List.map_filter fe_receipt fes, List.map_filter fe_event fes)"
proof -
  let ?text = "le_event_text E"
  have "lines (unlines (map ?text fes)) = map ?text fes"
    using assms by (intro lines_unlines) (auto simp: holds_def event_codec_ok_def)
  moreover have "filter (\<lambda>l. trim l \<noteq> []) (map ?text fes) = map ?text fes"
    using assms by (auto simp: holds_def event_codec_ok_def filter_id_conv)
  moreover have "mapE (\<lambda>l. mapErr LInvalid (le_event_parse E l)) (map ?text fes) = Inr fes"
    using assms by (auto simp: holds_def event_codec_ok_def mapE_Inr_iff list_all2_conv_all_nth)
  ultimately have "log_events E (unlines (map ?text fes)) = Inr fes" by (simp add: log_events_def)
  moreover have "valid_utf8 (unlines (map ?text fes))"
    using assms by (intro valid_utf8_unlines) (auto simp: holds_def event_codec_ok_def)
  ultimately show ?thesis
    using assms by (auto simp: read_state_def holds_def read_to_string_def)
qed

lemma project_keeps:
  "project_ledger E lg st = (r, st') \<Longrightarrow> manifest_file st' = manifest_file st \<and> events_file st' = events_file st"
  by (auto simp: project_ledger_def write_index_def Let_def split: sum.splits if_splits)

lemma append_locked_holds:
  assumes "holds E st p fes" and "event_codec_ok E x" and "append_locked E lg x st = (r, st')"
  shows "holds E st' p (fes @ [x])" and "r = Inr () \<or> (\<exists>e. r = Inl (ProjectionAfterAppend e))"
proof -
  obtain r1 where p: "project_ledger E lg (st\<lparr>events_file :=
      Some (unlines (map (le_event_text E) fes) @ le_event_text E x @ [CHR 0x0A])\<rparr>) = (r1, st')"
    "r = mapErr ProjectionAfterAppend r1"
    using assms(1,3) by (auto simp: append_locked_def holds_def Let_def split: prod.splits)
  show "holds E st' p (fes @ [x])"
    using assms(1,2) project_keeps [OF p(1)] by (simp add: holds_def read_manifest_def)
  show "r = Inr () \<or> (\<exists>e. r = Inl (ProjectionAfterAppend e))" using p(2) by (cases r1) auto
qed

section \<open>The life of a ledger\<close>

text \<open>Two environments of the same program: the serializer and the digest agree; the disk around the
  archive, that is which paths exist, how they resolve, what the files hold, the home directory and
  which replacements fail, may differ.\<close>

definition same_codec :: "ledger_env \<Rightarrow> ledger_env \<Rightarrow> bool" where
  "same_codec E E' \<longleftrightarrow> le_sha E' = le_sha E \<and> le_event_text E' = le_event_text E \<and>
     le_event_parse E' = le_event_parse E \<and> le_projection_text E' = le_projection_text E \<and>
     le_projection_parse E' = le_projection_parse E"

text \<open>The archives a ledger goes through.  Every operation meets a disk \<open>E1\<close> of its own and any handle; it
  may succeed, be refused, or fail half way (an index or a timeline that cannot be replaced, also
  while the ledger is created).  Between operations others may rewrite or delete the projections,
  never the manifest and the log, which only the operations write, under the lock.\<close>

inductive ledger_run :: "ledger_env \<Rightarrow> archive \<Rightarrow> bool" for E where
  created: "same_codec E E1 \<Longrightarrow> ledger_init E1 opt st0 = (res, st) \<Longrightarrow>
    manifest_file st0 = None \<Longrightarrow> manifest_file st \<noteq> None \<Longrightarrow>
    le_projection_parse E (le_projection_text E (new_projection opt)) = Inr (new_projection opt) \<Longrightarrow>
    ledger_run E st"
| opened: "ledger_run E st \<Longrightarrow> same_codec E E1 \<Longrightarrow> ledger_init E1 opt st = (res, st') \<Longrightarrow> ledger_run E st'"
| added: "ledger_run E st \<Longrightarrow> same_codec E E1 \<Longrightarrow> ledger_add E1 lg secs opt st = (res, st') \<Longrightarrow>
    (\<forall>r. receipt_to_add E1 lg secs opt st = Inr r \<longrightarrow> event_codec_ok E (receipt_line r)) \<Longrightarrow>
    ledger_run E st'"
| logged: "ledger_run E st \<Longrightarrow> same_codec E E1 \<Longrightarrow> append_event E1 lg secs x st = (res, st') \<Longrightarrow>
    (\<forall>e. event_to_append E1 lg secs x st = Inr e \<longrightarrow> event_codec_ok E (event_line e)) \<Longrightarrow>
    ledger_run E st'"
| edited: "ledger_run E st \<Longrightarrow> manifest_file st' = manifest_file st \<Longrightarrow> events_file st' = events_file st \<Longrightarrow>
    ledger_run E st'"

lemma same_codec_refl [simp]: "same_codec E E"
  by (simp add: same_codec_def)

lemma same_codec_sym: "same_codec E E' \<Longrightarrow> same_codec E' E"
  by (simp add: same_codec_def)

lemma same_codec_trans: "same_codec E E' \<Longrightarrow> same_codec E' E'' \<Longrightarrow> same_codec E E''"
  by (simp add: same_codec_def)

lemma same_codec_event: "same_codec E E' \<Longrightarrow> event_codec_ok E' x = event_codec_ok E x"
  by (simp add: same_codec_def event_codec_ok_def)

lemma same_codec_projection: "same_codec E E' \<Longrightarrow>
    le_projection_parse E' (le_projection_text E' p) = le_projection_parse E (le_projection_text E p)"
  by (simp add: same_codec_def)

text \<open>What the log holds does not depend on the rest of the disk.\<close>

lemma same_codec_holds: "same_codec E E' \<Longrightarrow> holds E' st p fes = holds E st p fes"
  by (simp add: holds_def read_manifest_def same_codec_event) (simp add: same_codec_def)

lemma same_codec_read: "same_codec E E' \<Longrightarrow> read_state E' st = read_state E st"
  by (simp add: same_codec_def read_state_def read_manifest_def log_events_def)

lemma same_codec_id: "same_codec E E' \<Longrightarrow> receipt_id E' p sha n = receipt_id E p sha n"
  by (simp add: same_codec_def receipt_id_def)

text \<open>So a run does not depend on which of the disks it is seen from.\<close>

lemma ledger_run_env:
  assumes "ledger_run E st" and "same_codec E E'"
  shows "ledger_run E' st"
  using assms(1)
proof induction
  case (created E1 opt st0 res st)
  show ?case
  proof (rule ledger_run.created)
    show "same_codec E' E1" using created(1) assms(2) by (blast intro: same_codec_sym same_codec_trans)
  qed (use created same_codec_projection [OF assms(2)] in auto)
next
  case (opened st E1 opt res st')
  have "same_codec E' E1" using opened.hyps(2) assms(2) by (blast intro: same_codec_sym same_codec_trans)
  then show ?case using opened by (blast intro: ledger_run.opened)
next
  case (added st E1 lg secs opt res st')
  have "same_codec E' E1" using added.hyps(2) assms(2) by (blast intro: same_codec_sym same_codec_trans)
  then show ?case
    by (rule ledger_run.added [OF added.IH _ added.hyps(3)]) (use added.hyps(4) same_codec_event [OF assms(2)] in simp)
next
  case (logged st E1 lg secs x res st')
  have "same_codec E' E1" using logged.hyps(2) assms(2) by (blast intro: same_codec_sym same_codec_trans)
  then show ?case
    by (rule ledger_run.logged [OF logged.IH _ logged.hyps(3)]) (use logged.hyps(4) same_codec_event [OF assms(2)] in simp)
next
  case (edited st st')
  then show ?case by (blast intro: ledger_run.edited)
qed

text \<open>What is true of the log of a ledger.\<close>

definition event_known :: "receipt list \<Rightarrow> event_record \<Rightarrow> bool" where
  "event_known rs e \<longleftrightarrow> ev_receipt_id e \<in> rc_id ` set rs \<and>
     (\<forall>old. ev_supersedes e = Some old \<longrightarrow> old \<in> rc_id ` set rs \<and> old \<noteq> ev_receipt_id e) \<and>
     (ev_kind e = ''relocate'' \<longrightarrow> ev_new_path e \<noteq> None)"

definition owner_ok :: "projection \<Rightarrow> receipt \<Rightarrow> bool" where
  "owner_ok p r \<longleftrightarrow> rc_relation r \<in> set RELATIONS \<and>
     (rc_relation r = ''belongs_to'' \<longrightarrow> rc_owner_project r = pj_project_id p)"

definition event_owner_ok :: "projection \<Rightarrow> event_record \<Rightarrow> bool" where
  "event_owner_ok p e \<longleftrightarrow> (ev_kind e = ''reclassify'' \<longrightarrow>
     (\<exists>rel \<in> set RELATIONS. ev_new_relation e = Some rel \<and>
        (rel = ''belongs_to'' \<longrightarrow> ev_new_owner_project e = Some (pj_project_id p))))"

definition log_ok :: "ledger_env \<Rightarrow> projection \<Rightarrow> receipt list \<Rightarrow> event_record list \<Rightarrow> bool" where
  "log_ok E p rs es \<longleftrightarrow>
     (\<forall>i < length rs. \<exists>sha. rc_id (rs ! i) = receipt_id E p sha i) \<and>
     map ev_sequence es = [1..<Suc (length es)] \<and>
     (\<forall>r \<in> set rs. owner_ok p r) \<and> (\<forall>e \<in> set es. event_known rs e \<and> event_owner_ok p e)"

lemma require_receipt_Inr: "require_receipt rs rid = Inr r \<Longrightarrow> r \<in> set rs \<and> rc_id r = rid"
  by (auto simp: require_receipt_def find_Some_iff)

lemma receipt_to_add_ok:
  assumes "read_state E st = Inr (p, rs, es)" and "receipt_to_add E lg secs opt st = Inr r"
  shows "\<exists>sha. rc_id r = receipt_id E p sha (length rs)" and "owner_ok p r"
  using assms
  by (auto simp: receipt_to_add_def add_checks_def new_receipt_def owner_ok_def split: if_splits)

lemma event_to_append_ok:
  assumes "read_state E st = Inr (p, rs, es)" and "event_to_append E lg secs x st = Inr e"
  shows "ev_sequence e = Suc (length es)" and "event_known rs e" and "event_owner_ok p e"
proof -
  obtain e0 where e0: "event_record_of E lg secs p rs x = Inr e0" "e = e0\<lparr>ev_sequence := length es + 1\<rparr>"
    using assms by (auto simp: event_to_append_def)
  then show "ev_sequence e = Suc (length es)" by simp
  have "event_known rs e0 \<and> event_owner_ok p e0"
    using e0(1)
    by (cases x) (auto simp: event_base_def event_known_def event_owner_ok_def split: if_splits
        dest!: require_receipt_Inr)
  then show "event_known rs e" "event_owner_ok p e"
    by (auto simp: e0(2) event_known_def event_owner_ok_def)
qed

lemma log_ok_receipt:
  assumes "log_ok E p rs es" and "rc_id r = receipt_id E p sha (length rs)" and "owner_ok p r"
  shows "log_ok E p (rs @ [r]) es"
  using assms by (auto simp: log_ok_def nth_append less_Suc_eq event_known_def)

lemma log_ok_event:
  assumes "log_ok E p rs es" and "ev_sequence e = Suc (length es)" "event_known rs e" "event_owner_ok p e"
  shows "log_ok E p rs (es @ [e])"
  using assms by (auto simp: log_ok_def)

lemma init_writes:
  assumes "ledger_init E opt st0 = (res, st)" and "manifest_file st0 = None"
  shows "(\<exists>e. res = Inl e \<and> st = st0) \<or>
    manifest_file st = Some (le_projection_text E (new_projection opt)) \<and> events_file st = Some []"
proof (cases "init_checks E opt")
  case (Inr r)
  obtain root dl where ok: "init_checks E opt = Inr (root, dl)" using Inr by (cases r) simp
  show ?thesis
    using assms ok project_keeps by (force simp: ledger_init_def Let_def split: if_splits prod.splits)
qed (use assms in \<open>auto simp: ledger_init_def\<close>)

lemma init_created:
  assumes "ledger_init E opt st0 = (res, st)" and "manifest_file st0 = None" and "manifest_file st \<noteq> None"
    and "le_projection_parse E (le_projection_text E (new_projection opt)) = Inr (new_projection opt)"
  shows "holds E st (new_projection opt) []"
  using init_writes [OF assms(1,2)] assms(2-4) by (auto simp: holds_def read_manifest_def)

text \<open>Opening an archive that has a manifest writes nothing, accepted or refused.\<close>

lemma init_opened:
  assumes "ledger_init E opt st = (res, st')" and "manifest_file st \<noteq> None"
  shows "st' = st"
  using assms by (cases "init_checks E opt") (auto simp: ledger_init_def)

lemma ledger_add_state:
  assumes "holds E st p fes" and "ledger_add E lg secs opt st = (res, st')"
    and "\<forall>r. receipt_to_add E lg secs opt st = Inr r \<longrightarrow> event_codec_ok E (receipt_line r)"
  shows "(\<exists>e. res = Inl e \<and> st' = st) \<or>
    (\<exists>r. receipt_to_add E lg secs opt st = Inr r \<and> holds E st' p (fes @ [receipt_line r]) \<and>
       (res = Inr r \<or> (\<exists>e. res = Inl (ProjectionAfterAppend e))))"
proof (cases "receipt_to_add E lg secs opt st")
  case (Inr r)
  obtain r1 where a: "append_locked E lg (receipt_line r) st = (r1, st')" "res = bindE r1 (\<lambda>_. Inr r)"
    using assms(2) Inr by (auto simp: ledger_add_def Let_def split: prod.splits)
  show ?thesis using append_locked_holds [OF assms(1) _ a(1)] assms(3) Inr a(2) by auto
next
  case (Inl e)
  with assms(2) have "(Inl e, st) = (res, st')" by (simp only: ledger_add_def sum.case)
  then show ?thesis by blast
qed

lemma append_event_logged:
  assumes "holds E st p fes" and e: "event_to_append E lg secs x st = Inr ev"
    and "event_codec_ok E (event_line ev)" and "append_event E lg secs x st = (res, st')"
  shows "holds E st' p (fes @ [event_line ev])"
proof -
  obtain r1 where a: "append_locked E lg (event_line ev) st = (r1, st')"
    using assms(4) e by (auto simp: append_event_def Let_def split: prod.splits)
  show ?thesis by (rule append_locked_holds(1) [OF assms(1,3) a])
qed

lemma append_event_state:
  assumes "holds E st p fes" and "append_event E lg secs x st = (res, st')"
    and "\<forall>e. event_to_append E lg secs x st = Inr e \<longrightarrow> event_codec_ok E (event_line e)"
  shows "(\<exists>e. res = Inl e \<and> st' = st) \<or>
    (\<exists>ev. event_to_append E lg secs x st = Inr ev \<and> holds E st' p (fes @ [event_line ev]) \<and>
       (res = Inr ev \<or> (\<exists>e. res = Inl (ProjectionAfterAppend e))))"
proof (cases "event_to_append E lg secs x st")
  case (Inr ev)
  obtain r1 where a: "append_locked E lg (event_line ev) st = (r1, st')"
    and res: "res = bindE r1 (\<lambda>_. bindE (read_state E st') (\<lambda>(_, _, es).
      ok_or (LInvalid ''event append produced no event'') (if es = [] then None else Some (last es))))"
    using assms(2) Inr by (auto simp: append_event_def Let_def split: prod.splits)
  note h = append_locked_holds [OF assms(1) _ a]
  have "holds E st' p (fes @ [event_line ev])" using h(1) assms(3) Inr by auto
  from holds_read_state [OF this] have "r1 = Inr () \<Longrightarrow> res = Inr ev"
    by (simp add: res event_line_def map_filter_def)
  moreover have "r1 = Inl e \<Longrightarrow> res = Inl e" for e by (simp add: res)
  ultimately show ?thesis using h assms(3) Inr by blast
next
  case (Inl e)
  with assms(2) have "(Inl e, st) = (res, st')" by (simp only: append_event_def sum.case)
  then show ?thesis by blast
qed

lemma map_filter_lines [simp]:
  "List.map_filter fe_receipt (fes @ [receipt_line r]) = List.map_filter fe_receipt fes @ [r]"
  "List.map_filter fe_event (fes @ [receipt_line r]) = List.map_filter fe_event fes"
  "List.map_filter fe_receipt (fes @ [event_line e]) = List.map_filter fe_receipt fes"
  "List.map_filter fe_event (fes @ [event_line e]) = List.map_filter fe_event fes @ [e]"
  by (simp_all add: map_filter_def receipt_line_def event_line_def)

lemma same_codec_log: "same_codec E E' \<Longrightarrow> log_ok E' p rs es = log_ok E p rs es"
  by (simp add: log_ok_def same_codec_id)

definition log_holds :: "ledger_env \<Rightarrow> archive \<Rightarrow> bool" where
  "log_holds E st \<longleftrightarrow> (\<exists>p fes. holds E st p fes \<and> log_ok E p (List.map_filter fe_receipt fes) (List.map_filter fe_event fes))"

lemma same_codec_log_holds: "same_codec E E' \<Longrightarrow> log_holds E' st = log_holds E st"
  by (simp add: log_holds_def same_codec_holds same_codec_log)

lemma add_keeps_log:
  assumes "log_holds E st" and a: "ledger_add E lg secs opt st = (res, st')"
    and c: "\<forall>r. receipt_to_add E lg secs opt st = Inr r \<longrightarrow> event_codec_ok E (receipt_line r)"
  shows "log_holds E st'"
proof (cases "st' = st")
  case False
  obtain p fes where h: "holds E st p fes" "log_ok E p (List.map_filter fe_receipt fes) (List.map_filter fe_event fes)"
    using assms(1) by (auto simp: log_holds_def)
  then obtain r where r: "receipt_to_add E lg secs opt st = Inr r" and h': "holds E st' p (fes @ [receipt_line r])"
    using False ledger_add_state [OF h(1) a c] by blast
  from receipt_to_add_ok [OF holds_read_state [OF h(1)] r] h(2)
  have "log_ok E p (List.map_filter fe_receipt fes @ [r]) (List.map_filter fe_event fes)"
    by (auto intro: log_ok_receipt)
  then show ?thesis
    using h' unfolding log_holds_def by (intro exI [of _ p] exI [of _ "fes @ [receipt_line r]"]) simp
qed (use assms in blast)

lemma event_keeps_log:
  assumes "log_holds E st" and a: "append_event E lg secs x st = (res, st')"
    and c: "\<forall>e. event_to_append E lg secs x st = Inr e \<longrightarrow> event_codec_ok E (event_line e)"
  shows "log_holds E st'"
proof (cases "st' = st")
  case False
  obtain p fes where h: "holds E st p fes" "log_ok E p (List.map_filter fe_receipt fes) (List.map_filter fe_event fes)"
    using assms(1) by (auto simp: log_holds_def)
  then obtain e where e: "event_to_append E lg secs x st = Inr e" and h': "holds E st' p (fes @ [event_line e])"
    using False append_event_state [OF h(1) a c] by blast
  from event_to_append_ok [OF holds_read_state [OF h(1)] e] h(2)
  have "log_ok E p (List.map_filter fe_receipt fes) (List.map_filter fe_event fes @ [e])"
    by (auto intro: log_ok_event)
  then show ?thesis
    using h' unfolding log_holds_def by (intro exI [of _ p] exI [of _ "fes @ [event_line e]"]) simp
qed (use assms in blast)

lemma ledger_run_log:
  assumes "ledger_run E st"
  shows "log_holds E st"
  using assms
proof induction
  case (created E1 opt st0 res st)
  have "holds E1 st (new_projection opt) []"
    by (rule init_created [OF created(2-4)]) (use created(5) same_codec_projection [OF created(1)] in simp)
  then show ?case
    using same_codec_holds [OF created(1)] unfolding log_holds_def
    by (intro exI [of _ "new_projection opt"] exI [of _ "[]"]) (simp add: log_ok_def map_filter_def)
next
  case (opened st E1 opt res st')
  have "manifest_file st \<noteq> None"
    using opened.IH by (auto simp: log_holds_def holds_def read_manifest_def)
  from init_opened [OF opened.hyps(3) this] show ?case using opened.IH by simp
next
  case (added st E1 lg secs opt res st')
  note c = same_codec_log_holds [OF added.hyps(2)]
  have "log_holds E1 st'"
    by (rule add_keeps_log [OF _ added.hyps(3)])
      (use added.IH c added.hyps(4) same_codec_event [OF added.hyps(2)] in simp_all)
  then show ?case by (simp add: c)
next
  case (logged st E1 lg secs x res st')
  note c = same_codec_log_holds [OF logged.hyps(2)]
  have "log_holds E1 st'"
    by (rule event_keeps_log [OF _ logged.hyps(3)])
      (use logged.IH c logged.hyps(4) same_codec_event [OF logged.hyps(2)] in simp_all)
  then show ?case by (simp add: c)
next
  case (edited st st')
  then show ?case by (simp add: log_holds_def holds_def read_manifest_def)
qed

lemma ledger_run_read:
  assumes "ledger_run E st"
  obtains p fes where "holds E st p fes"
    and "log_ok E p (List.map_filter fe_receipt fes) (List.map_filter fe_event fes)"
  using ledger_run_log [OF assms] by (auto simp: log_holds_def)

section \<open>Receipt ids and views\<close>

lemma colon_suffix:
  assumes "s @ CHR '':'' # a = t @ CHR '':'' # b" and "CHR '':'' \<notin> set a" "CHR '':'' \<notin> set b"
  shows "a = b"
proof -
  have suf: "takeWhile (\<lambda>c. c \<noteq> CHR '':'') (rev (s @ CHR '':'' # a)) = rev a" if "CHR '':'' \<notin> set a" for s a :: string
  proof -
    have "takeWhile (\<lambda>c. c \<noteq> CHR '':'') (rev a @ CHR '':'' # rev s) = rev a"
      by (rule takeWhile_append2 [THEN trans]) (use that in auto)
    then show ?thesis by simp
  qed
  have "rev a = rev b" using suf [OF assms(2), of s] suf [OF assms(3), of t] assms(1) by simp
  then show ?thesis by simp
qed

lemma receipt_id_inj: "receipt_id E p sha i = receipt_id E p sha' j \<Longrightarrow> i = j"
proof -
  assume eq: "receipt_id E p sha i = receipt_id E p sha' j"
  have no: "CHR '':'' \<notin> set (nat_digits n)" for n
    using nat_digits_digit [of "CHR '':''" n] by (auto simp: is_ascii_digit_def byte_def)
  have split: "receipt_id E p sha n =
      (''receipt:'' @ take 16 (sha256_hex (le_sha E) (pj_project_id p @ [CHR 0x00] @ pj_title p)) @ '':'' @ sha)
      @ CHR '':'' # nat_digits (n + 1)" for sha n
    by (simp add: receipt_id_def Let_def)
  have "nat_digits (i + 1) = nat_digits (j + 1)"
    by (rule colon_suffix [OF _ no no]) (use eq in \<open>simp only: split\<close>)
  then show "i = j" by (auto dest: nat_digits_inj)
qed

lemma log_ok_distinct: "log_ok E p rs es \<Longrightarrow> distinct (map rc_id rs)"
  unfolding distinct_conv_nth log_ok_def by (metis length_map nth_map receipt_id_inj)

lemma effective_step_id [simp]: "rc_id (effective_step e r) = rc_id r"
  by (auto simp: effective_step_def Let_def split: option.splits)

lemma effective_owner:
  assumes "owner_ok p r" and "\<forall>e \<in> set es. event_owner_ok p e"
  shows "owner_ok p (effective_receipt r es)"
  unfolding effective_receipt_def
proof (rule fold_invariant [where Q = "event_owner_ok p"])
  fix e r assume "event_owner_ok p e" "owner_ok p r"
  then show "owner_ok p (effective_step e r)"
    by (auto simp: effective_step_def owner_ok_def event_owner_ok_def Let_def split: option.splits)
qed (use assms in auto)

lemma effective_path:
  assumes "\<forall>e \<in> set es. ev_kind e = ''relocate'' \<longrightarrow> ev_new_path e \<noteq> None"
  shows "rc_path (effective_receipt r es) = current_path r es"
  using assms
proof (induction es rule: rev_induct)
  case (snoc e es)
  have step: "rc_path (effective_step e r') =
      (if ev_kind e = ''relocate'' then or_else (ev_new_path e) (rc_path r') else rc_path r')" for r'
    by (auto simp: effective_step_def or_else_def Let_def split: option.splits)
  show ?case
    using snoc by (auto simp: effective_receipt_def step current_path_def or_else_def split: option.splits)
qed (simp add: effective_receipt_def current_path_def or_else_def)

section \<open>Properties\<close>

text \<open>A ledger for the witnesses: one archive, and one receipt.\<close>

definition demo_add :: add_options where
  "demo_add = \<lparr>ao_path = Path True [''h'', ''d''], ao_document_id = None, ao_source_kind = KDocument,
     ao_role = ''r'', ao_stage = Authoring, ao_owner_project = ''p'', ao_relation = ''belongs_to'',
     ao_document_date = None, ao_authority = None, ao_evidence_status = None, ao_provenance = Some ''x'',
     ao_approval_valid_from = None, ao_approval_valid_until = None, ao_downloads_root = None\<rparr>"

definition demo_init :: init_options where
  "demo_init = \<lparr>io_root = Path True [''a'', ''t''], io_project_id = ''p'', io_title = ''t'',
     io_downloads_root = None, io_categories = []\<rparr>"

definition demo_ledger_receipt :: receipt where
  "demo_ledger_receipt =
     \<lparr>rc_id = ''receipt:::1'', rc_document_id = None, rc_path = ''/h/d'', rc_sha256 = [], rc_bytes = 4,
      rc_source_kind = KDocument, rc_role = ''r'', rc_stage = Authoring, rc_owner_project = ''p'',
      rc_relation = ''belongs_to'', rc_observed_utc = format_utc 0, rc_document_date = None, rc_authority = None,
      rc_evidence_status = None, rc_provenance = Some ''x'', rc_approval_valid_from = None,
      rc_approval_valid_until = None\<rparr>"

definition demo_note :: event_record where
  "demo_note = (event_base ''note'' ''receipt:::1'' 0 None)\<lparr>ev_note := Some ''n'', ev_sequence := 1\<rparr>"

definition demo_env :: ledger_env where
  "demo_env = \<lparr>le_sha = \<lambda>_. [], le_exists = \<lambda>_. True, le_canonicalize = Inr, le_content = \<lambda>_. Inr ''data'',
     le_home = [''h'', ''u''],
     le_event_text = \<lambda>x. if fe_event x = None then ''{r}'' else ''{e}'',
     le_event_parse = \<lambda>s. Inr (if s = ''{e}'' then event_line demo_note else receipt_line demo_ledger_receipt),
     le_projection_text = \<lambda>_. ''{p}'', le_projection_parse = \<lambda>_. Inr (new_projection demo_init),
     le_replace = \<lambda>_. None\<rparr>"

text \<open>The disk later on: the file that the receipt describes is gone, and the timeline cannot be replaced.\<close>

definition demo_later :: ledger_env where
  "demo_later = demo_env\<lparr>le_content := \<lambda>_. Inl NotFound, le_exists := \<lambda>p. p = [],
     le_replace := \<lambda>n. if n = ''timeline'' then Some InvalidData else None\<rparr>"

definition demo_ledger :: ledger where
  "demo_ledger = \<lparr>lg_root = [''a'', ''t''], lg_downloads_root = [''h'', ''u'', ''Downloads''], lg_legacy_index = False\<rparr>"

definition empty_archive :: archive where
  "empty_archive = \<lparr>manifest_file = None, events_file = None, timeline_file = None, index_file = None, legacy_index_file = None\<rparr>"

definition demo_archive :: archive where
  "demo_archive = snd (ledger_init demo_env demo_init empty_archive)"

lemma demo_env_fields:
  "le_home demo_env = [''h'', ''u'']" "le_projection_parse demo_env s = Inr (new_projection demo_init)"
  "le_replace demo_env n = None" "le_sha demo_env t = []" "le_content demo_env q = Inr ''data''"
  by (simp_all add: demo_env_def)

lemma demo_absolute: "absolute demo_env (Path True cs) = Inr cs"
  by (cases "rev cs") (auto simp: absolute_def demo_env_def)

lemma demo_init_runs: "fst (ledger_init demo_env demo_init empty_archive) = Inr demo_ledger"
  by (simp add: ledger_init_def init_checks_def demo_init_def demo_absolute default_downloads_def under_def
      empty_archive_def demo_ledger_def project_ledger_def read_state_def read_manifest_def read_to_string_def
      log_events_def replace_file_def Let_def demo_env_fields)

lemma demo_created: "manifest_file demo_archive \<noteq> None" "events_file demo_archive = Some []"
proof -
  have "ledger_init demo_env demo_init empty_archive = (Inr demo_ledger, demo_archive)"
    using demo_init_runs by (simp add: demo_archive_def prod_eq_iff)
  from init_writes [OF this]
  show "manifest_file demo_archive \<noteq> None" "events_file demo_archive = Some []"
    by (simp_all add: empty_archive_def)
qed

lemma demo_run: "ledger_run demo_env demo_archive"
proof (rule ledger_run.created [OF same_codec_refl])
  show "ledger_init demo_env demo_init empty_archive = (Inr demo_ledger, demo_archive)"
    using demo_init_runs by (simp add: demo_archive_def prod_eq_iff)
qed (use demo_created in \<open>simp_all add: empty_archive_def demo_env_def\<close>)

lemma demo_receipt_codec: "event_codec_ok demo_env (receipt_line demo_ledger_receipt)"
  by (simp add: event_codec_ok_def demo_env_def one_line_def text_eval valid_utf8.simps receipt_line_def)

lemma demo_note_codec: "event_codec_ok demo_env (event_line demo_note)"
  by (simp add: event_codec_ok_def demo_env_def one_line_def text_eval valid_utf8.simps event_line_def)

lemma demo_holds: "holds demo_env demo_archive (new_projection demo_init) []"
  by (rule init_created [of demo_env demo_init empty_archive "Inr demo_ledger"])
    (use demo_init_runs demo_created in \<open>simp_all add: demo_archive_def prod_eq_iff empty_archive_def demo_env_def\<close>)

lemma demo_receipt_to_add:
  "receipt_to_add demo_env demo_ledger 0 demo_add demo_archive = Inr demo_ledger_receipt"
proof -
  have b: "\<not> blank ''p''" "\<not> blank ''r''" "\<not> blank ''x''"
    by (simp_all add: blank_def text_eval)
  have id: "receipt_id demo_env p [] 0 = ''receipt:::1''" for p
    by (simp add: receipt_id_def sha256_hex_def demo_env_fields nat_digits.simps text_eval)
  have h: "hash_file demo_env p = Inr ([], 4)" for p
    by (simp add: hash_file_def demo_env_fields sha256_hex_def)
  show ?thesis
    by (simp add: receipt_to_add_def add_checks_def demo_add_def b or_else_def RELATIONS_def demo_absolute
        downloads_of_def demo_ledger_def under_def holds_read_state [OF demo_holds] map_filter_def h id
        new_receipt_def demo_ledger_receipt_def shown_def display_path_def join_with_def)
      (simp add: new_projection_def demo_init_def)
qed

lemma check_receipts:
  assumes "foldE (check_receipt E es) rs \<lparr>cr_active = 0, cr_missing = [], cr_changed = [], cr_superseded = []\<rparr> = Inr rep"
  shows "cr_superseded rep = map rc_id (filter (superseded es) rs) \<and>
     cr_active rep = length (filter (\<lambda>r. \<not> superseded es r) rs) \<and>
     cr_missing rep = map rc_id (filter (\<lambda>r. \<not> superseded es r \<and>
       hash_file E (path_comps (current_path r es)) = Inl NotFound) rs) \<and>
     cr_changed rep = map rc_id (filter (\<lambda>r. \<not> superseded es r \<and>
       (\<exists>s n. hash_file E (path_comps (current_path r es)) = Inr (s, n) \<and> s \<noteq> rc_sha256 r)) rs)"
  using assms
proof (induction rs arbitrary: rep rule: rev_induct)
  case (snoc r rs)
  then obtain rep0 where "foldE (check_receipt E es) rs \<lparr>cr_active = 0, cr_missing = [], cr_changed = [], cr_superseded = []\<rparr> = Inr rep0"
    and step: "check_receipt E es r rep0 = Inr rep"
    by (auto simp del: foldE.simps simp add: foldE.simps(2) [of _ r "[]"] foldE.simps(1) [of "check_receipt E es"])
  note IH = snoc.IH [OF this(1)]
  show ?case
    using step IH
    by (cases "superseded es r"; cases "hash_file E (path_comps (current_path r es))")
      (auto simp: check_receipt_def Let_def split: if_splits io_error.splits)
qed simp

lemma split_once_first: "c \<notin> set a \<Longrightarrow> p = c # q \<Longrightarrow> split_once (a @ p @ b) p = Some (a, b)"
  by (induction a) (auto simp: prefix_def)

lemma split_once_none: "c \<notin> set a \<Longrightarrow> split_once a (c # q) = None"
  by (induction a) auto

lemma find_begin: "CHR ''<'' \<notin> set a \<Longrightarrow> split_once (a @ LEDGER_BEGIN @ b) LEDGER_BEGIN = Some (a, b)"
  by (rule split_once_first) (simp_all add: LEDGER_BEGIN_def)

lemma find_end:
  assumes "CHR ''<'' \<notin> set a" and "CHR ''<'' \<notin> set b"
  shows "split_once (a @ LEDGER_BEGIN @ b @ LEDGER_END @ t) LEDGER_END = Some (a @ LEDGER_BEGIN @ b, t)"
proof -
  have "split_once (b @ LEDGER_END @ t) LEDGER_END = Some (b, t)"
    by (rule split_once_first [OF assms(2)]) (simp add: LEDGER_END_def)
  then have "split_once (LEDGER_BEGIN @ b @ LEDGER_END @ t) LEDGER_END = Some (LEDGER_BEGIN @ b, t)"
    by (simp add: LEDGER_BEGIN_def LEDGER_END_def)
  then show ?thesis using assms(1)
    by (induction a) (auto simp: LEDGER_END_def)
qed

lemma demo_no_event: "event_to_append demo_env demo_ledger secs (Note rid n d) demo_archive = Inl (LInvalid (''unknown receipt '' @ rid))"
  by (simp add: event_to_append_def holds_read_state [OF demo_holds] map_filter_def require_receipt_def)

lemma demo_added: "\<exists>st'. ledger_add demo_env demo_ledger 0 demo_add demo_archive = (Inr demo_ledger_receipt, st')"
proof -
  obtain c where c: "events_file demo_archive = Some c" using demo_holds by (simp add: holds_def)
  let ?st = "demo_archive\<lparr>events_file := Some (c @ le_event_text demo_env (receipt_line demo_ledger_receipt) @ [CHR 0x0A])\<rparr>"
  have "holds demo_env ?st (new_projection demo_init) [receipt_line demo_ledger_receipt]"
    using demo_holds c demo_receipt_codec by (simp add: holds_def read_manifest_def)
  from holds_read_state [OF this] have "fst (project_ledger demo_env demo_ledger ?st) = Inr ()"
    by (simp add: project_ledger_def replace_file_def demo_env_fields Let_def)
  then show ?thesis
    by (auto simp: ledger_add_def demo_receipt_to_add append_locked_def c Let_def split: prod.splits)
qed

lemma demo_two_lines: "\<exists>st'. ledger_run demo_env st' \<and>
   holds demo_env st' (new_projection demo_init) [receipt_line demo_ledger_receipt, event_line demo_note]"
proof -
  obtain st1 where a: "ledger_add demo_env demo_ledger 0 demo_add demo_archive = (Inr demo_ledger_receipt, st1)"
    using demo_added by blast
  have run1: "ledger_run demo_env st1"
    by (rule ledger_run.added [OF demo_run same_codec_refl a]) (simp add: demo_receipt_to_add demo_receipt_codec)
  have h1: "holds demo_env st1 (new_projection demo_init) [receipt_line demo_ledger_receipt]"
    using ledger_add_state [OF demo_holds a] by (simp add: demo_receipt_to_add demo_receipt_codec)
  have codec: "same_codec demo_env demo_later" by (simp add: same_codec_def demo_later_def)
  have h2: "holds demo_later st1 (new_projection demo_init) [receipt_line demo_ledger_receipt]"
    using h1 same_codec_holds [OF codec] by simp
  have x: "event_to_append demo_later demo_ledger 0 (Note ''receipt:::1'' ''n'' None) st1 = Inr demo_note"
    using holds_read_state [OF h2]
    by (simp add: event_to_append_def receipt_line_def map_filter_def require_receipt_def demo_ledger_receipt_def
        demo_note_def event_base_def)
  obtain res st2 where b: "append_event demo_later demo_ledger 0 (Note ''receipt:::1'' ''n'' None) st1 = (res, st2)"
    by fastforce
  have e: "\<forall>e. event_to_append demo_later demo_ledger 0 (Note ''receipt:::1'' ''n'' None) st1 = Inr e \<longrightarrow>
      event_codec_ok demo_env (event_line e)"
    using x demo_note_codec by simp
  have h3: "holds demo_later st2 (new_projection demo_init) ([receipt_line demo_ledger_receipt] @ [event_line demo_note])"
    by (rule append_event_logged [OF h2 x _ b]) (simp add: same_codec_event [OF codec] demo_note_codec)
  have "ledger_run demo_env st2" by (rule ledger_run.logged [OF run1 codec b e])
  then show ?thesis using h3 same_codec_holds [OF codec] by auto
qed

text \<open>C8. At every moment of a ledger's life, whatever the disk around the archive was at each of its
  operations, the log reads back; receipt ids are distinct, event numbers
  count from 1 without gaps, every event names a receipt of the log and a supersession another
  one, and a receipt whose effective relation is \<open>belongs_to\<close> is owned by the ledger's project.\<close>

theorem ledger_invariant:
  assumes "ledger_run E st"
  shows "\<exists>p rs es. read_state E st = Inr (p, rs, es) \<and> distinct (map rc_id rs) \<and>
      map ev_sequence es = [1..<Suc (length es)] \<and>
      (\<forall>e \<in> set es. ev_receipt_id e \<in> rc_id ` set rs \<and>
         (\<forall>old. ev_supersedes e = Some old \<longrightarrow> old \<in> rc_id ` set rs \<and> old \<noteq> ev_receipt_id e)) \<and>
      (\<forall>r \<in> set rs. rc_relation (effective_receipt r es) = ''belongs_to'' \<longrightarrow>
         rc_owner_project (effective_receipt r es) = pj_project_id p)"
proof -
  obtain p fes where h: "holds E st p fes"
      "log_ok E p (List.map_filter fe_receipt fes) (List.map_filter fe_event fes)"
    by (rule ledger_run_read [OF assms])
  have "owner_ok p (effective_receipt r (List.map_filter fe_event fes))" if "r \<in> set (List.map_filter fe_receipt fes)" for r
    using h(2) that by (intro effective_owner) (auto simp: log_ok_def)
  then show ?thesis
    using h(2) log_ok_distinct [OF h(2)] holds_read_state [OF h(1)]
    by (auto simp: log_ok_def event_known_def owner_ok_def)
qed

theorem ledger_invariant_witness:
  "\<exists>st. read_state demo_env st = Inr (new_projection demo_init, [demo_ledger_receipt], [demo_note]) \<and>
     distinct (map rc_id [demo_ledger_receipt]) \<and> map ev_sequence [demo_note] = [1..<Suc 1] \<and>
     ev_receipt_id demo_note \<in> rc_id ` {demo_ledger_receipt}"
proof -
  obtain st where run: "ledger_run demo_env st"
    and h: "holds demo_env st (new_projection demo_init) [receipt_line demo_ledger_receipt, event_line demo_note]"
    using demo_two_lines by blast
  from holds_read_state [OF h]
  have r: "read_state demo_env st = Inr (new_projection demo_init, [demo_ledger_receipt], [demo_note])"
    by (simp add: map_filter_def receipt_line_def event_line_def)
  show ?thesis using ledger_invariant [OF run] r by (intro exI [of _ st]) simp
qed

text \<open>The operations implement appending to two lists: an accepted receipt, with a new id, is added
  at the end of the receipts, an accepted event is returned as logged and added at the end of the
  events, provided the logged line is printed and parsed back by the serializer.\<close>

theorem ledger_appends:
  assumes "ledger_run E st" and "read_state E st = Inr (p, rs, es)"
    and "\<forall>r. receipt_to_add E lg secs opt st = Inr r \<longrightarrow> event_codec_ok E (receipt_line r)"
    and "\<forall>e. event_to_append E lg secs x st = Inr e \<longrightarrow> event_codec_ok E (event_line e)"
  shows "(\<forall>r st'. ledger_add E lg secs opt st = (Inr r, st') \<longrightarrow>
      read_state E st' = Inr (p, rs @ [r], es) \<and> rc_id r \<notin> rc_id ` set rs) \<and>
    (\<forall>e st'. append_event E lg secs x st = (Inr e, st') \<longrightarrow>
      read_state E st' = Inr (p, rs, es @ [e]) \<and> ev_sequence e = Suc (length es))"
proof -
  obtain fes where h: "holds E st p fes" and l: "log_ok E p rs es"
    and fes: "rs = List.map_filter fe_receipt fes" "es = List.map_filter fe_event fes"
    using ledger_run_log [OF assms(1)] holds_read_state assms(2) unfolding log_holds_def by fastforce
  show ?thesis
  proof (intro conjI allI impI)
    fix r st' assume a: "ledger_add E lg secs opt st = (Inr r, st')"
    from ledger_add_state [OF h a assms(3)]
    have r: "receipt_to_add E lg secs opt st = Inr r" and h': "holds E st' p (fes @ [receipt_line r])" by auto
    show "read_state E st' = Inr (p, rs @ [r], es)" using holds_read_state [OF h'] by (simp add: fes)
    have "log_ok E p (rs @ [r]) es"
      using receipt_to_add_ok [OF assms(2) r] l by (auto intro: log_ok_receipt)
    then show "rc_id r \<notin> rc_id ` set rs" by (auto dest: log_ok_distinct)
  next
    fix e st' assume a: "append_event E lg secs x st = (Inr e, st')"
    from append_event_state [OF h a assms(4)]
    have e: "event_to_append E lg secs x st = Inr e" and h': "holds E st' p (fes @ [event_line e])" by auto
    show "read_state E st' = Inr (p, rs, es @ [e])" using holds_read_state [OF h'] by (simp add: fes)
    show "ev_sequence e = Suc (length es)" by (rule event_to_append_ok(1) [OF assms(2) e])
  qed
qed

theorem ledger_appends_witness:
  "\<exists>st'. read_state demo_env st' = Inr (new_projection demo_init, [demo_ledger_receipt], [])"
proof -
  have "\<forall>r. receipt_to_add demo_env demo_ledger 0 demo_add demo_archive = Inr r \<longrightarrow> event_codec_ok demo_env (receipt_line r)"
    by (simp add: demo_receipt_to_add demo_receipt_codec)
  moreover have "read_state demo_env demo_archive = Inr (new_projection demo_init, [], [])"
    using holds_read_state [OF demo_holds] by (simp add: map_filter_def)
  moreover have "\<forall>e. event_to_append demo_env demo_ledger 0 (Note [] [] None) demo_archive = Inr e \<longrightarrow>
      event_codec_ok demo_env (event_line e)"
    by (simp add: demo_no_event)
  moreover obtain st' where "ledger_add demo_env demo_ledger 0 demo_add demo_archive = (Inr demo_ledger_receipt, st')"
    using demo_added by blast
  ultimately have "read_state demo_env st' = Inr (new_projection demo_init, [] @ [demo_ledger_receipt], [])"
    using ledger_appends [OF demo_run, of _ "[]" "[]" demo_ledger 0 demo_add "Note [] [] None"] by blast
  then show ?thesis by auto
qed

text \<open>Both views of a receipt agree: the path that \<open>receipt\<close> reports is the path that \<open>check\<close> hashes,
  and the report of \<open>check\<close> splits the receipts into superseded and active ones, the active ones
  by what is found at that path.\<close>

theorem ledger_views:
  assumes "ledger_run E st" and "read_state E st = Inr (p, rs, es)"
  shows "(\<forall>r \<in> set rs. \<exists>v. read_receipt E st (rc_id r) = Inr v \<and> rc_path v = current_path r es) \<and>
    (\<forall>rep. ledger_check E st = Inr rep \<longrightarrow>
       cr_superseded rep = map rc_id (filter (superseded es) rs) \<and>
       cr_active rep = length (filter (\<lambda>r. \<not> superseded es r) rs) \<and>
       cr_missing rep = map rc_id (filter (\<lambda>r. \<not> superseded es r \<and>
         hash_file E (path_comps (current_path r es)) = Inl NotFound) rs) \<and>
       cr_changed rep = map rc_id (filter (\<lambda>r. \<not> superseded es r \<and>
         (\<exists>s n. hash_file E (path_comps (current_path r es)) = Inr (s, n) \<and> s \<noteq> rc_sha256 r)) rs))"
proof -
  have l: "log_ok E p rs es" using ledger_run_log [OF assms(1)] holds_read_state assms(2) unfolding log_holds_def by fastforce
  then have moved: "\<forall>e \<in> set es. ev_kind e = ''relocate'' \<longrightarrow> ev_new_path e \<noteq> None"
    by (auto simp: log_ok_def event_known_def)
  have "require_receipt rs (rc_id r) = Inr r" if r: "r \<in> set rs" for r
  proof -
    obtain r' where "require_receipt rs (rc_id r) = Inr r'"
      using r by (cases "find (\<lambda>x. rc_id x = rc_id r) rs") (auto simp: require_receipt_def find_None_iff)
    moreover from require_receipt_Inr [OF this] have "r' = r"
      using r log_ok_distinct [OF l] by (auto simp: distinct_map dest: inj_onD)
    ultimately show ?thesis by simp
  qed
  then show ?thesis
    using assms(2) effective_path [OF moved] check_receipts by (simp add: read_receipt_def ledger_check_def)
qed

theorem ledger_views_witness:
  "\<exists>st'. ledger_run demo_env st' \<and>
     (\<exists>v. read_receipt demo_env st' ''receipt:::1'' = Inr v \<and> rc_path v = ''/h/d'')"
proof -
  obtain st' where a: "ledger_add demo_env demo_ledger 0 demo_add demo_archive = (Inr demo_ledger_receipt, st')"
    using demo_added by blast
  have run: "ledger_run demo_env st'"
    by (rule ledger_run.added [OF demo_run same_codec_refl a]) (simp add: demo_receipt_to_add demo_receipt_codec)
  have "holds demo_env st' (new_projection demo_init) ([] @ [receipt_line demo_ledger_receipt])"
    using ledger_add_state [OF demo_holds a] by (simp add: demo_receipt_to_add demo_receipt_codec)
  from holds_read_state [OF this]
  have "read_state demo_env st' = Inr (new_projection demo_init, [demo_ledger_receipt], [])"
    by (simp add: map_filter_def receipt_line_def)
  from ledger_views [OF run this] run show ?thesis
    by (auto simp: demo_ledger_receipt_def current_path_def or_else_def)
qed

text \<open>C30. A creation interrupted after the manifest is not repaired: the next \<open>init\<close> accepts the
  directory, and then nothing can be added, logged, read or checked, and nothing changes.\<close>

theorem interrupted_init_is_stuck:
  assumes "init_checks E opt = Inr (root, dl)" and "manifest_file st = Some (le_projection_text E (new_projection opt))"
    and "le_projection_parse E (le_projection_text E (new_projection opt)) = Inr (new_projection opt)"
    and "events_file st = None"
  shows "\<exists>lg. ledger_init E opt st = (Inr lg, st) \<and>
    (\<forall>secs a. \<exists>e. ledger_add E lg secs a st = (Inl e, st)) \<and>
    (\<forall>secs x. append_event E lg secs x st = (Inl (LIo NotFound), st)) \<and>
    (\<forall>rid. read_receipt E st rid = Inl (LIo NotFound)) \<and> ledger_check E st = Inl (LIo NotFound)"
proof -
  have man: "read_manifest E st = Inr (new_projection opt)" using assms(2,3) by (simp add: read_manifest_def)
  have rs: "read_state E st = Inl (LIo NotFound)" using assms(4) man by (simp add: read_state_def read_to_string_def)
  have refused: "\<exists>e. receipt_to_add E lg secs a st = Inl e" for lg secs a
    by (cases "receipt_to_add E lg secs a st") (auto simp: receipt_to_add_def rs)
  have add: "\<exists>e. ledger_add E lg secs a st = (Inl e, st)" for lg secs a
    using refused [of lg secs a] by (elim exE) (simp add: ledger_add_def)
  have "\<exists>lg. ledger_init E opt st = (Inr lg, st)"
    by (simp add: ledger_init_def assms(1,2) man) (simp add: new_projection_def)
  then show ?thesis
    using add by (simp add: append_event_def event_to_append_def rs read_receipt_def ledger_check_def)
qed

theorem interrupted_init_is_stuck_witness:
  "\<exists>lg. ledger_init demo_env demo_init (empty_archive\<lparr>manifest_file := Some ''{p}''\<rparr>) =
     (Inr lg, empty_archive\<lparr>manifest_file := Some ''{p}''\<rparr>)"
proof -
  have "init_checks demo_env demo_init = Inr ([''a'', ''t''], [''h'', ''u'', ''Downloads''])"
    by (simp add: init_checks_def demo_init_def demo_absolute default_downloads_def under_def Let_def demo_env_fields)
  from interrupted_init_is_stuck [OF this, of "empty_archive\<lparr>manifest_file := Some ''{p}''\<rparr>"]
  show ?thesis by (auto simp: empty_archive_def demo_env_def)
qed


text \<open>Writing the timeline twice: the text a user keeps around the ledger's section survives, but each
  projection adds a line break to it; and when a logged note holds the end marker, the rows after
  it are left outside the section as if they were the user's.\<close>

theorem timeline_projection:
  assumes "CHR ''<'' \<notin> set user" and "CHR ''<'' \<notin> set title" and "CHR ''<'' \<notin> set rows"
  shows "kept_text (timeline_text user title rows) = user @ [CHR 0x0A] \<and>
    kept_text (timeline_text user title (rows @ LEDGER_END @ others)) = user @ others @ LEDGER_END @ [CHR 0x0A]"
proof -
  let ?b = "[CHR 0x0A] @ ''# '' @ title @ [CHR 0x0A] @ rows"
  have b: "CHR ''<'' \<notin> set ?b" using assms by auto
  have kept: "kept_text (user @ LEDGER_BEGIN @ ?b @ LEDGER_END @ t) = user @ t" for t
    using find_begin [OF assms(1), of "?b @ LEDGER_END @ t"] find_end [OF assms(1) b, of t]
    by (simp add: kept_text_def)
  have "kept_text user = user"
    using split_once_none [OF assms(1)] by (simp add: kept_text_def LEDGER_BEGIN_def)
  then show ?thesis
    using kept [of "[CHR 0x0A]"] kept [of "others @ LEDGER_END @ [CHR 0x0A]"] by (simp add: timeline_text_def)
qed

theorem timeline_projection_witness:
  "kept_text (timeline_text ''# mine'' ''t'' ''row'') = ''# mine'' @ [CHR 0x0A]"
  using timeline_projection [of "''# mine''" "''t''" "''row''"] by simp

end
