(* ===== verification/Selection.thy ===== *)
theory Selection
  imports Floats
begin

text \<open>
  Dependency selection under a budget (\<open>crates/innen-core/src/context_selection.rs\<close>): a graph
  of nodes with costs and relevances, the closure of a set of ids under \<open>requires\<close> edges, a
  greedy selection by relevance per cost, and the exact search over alternative evidence.  Sets
  of ids are ascending lists, as the \<open>BTreeSet\<close>s iterate.  The lemmas show that the closure loop
  ends with the least closed set, that the greedy selection is closed, within budget and cannot
  be extended, and that the search returns a cheapest combination or there is none.
\<close>

section \<open>Relevances\<close>

text \<open>Sums and quotients of finite non-negative floats, on magnitude bits; \<open>F64_INF\<close> is infinity.
  A quotient keeps a sticky last bit, so that rounding it is rounding the exact value.\<close>

definition F64_INF :: nat where
  "F64_INF = 0x7FF0000000000000"

definition mag_parts :: "nat \<Rightarrow> nat \<times> int" where
  "mag_parts b =
     (let ex = b div 2 ^ 52; man = b mod 2 ^ 52 in
      if ex = 0 then (man, - 1074) else (2 ^ 52 + man, int ex - 1075))"

definition mag_add :: "nat \<Rightarrow> nat \<Rightarrow> nat" where
  "mag_add a b =
     (if a \<ge> F64_INF \<or> b \<ge> F64_INF then F64_INF
      else
        (let (m, e) = mag_parts a; (n, f) = mag_parts b; g = min e f in
         encode_float 53 (- 1074) F64_INF (m * 2 ^ nat (e - g) + n * 2 ^ nat (f - g)) g))"

definition mag_div :: "nat \<Rightarrow> nat \<Rightarrow> nat" where
  "mag_div a b =
     (if a \<ge> F64_INF then F64_INF
      else
        (let (m, e) = mag_parts a; (n, f) = mag_parts b; x = m * 2 ^ 120 in
         encode_float 53 (- 1074) F64_INF (2 * (x div n) + (if x mod n = 0 then 0 else 1)) (e - f - 121)))"

definition magnitude :: "64 word \<Rightarrow> nat" where
  "magnitude w = unat w mod 2 ^ 63"

definition is_finite :: "64 word \<Rightarrow> bool" where
  "is_finite w \<longleftrightarrow> magnitude w < F64_INF"

definition below_zero :: "64 word \<Rightarrow> bool" where
  "below_zero w \<longleftrightarrow> unat w \<ge> 2 ^ 63 \<and> magnitude w \<noteq> 0"

section \<open>Graphs\<close>

record ctx_node =
  n_id :: nat
  n_cost :: nat
  n_relevance :: "64 word"

datatype relation = Requires | Related

record ctx_edge =
  e_from :: nat
  e_to :: nat
  e_relation :: relation

record fact =
  f_id :: string
  f_alternatives :: "nat list list"

datatype selection_error =
    Invalid string
  | BudgetInsufficient nat nat
  | FactsInfeasible nat
  | SearchLimit nat

record selection =
  s_selected :: "nat list"
  s_cost :: nat
  s_budget :: nat

record context_graph =
  cg_nodes :: "(nat \<times> ctx_node) list"
  cg_requires :: "(nat \<times> nat list) list"

definition add_node :: "ctx_node \<Rightarrow> (nat \<times> ctx_node) list \<Rightarrow> selection_error + (nat \<times> ctx_node) list" where
  "add_node n nodes =
     (if n_cost n = 0 \<or> \<not> is_finite (n_relevance n) \<or> below_zero (n_relevance n)
      then Inl (Invalid ''cost must be positive and relevance finite/nonnegative'')
      else if map_of nodes (n_id n) \<noteq> None then Inl (Invalid ''duplicate node'')
      else Inr (omap_insert (n_id n) n nodes))"

definition add_edge ::
  "(nat \<times> ctx_node) list \<Rightarrow> ctx_edge \<Rightarrow> (nat \<times> nat list) list \<Rightarrow> selection_error + (nat \<times> nat list) list" where
  "add_edge nodes e req =
     (if map_of nodes (e_from e) = None \<or> map_of nodes (e_to e) = None then Inl (Invalid ''dangling edge'')
      else Inr (case e_relation e of
                  Requires \<Rightarrow> omap_upd (e_from e) [] (insort_insert (e_to e)) req
                | Related \<Rightarrow> req))"

definition total_relevance :: "nat list \<Rightarrow> nat" where
  "total_relevance mags = fold (\<lambda>m t. mag_add t m) mags 0"

definition graph_new :: "ctx_node list \<Rightarrow> ctx_edge list \<Rightarrow> selection_error + context_graph" where
  "graph_new nodes edges =
     bindE (foldE add_node nodes []) (\<lambda>ns.
     if total_relevance (map (\<lambda>(_, n). magnitude (n_relevance n)) ns) \<ge> F64_INF
     then Inl (Invalid ''total relevance overflow'')
     else bindE (foldE (add_edge ns) edges []) (\<lambda>req. Inr \<lparr>cg_nodes = ns, cg_requires = req\<rparr>))"

section \<open>Closure\<close>

definition neighbors :: "context_graph \<Rightarrow> nat \<Rightarrow> nat list" where
  "neighbors g i = (case map_of (cg_requires g) i of None \<Rightarrow> [] | Some ns \<Rightarrow> ns)"

text \<open>\<open>if result.insert(neighbor) { pending.push(neighbor) }\<close>; the top of the stack is the head.\<close>

definition add_neighbor :: "nat \<Rightarrow> nat list \<times> nat list \<Rightarrow> nat list \<times> nat list" where
  "add_neighbor n = (\<lambda>(result, pending).
     if n \<in> set result then (result, pending) else (insort_insert n result, n # pending))"

definition edge_targets :: "context_graph \<Rightarrow> nat set" where
  "edge_targets g = (\<Union>(_, ns) \<in> set (cg_requires g). set ns)"

lemma neighbors_targets: "set (neighbors g i) \<subseteq> edge_targets g"
proof
  fix x assume "x \<in> set (neighbors g i)"
  then obtain ns where "(i, ns) \<in> set (cg_requires g)" "x \<in> set ns"
    by (cases "map_of (cg_requires g) i") (auto simp: neighbors_def dest: map_of_SomeD)
  then show "x \<in> edge_targets g" by (force simp: edge_targets_def)
qed

lemma finite_edge_targets [simp]: "finite (edge_targets g)"
  by (auto simp: edge_targets_def)

lemma add_neighbors_measure:
  assumes "fold add_neighbor ns (result, pending) = (result', pending')" and "set ns \<subseteq> U" and "finite U"
  shows "2 * card (U - set result') + length pending' \<le> 2 * card (U - set result) + length pending"
  using assms(1,2)
proof (induction ns arbitrary: result pending)
  case (Cons n ns)
  show ?case
  proof (cases "n \<in> set result")
    case False
    then have "U - set (insort_insert n result) = (U - set result) - {n}" and "n \<in> U - set result"
      using Cons.prems by auto
    then have "Suc (card (U - set (insort_insert n result))) = card (U - set result)"
      using assms(3) by (simp only: card_Suc_Diff1 finite_Diff)
    then show ?thesis using Cons.IH [of "insort_insert n result" "n # pending"] Cons.prems False
      by (simp add: add_neighbor_def)
  qed (use Cons in \<open>simp add: add_neighbor_def\<close>)
qed simp

function closure_loop :: "context_graph \<Rightarrow> nat list \<Rightarrow> nat list \<Rightarrow> nat list" where
  "closure_loop g result [] = result"
| "closure_loop g result (i # pending) =
     (let (result', pending') = fold add_neighbor (neighbors g i) (result, pending)
      in closure_loop g result' pending')"
  by pat_completeness auto
termination
proof (relation "measure (\<lambda>(g, result, pending). 2 * card (edge_targets g - set result) + length pending)", goal_cases)
  case (2 g result i pending x result' pending')
  then have "fold add_neighbor (neighbors g i) (result, pending) = (result', pending')" by simp
  from add_neighbors_measure [OF this neighbors_targets] show ?case by simp
qed simp

definition closure :: "context_graph \<Rightarrow> nat list \<Rightarrow> selection_error + nat list" where
  "closure g seeds =
     (if list_ex (\<lambda>s. map_of (cg_nodes g) s = None) seeds then Inl (Invalid ''unknown seed'')
      else Inr (closure_loop g seeds (rev seeds)))"

section \<open>Costs\<close>

text \<open>\<open>self.nodes[id]\<close> is only used for ids of the graph.\<close>

definition cost_of :: "context_graph \<Rightarrow> nat \<Rightarrow> nat" where
  "cost_of g i = (case map_of (cg_nodes g) i of None \<Rightarrow> 0 | Some n \<Rightarrow> n_cost n)"

definition relevance_of :: "context_graph \<Rightarrow> nat \<Rightarrow> nat" where
  "relevance_of g i = (case map_of (cg_nodes g) i of None \<Rightarrow> 0 | Some n \<Rightarrow> magnitude (n_relevance n))"

definition add_cost :: "context_graph \<Rightarrow> nat \<Rightarrow> nat \<Rightarrow> selection_error + nat" where
  "add_cost g i acc =
     (if acc + cost_of g i < 2 ^ 64 then Inr (acc + cost_of g i) else Inl (Invalid ''cost overflow''))"

definition set_cost :: "context_graph \<Rightarrow> nat list \<Rightarrow> selection_error + nat" where
  "set_cost g ids = foldE (add_cost g) ids 0"

section \<open>Greedy selection\<close>

type_synonym candidate = "nat \<times> nat \<times> nat list"

definition weigh ::
  "context_graph \<Rightarrow> nat \<Rightarrow> nat list \<Rightarrow> nat \<Rightarrow> nat list \<Rightarrow> candidate option \<Rightarrow> selection_error + candidate option" where
  "weigh g budget selected cost cl best =
     (let extra = filter (\<lambda>i. i \<notin> set selected) cl in
      if extra = [] then Inr best
      else
        bindE (set_cost g extra) (\<lambda>extra_cost.
        if extra_cost > budget - cost then Inr best
        else
          (let gain = total_relevance (map (relevance_of g) extra) in
           if gain = 0 then Inr best
           else
             (let density = mag_div gain (unat (f64_of_nat extra_cost)) in
              if (case best of None \<Rightarrow> True | Some (previous, _, _) \<Rightarrow> density > previous)
              then Inr (Some (density, extra_cost, extra)) else Inr best))))"

definition candidate_ok ::
  "context_graph \<Rightarrow> nat \<Rightarrow> nat list \<Rightarrow> nat \<Rightarrow> nat list list \<Rightarrow> candidate option \<Rightarrow> bool" where
  "candidate_ok g budget selected cost cls r \<longleftrightarrow>
     (\<forall>d c extra. r = Some (d, c, extra) \<longrightarrow> extra \<noteq> [] \<and> set_cost g extra = Inr c \<and> c \<le> budget - cost \<and>
        (\<exists>cl \<in> set cls. extra = filter (\<lambda>i. i \<notin> set selected) cl))"

lemma weigh_ok:
  assumes "weigh g budget selected cost cl best = Inr r" and "candidate_ok g budget selected cost cls best"
    and "cl \<in> set cls"
  shows "candidate_ok g budget selected cost cls r"
  using assms by (auto simp: weigh_def candidate_ok_def Let_def split: if_splits)

lemma pick_ok:
  assumes "foldE (weigh g budget selected cost) cls None = Inr r"
  shows "candidate_ok g budget selected cost cls r"
  by (rule foldE_invariant [OF assms]) (auto simp: candidate_ok_def [where r = None] intro: weigh_ok)

function greedy :: "context_graph \<Rightarrow> nat \<Rightarrow> nat list list \<Rightarrow> nat list \<Rightarrow> nat \<Rightarrow> selection_error + selection" where
  "greedy g budget cls selected cost =
     (case foldE (weigh g budget selected cost) cls None of
        Inl e \<Rightarrow> Inl e
      | Inr None \<Rightarrow> Inr \<lparr>s_selected = selected, s_cost = cost, s_budget = budget\<rparr>
      | Inr (Some (_, extra_cost, extra)) \<Rightarrow> greedy g budget cls (set_union selected extra) (cost + extra_cost))"
  by pat_completeness auto
termination
proof (relation "measure (\<lambda>(g, budget, cls, selected, cost). card (\<Union>(set ` set cls) - set selected))", goal_cases)
  case (2 g budget cls selected cost r c d x extra_cost extra)
  then have "candidate_ok g budget selected cost cls (Some (d, extra_cost, extra))" by (auto dest: pick_ok)
  then have "extra \<noteq> []" "set extra \<subseteq> \<Union>(set ` set cls) - set selected" by (auto simp: candidate_ok_def)
  moreover from this obtain y where "y \<in> set extra" by (cases extra) auto
  moreover have "finite (\<Union>(set ` set cls) - set selected)" by auto
  ultimately have "card (\<Union>(set ` set cls) - set selected - set extra) < card (\<Union>(set ` set cls) - set selected)"
    by (intro psubset_card_mono) auto
  then show ?case by (simp add: Diff_eq Int_assoc)
qed simp

declare greedy.simps [simp del]

definition select :: "context_graph \<Rightarrow> nat \<Rightarrow> nat list \<Rightarrow> selection_error + selection" where
  "select g budget seeds =
     bindE (closure g seeds) (\<lambda>selected.
     bindE (set_cost g selected) (\<lambda>cost.
     if cost > budget then Inl (BudgetInsufficient cost budget)
     else
       bindE (mapE (\<lambda>i. closure g [i]) (map fst (cg_nodes g))) (\<lambda>cls.
       greedy g budget cls selected cost)))"

section \<open>Searching the alternatives\<close>

record search =
  sr_states :: nat
  sr_best :: "selection option"
  sr_visited :: "(nat \<times> nat list) list"

type_synonym packet_cost = "(nat list \<Rightarrow> selection_error + nat) option"

definition visit_cost :: "context_graph \<Rightarrow> packet_cost \<Rightarrow> bool \<Rightarrow> nat list \<Rightarrow> selection_error + nat" where
  "visit_cost g pc leaf selected =
     (case pc of Some f \<Rightarrow> if leaf then f selected else Inr 0 | None \<Rightarrow> set_cost g selected)"

definition pruned :: "nat \<Rightarrow> packet_cost \<Rightarrow> bool \<Rightarrow> nat \<Rightarrow> search \<Rightarrow> bool" where
  "pruned budget pc leaf cost st \<longleftrightarrow>
     (pc = None \<or> leaf) \<and> (cost > budget \<or> (case sr_best st of None \<Rightarrow> False | Some b \<Rightarrow> cost \<ge> s_cost b))"

definition enter :: "nat \<Rightarrow> nat \<Rightarrow> nat list \<Rightarrow> search \<Rightarrow> selection_error + search" where
  "enter limit index selected st =
     (if sr_states st \<ge> limit then Inl (SearchLimit limit)
      else Inr (st\<lparr>sr_states := sr_states st + 1, sr_visited := (index, selected) # sr_visited st\<rparr>))"

function visit ::
    "context_graph \<Rightarrow> packet_cost \<Rightarrow> nat \<Rightarrow> nat \<Rightarrow> nat \<Rightarrow> nat list list list \<Rightarrow> nat list \<Rightarrow> search \<Rightarrow> selection_error + search"
  and visit_each ::
    "context_graph \<Rightarrow> packet_cost \<Rightarrow> nat \<Rightarrow> nat \<Rightarrow> nat \<Rightarrow> nat list list \<Rightarrow> nat list list list \<Rightarrow> nat list \<Rightarrow> search \<Rightarrow> selection_error + search"
  where
  "visit g pc budget limit index rest selected st =
     (if (index, selected) \<in> set (sr_visited st) then Inr st
      else
        bindE (enter limit index selected st) (\<lambda>st1.
        bindE (visit_cost g pc (rest = []) selected) (\<lambda>cost.
        if pruned budget pc (rest = []) cost st1 then Inr st1
        else
          (case rest of
             [] \<Rightarrow> Inr (st1\<lparr>sr_best := Some \<lparr>s_selected = selected, s_cost = cost, s_budget = budget\<rparr>\<rparr>)
           | alts # rest' \<Rightarrow> visit_each g pc budget limit index alts rest' selected st1))))"
| "visit_each g pc budget limit index [] rest selected st = Inr st"
| "visit_each g pc budget limit index (a # alts) rest selected st =
     bindE (visit g pc budget limit (index + 1) rest (set_union selected a) st)
       (visit_each g pc budget limit index alts rest selected)"
  by pat_completeness auto
termination
  by (relation "measures [case_sum (\<lambda>(_, _, _, _, _, rest, _). length rest) (\<lambda>(_, _, _, _, _, _, rest, _). length rest),
      case_sum (\<lambda>_. 0) (\<lambda>(_, _, _, _, _, alts, _). Suc (length alts))]") auto

declare visit.simps [simp del]

definition fact_ok :: "string list \<Rightarrow> fact \<Rightarrow> bool" where
  "fact_ok ids f \<longleftrightarrow> f_id f \<noteq> [] \<and> f_id f \<notin> set ids \<and> f_alternatives f \<noteq> [] \<and> [] \<notin> set (f_alternatives f)"

fun close_facts :: "context_graph \<Rightarrow> string list \<Rightarrow> fact list \<Rightarrow> selection_error + nat list list list" where
  "close_facts g ids [] = Inr []"
| "close_facts g ids (f # fs) =
     (if \<not> fact_ok ids f then Inl (Invalid ''facts require unique IDs and nonempty evidence alternatives'')
      else
        bindE (mapE (closure g) (f_alternatives f)) (\<lambda>alts.
        bindE (close_facts g (f_id f # ids) fs) (\<lambda>closed. Inr (alts # closed))))"

definition select_facts_inner ::
  "context_graph \<Rightarrow> nat \<Rightarrow> fact list \<Rightarrow> nat \<Rightarrow> packet_cost \<Rightarrow> selection_error + selection" where
  "select_facts_inner g budget facts limit pc =
     bindE (close_facts g [] facts) (\<lambda>closed.
     bindE (visit g pc budget limit 0 closed [] \<lparr>sr_states = 0, sr_best = None, sr_visited = []\<rparr>) (\<lambda>st.
     ok_or (FactsInfeasible budget) (sr_best st)))"

definition select_facts :: "context_graph \<Rightarrow> nat \<Rightarrow> fact list \<Rightarrow> nat \<Rightarrow> selection_error + selection" where
  "select_facts g budget facts limit = select_facts_inner g budget facts limit None"

definition select_facts_by ::
  "context_graph \<Rightarrow> nat \<Rightarrow> fact list \<Rightarrow> nat \<Rightarrow> (nat list \<Rightarrow> selection_error + nat) \<Rightarrow> selection_error + selection" where
  "select_facts_by g budget facts limit f = select_facts_inner g budget facts limit (Some f)"

section \<open>The closure is the least closed set\<close>

definition needs :: "context_graph \<Rightarrow> (nat \<times> nat) set" where
  "needs g = {(i, j). j \<in> set (neighbors g i)}"

lemma add_neighbors:
  assumes "fold add_neighbor ns (result, pending) = (result', pending')"
  shows "set result' = set result \<union> set ns" and "set pending' = set pending \<union> (set ns - set result)"
    and "oset_ok result \<Longrightarrow> oset_ok result'"
proof -
  have "set result' = set result \<union> set ns \<and> set pending' = set pending \<union> (set ns - set result) \<and>
      (oset_ok result \<longrightarrow> oset_ok result')"
    using assms
  proof (induction ns arbitrary: result pending)
    case (Cons n ns)
    show ?case
    proof (cases "n \<in> set result")
      case True
      then have "fold add_neighbor ns (result, pending) = (result', pending')"
        using Cons.prems by (simp add: add_neighbor_def [of n])
      from Cons.IH [OF this] True show ?thesis by auto
    next
      case False
      then have "fold add_neighbor ns (insort_insert n result, n # pending) = (result', pending')"
        using Cons.prems by (simp add: add_neighbor_def [of n])
      from Cons.IH [OF this] False show ?thesis by auto
    qed
  qed simp
  then show "set result' = set result \<union> set ns" and "set pending' = set pending \<union> (set ns - set result)"
    and "oset_ok result \<Longrightarrow> oset_ok result'" by auto
qed

lemma closure_loop_spec:
  assumes "set pending \<subseteq> set result" and "\<forall>i \<in> set result - set pending. set (neighbors g i) \<subseteq> set result"
    and "oset_ok result"
  shows "oset_ok (closure_loop g result pending) \<and> set (closure_loop g result pending) = (needs g)\<^sup>* `` set result"
  using assms
proof (induction g result pending rule: closure_loop.induct)
  case (1 g result)
  have "y \<in> set result" if "(x, y) \<in> (needs g)\<^sup>*" "x \<in> set result" for x y
    using that by (induction rule: rtrancl_induct) (use 1 in \<open>auto simp: needs_def\<close>)
  with 1 show ?case by auto
next
  case (2 g result i pending)
  obtain result' pending' where e: "fold add_neighbor (neighbors g i) (result, pending) = (result', pending')"
    by (cases "fold add_neighbor (neighbors g i) (result, pending)")
  note sets = add_neighbors(1,2) [OF e]
  have "oset_ok (closure_loop g result' pending') \<and> set (closure_loop g result' pending') = (needs g)\<^sup>* `` set result'"
  proof (rule "2.IH" [OF e [symmetric] refl])
    show "set pending' \<subseteq> set result'" using "2.prems"(1) sets by auto
    show "\<forall>j \<in> set result' - set pending'. set (neighbors g j) \<subseteq> set result'"
      using "2.prems"(2) sets by auto
    show "oset_ok result'" using add_neighbors(3) [OF e] "2.prems"(3) by simp
  qed
  moreover have "(needs g)\<^sup>* `` set result' = (needs g)\<^sup>* `` set result"
  proof -
    have "i \<in> set result" using "2.prems"(1) by simp
    moreover have "(i, n) \<in> needs g" if "n \<in> set (neighbors g i)" for n using that by (simp add: needs_def)
    ultimately show ?thesis unfolding sets by (blast intro: converse_rtrancl_into_rtrancl)
  qed
  ultimately show ?case by (simp add: e)
qed

lemma closure_Inr:
  assumes "closure g seeds = Inr r" and "oset_ok seeds"
  shows "oset_ok r" and "set r = (needs g)\<^sup>* `` set seeds"
  using assms closure_loop_spec [of "rev seeds" seeds g] by (auto simp: closure_def split: if_splits)

definition graph_ok :: "context_graph \<Rightarrow> bool" where
  "graph_ok g \<longleftrightarrow> omap_ok (cg_nodes g) \<and> edge_targets g \<subseteq> dom (map_of (cg_nodes g)) \<and>
     (\<forall>n \<in> ran (map_of (cg_nodes g)). 0 < n_cost n \<and> is_finite (n_relevance n))"

lemma neighbors_upd:
  "neighbors \<lparr>cg_nodes = ns, cg_requires = omap_upd a [] (insort_insert b) req\<rparr> i =
     (if i = a then insort_insert b (neighbors \<lparr>cg_nodes = ns, cg_requires = req\<rparr> i)
      else neighbors \<lparr>cg_nodes = ns, cg_requires = req\<rparr> i)"
  by (auto simp: neighbors_def split: option.splits)

lemma graph_new_ok:
  assumes "graph_new nodes edges = Inr g"
  shows "omap_ok (cg_nodes g)" and "set (neighbors g i) \<subseteq> dom (map_of (cg_nodes g))"
    and "map_of (cg_nodes g) i = Some n \<Longrightarrow> 0 < n_cost n"
proof -
  obtain ns req where ns: "foldE add_node nodes [] = Inr ns" and req: "foldE (add_edge ns) edges [] = Inr req"
    and g: "g = \<lparr>cg_nodes = ns, cg_requires = req\<rparr>"
    using assms by (auto simp: graph_new_def split: if_splits)
  have "omap_ok ns \<and> (\<forall>i n. map_of ns i = Some n \<longrightarrow> 0 < n_cost n)"
    by (rule foldE_invariant [OF ns]) (auto simp: add_node_def split: if_splits)
  then show "omap_ok (cg_nodes g)" and "map_of (cg_nodes g) i = Some n \<Longrightarrow> 0 < n_cost n" by (auto simp: g)
  have "\<forall>i x. x \<in> set (neighbors \<lparr>cg_nodes = ns, cg_requires = req\<rparr> i) \<longrightarrow> map_of ns x \<noteq> None"
  proof (rule foldE_invariant [OF req])
    fix e req1 req2
    assume "\<forall>i x. x \<in> set (neighbors \<lparr>cg_nodes = ns, cg_requires = req1\<rparr> i) \<longrightarrow> map_of ns x \<noteq> None"
      and "add_edge ns e req1 = Inr req2"
    then show "\<forall>i x. x \<in> set (neighbors \<lparr>cg_nodes = ns, cg_requires = req2\<rparr> i) \<longrightarrow> map_of ns x \<noteq> None"
      by (auto simp: add_edge_def neighbors_upd split: if_splits relation.splits)
  qed (simp add: neighbors_def)
  then show "set (neighbors g i) \<subseteq> dom (map_of (cg_nodes g))" by (auto simp: g)
qed

section \<open>Costs\<close>

lemma set_cost_sum: "set_cost g ids = (if sum_list (map (cost_of g) ids) < 2 ^ 64 \<or> ids = []
    then Inr (sum_list (map (cost_of g) ids)) else Inl (Invalid ''cost overflow''))"
proof -
  have "foldE (add_cost g) ids acc = (if acc + sum_list (map (cost_of g) ids) < 2 ^ 64
      then Inr (acc + sum_list (map (cost_of g) ids)) else Inl (Invalid ''cost overflow''))" if "acc < 2 ^ 64" for acc
    using that by (induction ids arbitrary: acc) (auto simp: add_cost_def add.assoc)
  from this [of 0] show ?thesis by (simp add: set_cost_def)
qed

lemma set_cost_Inr: "set_cost g ids = Inr c \<Longrightarrow> c = sum_list (map (cost_of g) ids)"
  by (auto simp: set_cost_sum split: if_splits)

lemma sum_costs: "oset_ok ids \<Longrightarrow> sum_list (map (cost_of g) ids) = sum (cost_of g) (set ids)"
  by (simp add: oset_ok_distinct sum_list_distinct_conv_sum_set)

section \<open>Sums of relevances\<close>

lemma bit_len_lower: "0 < m \<Longrightarrow> 2 ^ (bit_len m - 1) \<le> m"
proof (induction m rule: bit_len.induct)
  case (1 m)
  show ?case
  proof (cases "m div 2 = 0")
    case True
    then have "bit_len m = Suc 0" using 1(2) by (subst bit_len.simps) (simp add: bit_len.simps)
    then show ?thesis using 1(2) by simp
  next
    case False
    then have "2 ^ (bit_len (m div 2) - 1) \<le> m div 2" "0 < bit_len (m div 2)"
      using 1 by (simp, subst bit_len.simps, simp)
    then show ?thesis using 1(2) by (subst bit_len.simps) (cases "bit_len (m div 2)"; simp)
  qed
qed

lemma round_shift_pos: "2 ^ s \<le> m \<Longrightarrow> 0 < round_shift m s"
  by (simp add: round_shift_def Let_def div_greater_zero_iff)

lemma encode_float_pos:
  assumes "0 < m" and "- 1074 \<le> e"
  shows "0 < encode_float 53 (- 1074) F64_INF m e"
proof -
  define q where "q = max (e + int (bit_len m) - 53) (- 1074)"
  have "0 < (if q \<le> e then m * 2 ^ nat (e - q) else round_shift m (nat (q - e)))"
  proof (cases "q \<le> e")
    case False
    then have "nat (q - e) = bit_len m - 53" and "53 < bit_len m" using assms(2) by (auto simp: q_def max_def split: if_splits)
    moreover have "2 ^ (bit_len m - 53) \<le> (2::nat) ^ (bit_len m - 1)" by (rule power_increasing) simp_all
    from order.trans [OF this bit_len_lower [OF assms(1)]] have "2 ^ (bit_len m - 53) \<le> m" .
    ultimately show ?thesis using False by (simp add: round_shift_pos)
  qed (use assms(1) in simp)
  then show ?thesis using assms(1) by (simp add: encode_float_def Let_def q_def [symmetric] F64_INF_def)
qed

lemma mag_parts_pos: "0 < fst (mag_parts b) \<longleftrightarrow> 0 < b" "- 1074 \<le> snd (mag_parts b)"
proof -
  have "b = 0" if "b div 2 ^ 52 = 0" "b mod 2 ^ 52 = 0" using that by (metis div_mult_mod_eq add_0 mult_0)
  then show "0 < fst (mag_parts b) \<longleftrightarrow> 0 < b" by (auto simp: mag_parts_def Let_def)
  show "- 1074 \<le> snd (mag_parts b)" by (auto simp: mag_parts_def Let_def)
qed

lemma mag_add_pos:
  assumes "0 < a \<or> 0 < b"
  shows "0 < mag_add a b"
proof -
  obtain m e n f where p: "mag_parts a = (m, e)" "mag_parts b = (n, f)" by (metis surj_pair)
  have "0 < m \<or> 0 < n" "- 1074 \<le> min e f" using assms mag_parts_pos [of a] mag_parts_pos [of b] by (auto simp: p)
  then have "0 < encode_float 53 (- 1074) F64_INF (m * 2 ^ nat (e - min e f) + n * 2 ^ nat (f - min e f)) (min e f)"
    by (intro encode_float_pos) auto
  moreover have "0 < F64_INF" by (simp add: F64_INF_def)
  ultimately show ?thesis by (simp add: mag_add_def p Let_def)
qed

lemma total_relevance_zero: "total_relevance ms = 0 \<Longrightarrow> \<forall>m \<in> set ms. m = 0"
proof -
  have "fold (\<lambda>m t. mag_add t m) ms t = 0 \<Longrightarrow> t = 0 \<and> (\<forall>m \<in> set ms. m = 0)" for t
  proof (induction ms arbitrary: t)
    case (Cons m ms)
    from Cons.prems have "fold (\<lambda>m t. mag_add t m) ms (mag_add t m) = 0" by simp
    from Cons.IH [OF this] have zero: "mag_add t m = 0" and ms: "\<forall>m \<in> set ms. m = 0" by blast+
    have "\<not> (0 < t \<or> 0 < m)" using mag_add_pos [of t m] unfolding zero by blast
    with ms show ?case by simp
  qed simp
  from this [of 0] show "total_relevance ms = 0 \<Longrightarrow> \<forall>m \<in> set ms. m = 0"
    unfolding total_relevance_def by blast
qed

section \<open>The greedy selection\<close>

definition closed :: "context_graph \<Rightarrow> nat set \<Rightarrow> bool" where
  "closed g S \<longleftrightarrow> (\<forall>i \<in> S. set (neighbors g i) \<subseteq> S)"

lemma closed_reach: "closed g ((needs g)\<^sup>* `` S)"
  unfolding closed_def needs_def by (auto intro: rtrancl_into_rtrancl)

text \<open>A closure that could be added: it brings something relevant and fits.\<close>

definition fits :: "context_graph \<Rightarrow> nat \<Rightarrow> nat list \<Rightarrow> nat \<Rightarrow> nat list \<Rightarrow> bool" where
  "fits g budget selected cost cl \<longleftrightarrow>
     (let extra = filter (\<lambda>i. i \<notin> set selected) cl in
      extra \<noteq> [] \<and> sum_list (map (cost_of g) extra) \<le> budget - cost \<and>
      total_relevance (map (relevance_of g) extra) \<noteq> 0)"

lemma pick_None:
  assumes "foldE (weigh g budget selected cost) cls best = Inr None"
  shows "best = None \<and> (\<forall>cl \<in> set cls. \<not> fits g budget selected cost cl)"
  using assms
proof (induction cls arbitrary: best)
  case (Cons cl cls)
  then obtain best1 where b: "weigh g budget selected cost cl best = Inr best1"
      and "foldE (weigh g budget selected cost) cls best1 = Inr None" by auto
  with Cons.IH have "best1 = None" "\<forall>cl \<in> set cls. \<not> fits g budget selected cost cl" by blast+
  moreover from b this(1) have "best = None \<and> \<not> fits g budget selected cost cl"
    by (cases best) (auto simp: weigh_def fits_def Let_def split: if_splits dest!: set_cost_Inr)
  ultimately show ?case by simp
qed simp

lemma greedy_ok:
  assumes "greedy g budget cls selected cost = Inr s"
    and "oset_ok selected" "closed g (set selected)" "cost = sum_list (map (cost_of g) selected)" "cost \<le> budget"
    and "\<forall>cl \<in> set cls. oset_ok cl \<and> closed g (set cl)"
  shows "oset_ok (s_selected s) \<and> set selected \<subseteq> set (s_selected s) \<and> closed g (set (s_selected s)) \<and>
    s_cost s = sum_list (map (cost_of g) (s_selected s)) \<and> s_cost s \<le> budget \<and> s_budget s = budget \<and>
    (\<forall>cl \<in> set cls. \<not> fits g budget (s_selected s) (s_cost s) cl)"
  using assms
proof (induction g budget cls selected cost arbitrary: s rule: greedy.induct)
  case (1 g budget cls selected cost)
  show ?case
  proof (cases "foldE (weigh g budget selected cost) cls None")
    case (Inl e)
    then show ?thesis using "1.prems"(1) by (simp add: greedy.simps)
  next
    case (Inr r)
    show ?thesis
    proof (cases r)
      case None
      then have "s = \<lparr>s_selected = selected, s_cost = cost, s_budget = budget\<rparr>"
        using Inr "1.prems"(1) by (simp add: greedy.simps)
      then show ?thesis using "1.prems" pick_None [of g budget selected cost cls None] Inr None by simp
    next
      case (Some t)
      obtain d c extra where t: "t = (d, c, extra)" by (cases t)
      have "candidate_ok g budget selected cost cls (Some (d, c, extra))"
        using pick_ok Inr Some t by blast
      then obtain cl where e: "set_cost g extra = Inr c" "c \<le> budget - cost" "cl \<in> set cls"
          "extra = filter (\<lambda>i. i \<notin> set selected) cl" by (auto simp: candidate_ok_def)
      have new: "set (set_union selected extra) = set selected \<union> set cl" by (auto simp: e(4))
      have "sum_list (map (cost_of g) (set_union selected extra)) =
          sum_list (map (cost_of g) selected) + sum_list (map (cost_of g) extra)"
      proof -
        have "set selected \<inter> set extra = {}" by (auto simp: e(4))
        then show ?thesis
          using "1.prems"(2,6) e(3) by (simp add: sum_costs e(4) sum.union_disjoint)
      qed
      then have sum: "cost + c = sum_list (map (cost_of g) (set_union selected extra))"
        using "1.prems"(4) set_cost_Inr [OF e(1)] by simp
      have le: "cost + c \<le> budget" using e(2) "1.prems"(5) by simp
      have "closed g (set (set_union selected extra))"
        using "1.prems"(3,6) e(3) unfolding new by (auto simp: closed_def)
      moreover have "greedy g budget cls (set_union selected extra) (cost + c) = Inr s"
        using Inr Some t "1.prems"(1) by (subst (asm) greedy.simps) simp
      ultimately have "oset_ok (s_selected s) \<and> set (set_union selected extra) \<subseteq> set (s_selected s) \<and>
          closed g (set (s_selected s)) \<and> s_cost s = sum_list (map (cost_of g) (s_selected s)) \<and>
          s_cost s \<le> budget \<and> s_budget s = budget \<and> (\<forall>cl \<in> set cls. \<not> fits g budget (s_selected s) (s_cost s) cl)"
        using "1.IH" [OF Inr Some t [symmetric] refl] "1.prems"(2,6) sum le by blast
      then show ?thesis by auto
    qed
  qed
qed

section \<open>The exact search\<close>

text \<open>The ways to take one alternative of each remaining fact.\<close>

fun completions :: "nat list list list \<Rightarrow> nat list \<Rightarrow> nat list set" where
  "completions [] selected = {selected}"
| "completions (alts # rest) selected = (\<Union>a \<in> set alts. completions rest (set_union selected a))"

definition covered :: "context_graph \<Rightarrow> packet_cost \<Rightarrow> nat \<Rightarrow> nat list list list \<Rightarrow> nat list \<Rightarrow> selection option \<Rightarrow> bool" where
  "covered g pc budget rest selected best \<longleftrightarrow>
     (\<forall>c \<in> completions rest selected. \<forall>n. visit_cost g pc True c = Inr n \<and> n \<le> budget \<longrightarrow>
        (\<exists>b. best = Some b \<and> s_cost b \<le> n))"

definition improves :: "selection option \<Rightarrow> selection option \<Rightarrow> bool" where
  "improves best best' \<longleftrightarrow> (\<forall>b. best = Some b \<longrightarrow> (\<exists>b'. best' = Some b' \<and> s_cost b' \<le> s_cost b))"

lemma improves_refl [simp]: "improves b b"
  by (simp add: improves_def)

lemma improves_trans: "improves a b \<Longrightarrow> improves b c \<Longrightarrow> improves a c"
  by (cases a; cases b) (auto simp: improves_def intro: order.trans)

lemma covered_improves: "covered g pc budget rest selected best \<Longrightarrow> improves best best' \<Longrightarrow> covered g pc budget rest selected best'"
  unfolding covered_def improves_def by (meson order.trans)

lemma completions_superset:
  "c \<in> completions rest selected \<Longrightarrow> set selected \<subseteq> set c \<and> (oset_ok selected \<longrightarrow> oset_ok c)"
  by (induction rest arbitrary: selected) (force, fastforce)

lemma sum_costs_mono:
  assumes "oset_ok xs" "oset_ok ys" "set xs \<subseteq> set ys"
  shows "sum_list (map (cost_of g) xs) \<le> sum_list (map (cost_of g) ys)"
  using assms by (simp add: sum_costs sum_mono2)

text \<open>A pruned state cannot lead to something better.\<close>

lemma pruned_covered:
  assumes "pruned budget pc (rest = []) cost st" and "visit_cost g pc (rest = []) selected = Inr cost" and "oset_ok selected"
  shows "covered g pc budget rest selected (sr_best st)"
  unfolding covered_def
proof (intro ballI allI impI)
  fix c n assume c: "c \<in> completions rest selected" and n: "visit_cost g pc True c = Inr n \<and> n \<le> budget"
  have "cost \<le> n"
  proof (cases pc)
    case None
    then show ?thesis
      using assms(2,3) n completions_superset [OF c] sum_costs_mono [of selected c g]
      by (auto simp: visit_cost_def dest!: set_cost_Inr)
  next
    case (Some f)
    then show ?thesis using assms(1,2) c n by (auto simp: pruned_def)
  qed
  then show "\<exists>b. sr_best st = Some b \<and> s_cost b \<le> n"
    using assms(1) n by (auto simp: pruned_def split: option.splits)
qed

definition visited_ok :: "context_graph \<Rightarrow> packet_cost \<Rightarrow> nat \<Rightarrow> nat list list list \<Rightarrow> nat \<Rightarrow> search \<Rightarrow> bool" where
  "visited_ok g pc budget all k st \<longleftrightarrow>
     (\<forall>(j, s) \<in> set (sr_visited st). k \<le> j \<longrightarrow> covered g pc budget (drop j all) s (sr_best st))"

definition best_valid :: "context_graph \<Rightarrow> packet_cost \<Rightarrow> nat \<Rightarrow> nat list list list \<Rightarrow> search \<Rightarrow> bool" where
  "best_valid g pc budget all st \<longleftrightarrow> (\<forall>b. sr_best st = Some b \<longrightarrow>
     s_selected b \<in> completions all [] \<and> visit_cost g pc True (s_selected b) = Inr (s_cost b) \<and>
     s_cost b \<le> budget \<and> s_budget b = budget)"

definition search_step :: "context_graph \<Rightarrow> packet_cost \<Rightarrow> nat \<Rightarrow> nat list list list \<Rightarrow> nat \<Rightarrow> search \<Rightarrow> search \<Rightarrow> bool" where
  "search_step g pc budget all k st st' \<longleftrightarrow>
     visited_ok g pc budget all k st' \<and> best_valid g pc budget all st' \<and> improves (sr_best st) (sr_best st') \<and>
     (\<forall>(j, s) \<in> set (sr_visited st'). j < k \<longrightarrow> (j, s) \<in> set (sr_visited st))"

lemma visited_ok_mono: "visited_ok g pc budget all k st \<Longrightarrow> k \<le> k' \<Longrightarrow> visited_ok g pc budget all k' st"
  by (auto simp: visited_ok_def)

lemma visit_ok:
  "visit g pc budget limit index rest selected st = Inr st' \<Longrightarrow> rest = drop index all \<Longrightarrow> index \<le> length all \<Longrightarrow>
     oset_ok selected \<Longrightarrow> completions rest selected \<subseteq> completions all [] \<Longrightarrow>
     visited_ok g pc budget all index st \<Longrightarrow> best_valid g pc budget all st \<Longrightarrow>
     search_step g pc budget all index st st' \<and> covered g pc budget rest selected (sr_best st')"
  "visit_each g pc budget limit index alts rest selected st = Inr st' \<Longrightarrow> rest = drop (Suc index) all \<Longrightarrow>
     index < length all \<Longrightarrow> oset_ok selected \<Longrightarrow>
     (\<forall>a \<in> set alts. completions rest (set_union selected a) \<subseteq> completions all []) \<Longrightarrow>
     visited_ok g pc budget all (Suc index) st \<Longrightarrow> best_valid g pc budget all st \<Longrightarrow>
     search_step g pc budget all (Suc index) st st' \<and>
     (\<forall>a \<in> set alts. covered g pc budget rest (set_union selected a) (sr_best st'))"
proof (induction g pc budget limit index rest selected st and g pc budget limit index alts rest selected st
    arbitrary: st' and st' rule: visit_visit_each.induct)
  case (1 g pc budget limit index rest selected st)
  show ?case
  proof (cases "(index, selected) \<in> set (sr_visited st)")
    case True
    then have "st' = st" using "1.prems"(1) by (simp add: visit.simps)
    then show ?thesis using "1.prems"(2,6,7) True by (auto simp: search_step_def visited_ok_def)
  next
    case False
    define st1 where "st1 = st\<lparr>sr_states := sr_states st + 1, sr_visited := (index, selected) # sr_visited st\<rparr>"
    from "1.prems"(1) False obtain cost where en: "enter limit index selected st = Inr st1"
      and cost: "visit_cost g pc (rest = []) selected = Inr cost"
      by (subst (asm) visit.simps) (auto simp: enter_def st1_def split: if_splits)
    have pre: "visited_ok g pc budget all (Suc index) st1" "best_valid g pc budget all st1" "sr_best st1 = sr_best st"
      using "1.prems"(6,7) by (auto simp: visited_ok_def best_valid_def st1_def)
    have finish: "search_step g pc budget all index st st' \<and> covered g pc budget rest selected (sr_best st')"
      if step: "search_step g pc budget all (Suc index) st1 st'" and cov: "covered g pc budget rest selected (sr_best st')"
    proof -
      have imp: "improves (sr_best st) (sr_best st')" using step pre(3) by (simp add: search_step_def)
      have "covered g pc budget (drop j all) s (sr_best st')" if js: "(j, s) \<in> set (sr_visited st')" "index \<le> j" for j s
      proof (cases "j = index")
        case True
        then have "(j, s) \<in> set (sr_visited st1)" using step js by (auto simp: search_step_def)
        then show ?thesis
          using cov True "1.prems"(2,6) covered_improves imp by (auto simp: st1_def visited_ok_def)
      next
        case False
        then show ?thesis using step js by (auto simp: search_step_def visited_ok_def)
      qed
      moreover have "(j, s) \<in> set (sr_visited st)" if "(j, s) \<in> set (sr_visited st')" "j < index" for j s
        using step that by (auto simp: search_step_def st1_def)
      ultimately show ?thesis using step imp cov by (auto simp: search_step_def visited_ok_def)
    qed
    show ?thesis
    proof (cases "pruned budget pc (rest = []) cost st1")
      case True
      then have st': "st' = st1" using "1.prems"(1) False en cost by (subst (asm) visit.simps) simp
      show ?thesis
        by (rule finish) (use pre pruned_covered [OF True cost "1.prems"(4)] in \<open>auto simp: st' search_step_def\<close>)
    next
      case go: False
      show ?thesis
      proof (cases rest)
        case Nil
        then have st': "st' = st1\<lparr>sr_best := Some \<lparr>s_selected = selected, s_cost = cost, s_budget = budget\<rparr>\<rparr>"
          using "1.prems"(1) False en cost go by (subst (asm) visit.simps) simp
        have "improves (sr_best st1) (sr_best st')" and "cost \<le> budget"
          using go Nil by (auto simp: st' improves_def pruned_def)
        moreover have "best_valid g pc budget all st'"
          using "1.prems"(5) cost Nil \<open>cost \<le> budget\<close> by (auto simp: best_valid_def st')
        moreover have "visited_ok g pc budget all (Suc index) st'"
          using pre(1) calculation(1) covered_improves by (fastforce simp: visited_ok_def st')
        ultimately show ?thesis
          using cost Nil by (intro finish) (auto simp: search_step_def st' covered_def)
      next
        case (Cons alts rest')
        have each: "visit_each g pc budget limit index alts rest' selected st1 = Inr st'"
          using "1.prems"(1) False en cost go Cons by (subst (asm) visit.simps) simp
        have "rest' = drop (Suc index) all" "index < length all"
          using "1.prems"(2) Cons by (metis drop_Suc list.sel(3) tl_drop, metis drop_all list.distinct(1) not_le)
        with "1.IH" [OF False en cost go Cons each] pre "1.prems"(4,5) Cons
        have "search_step g pc budget all (Suc index) st1 st' \<and>
            (\<forall>a \<in> set alts. covered g pc budget rest' (set_union selected a) (sr_best st'))" by auto
        then show ?thesis by (intro finish) (auto simp: Cons covered_def)
      qed
    qed
  qed
next
  case (2 g pc budget limit index rest selected st)
  then show ?case by (auto simp: visit.simps search_step_def)
next
  case (3 g pc budget limit index a alts rest selected st)
  then obtain st1 where one: "visit g pc budget limit (index + 1) rest (set_union selected a) st = Inr st1"
      and two: "visit_each g pc budget limit index alts rest selected st1 = Inr st'"
    by (auto simp: visit.simps)
  have s1: "search_step g pc budget all (Suc index) st st1 \<and> covered g pc budget rest (set_union selected a) (sr_best st1)"
    using "3.IH"(1) [OF one] "3.prems" by simp
  have s2: "search_step g pc budget all (Suc index) st1 st' \<and>
      (\<forall>a \<in> set alts. covered g pc budget rest (set_union selected a) (sr_best st'))"
    using "3.IH"(2) [OF one two] "3.prems" s1 by (simp add: search_step_def)
  then show ?case
    using s1 by (auto simp: search_step_def intro: improves_trans covered_improves)
qed

section \<open>Properties\<close>

text \<open>C31. The closure loop ends on every graph, cycles included, with exactly the ids reachable from the
  seeds by \<open>requires\<close> edges, in ascending order; only an unknown seed is refused.\<close>

theorem closure_reachable:
  assumes "oset_ok seeds"
  shows "case closure g seeds of
      Inl e \<Rightarrow> e = Invalid ''unknown seed'' \<and> \<not> set seeds \<subseteq> dom (map_of (cg_nodes g))
    | Inr r \<Rightarrow> oset_ok r \<and> set r = (needs g)\<^sup>* `` set seeds \<and> set seeds \<subseteq> dom (map_of (cg_nodes g))"
proof (cases "set seeds \<subseteq> dom (map_of (cg_nodes g))")
  case True
  then have "closure g seeds = Inr (closure_loop g seeds (rev seeds))"
    by (auto simp: closure_def list_ex_iff)
  with closure_Inr [OF this assms] True show ?thesis by simp
next
  case False
  then show ?thesis by (auto simp: closure_def list_ex_iff)
qed

definition demo_graph :: context_graph where
  "demo_graph = \<lparr>cg_nodes = [(1, \<lparr>n_id = 1, n_cost = 2, n_relevance = 0x3FF0000000000000\<rparr>),
       (2, \<lparr>n_id = 2, n_cost = 3, n_relevance = 0\<rparr>)],
     cg_requires = [(1, [2]), (2, [1])]\<rparr>"

lemma demo_closure: "closure demo_graph [1] = Inr [1, 2]"
  by (simp add: closure_def demo_graph_def neighbors_def add_neighbor_def insort_insert_key_def)

theorem closure_reachable_witness: "(needs demo_graph)\<^sup>* `` {1} = {1, 2}"
  using closure_reachable [of "[1]" demo_graph] unfolding demo_closure by simp

text \<open>A greedy selection contains its seeds, is closed under requirements, costs exactly the sum of
  its nodes and at most the budget, and leaves out no relevant node that would still fit together
  with what it requires.\<close>

theorem select_within_budget:
  assumes "graph_new nodes edges = Inr g" and "oset_ok seeds" and "select g budget seeds = Inr s"
  shows "set seeds \<subseteq> set (s_selected s) \<and> closed g (set (s_selected s)) \<and>
    s_cost s = sum (cost_of g) (set (s_selected s)) \<and> s_cost s \<le> budget \<and>
    (\<forall>i. 0 < relevance_of g i \<and> i \<notin> set (s_selected s) \<longrightarrow>
       budget < s_cost s + sum (cost_of g) ((needs g)\<^sup>* `` {i} - set (s_selected s)))"
proof -
  obtain sel cost cls where c: "closure g seeds = Inr sel" "set_cost g sel = Inr cost" "cost \<le> budget"
      "mapE (\<lambda>i. closure g [i]) (map fst (cg_nodes g)) = Inr cls" "greedy g budget cls sel cost = Inr s"
    using assms(3) by (auto simp: select_def split: if_splits)
  note sel = closure_Inr [OF c(1) assms(2)]
  have cls: "oset_ok cl \<and> closed g (set cl)" if cl: "cl \<in> set cls" for cl
  proof -
    obtain i where "closure g [i] = Inr cl" using c(4) cl by (auto simp: mapE_Inr_iff list_all2_conv_all_nth in_set_conv_nth)
    from closure_Inr [OF this] show ?thesis using closed_reach by simp
  qed
  have s: "oset_ok (s_selected s)" "set sel \<subseteq> set (s_selected s)" "closed g (set (s_selected s))"
      "s_cost s = sum_list (map (cost_of g) (s_selected s))" "s_cost s \<le> budget"
      "\<forall>cl \<in> set cls. \<not> fits g budget (s_selected s) (s_cost s) cl"
    using greedy_ok [OF c(5) sel(1)] closed_reach [of g "set seeds"] sel(2) set_cost_Inr [OF c(2)] c(3) cls by auto
  have "budget < s_cost s + sum (cost_of g) ((needs g)\<^sup>* `` {i} - set (s_selected s))"
    if i: "0 < relevance_of g i" "i \<notin> set (s_selected s)" for i
  proof -
    have "i \<in> fst ` set (cg_nodes g)"
      using i(1) by (cases "map_of (cg_nodes g) i") (auto simp: relevance_of_def intro: rev_image_eqI dest!: map_of_SomeD)
    then obtain k where k: "k < length (cg_nodes g)" "i = map fst (cg_nodes g) ! k"
      by (metis in_set_conv_nth length_map set_map)
    then have cl: "closure g [i] = Inr (cls ! k)" "cls ! k \<in> set cls"
      using c(4) by (auto simp: mapE_Inr_iff list_all2_conv_all_nth)
    note reach = closure_Inr [OF cl(1), simplified]
    define extra where "extra = filter (\<lambda>j. j \<notin> set (s_selected s)) (cls ! k)"
    have "i \<in> set extra" using i(2) reach(2) by (auto simp: extra_def)
    moreover from this have "total_relevance (map (relevance_of g) extra) \<noteq> 0"
      using i(1) total_relevance_zero by fastforce
    ultimately have "budget - s_cost s < sum_list (map (cost_of g) extra)"
      using bspec [OF s(6) cl(2)] by (auto simp: fits_def Let_def extra_def [symmetric])
    moreover have "set extra = (needs g)\<^sup>* `` {i} - set (s_selected s)" using reach(2) by (auto simp: extra_def)
    ultimately show ?thesis using reach(1) sum_costs [of extra g] by (simp add: extra_def)
  qed
  then show ?thesis using s sel(2) sum_costs [OF s(1)] by auto
qed

definition demo_nodes :: "ctx_node list" where
  "demo_nodes = [\<lparr>n_id = 1, n_cost = 2, n_relevance = 0\<rparr>, \<lparr>n_id = 2, n_cost = 3, n_relevance = 0\<rparr>]"

theorem select_within_budget_witness:
  "\<exists>g s. graph_new demo_nodes [\<lparr>e_from = 1, e_to = 2, e_relation = Requires\<rparr>] = Inr g \<and>
     select g 9 [1] = Inr s \<and> s_cost s \<le> 9 \<and> set [1] \<subseteq> set (s_selected s)"
proof -
  define g where "g = \<lparr>cg_nodes = [(1, \<lparr>n_id = 1, n_cost = 2, n_relevance = 0\<rparr>), (2, \<lparr>n_id = 2, n_cost = 3, n_relevance = 0\<rparr>)],
     cg_requires = [(1, [2])]\<rparr>"
  have z: "mag_add 0 0 = 0" by (simp add: mag_add_def mag_parts_def encode_float_def F64_INF_def)
  have g: "graph_new demo_nodes [\<lparr>e_from = 1, e_to = 2, e_relation = Requires\<rparr>] = Inr g"
    by (simp add: graph_new_def demo_nodes_def add_node_def is_finite_def below_zero_def magnitude_def F64_INF_def
        total_relevance_def z add_edge_def omap_upd_def insort_insert_key_def g_def)
  have cl: "closure g [1] = Inr [1, 2]" "closure g [2] = Inr [2]"
    by (simp_all add: closure_def g_def neighbors_def add_neighbor_def insort_insert_key_def)
  have "set_cost g [1, 2] = Inr 5" by (simp add: set_cost_def add_cost_def cost_of_def g_def)
  moreover have "greedy g 9 [[1, 2], [2]] [1, 2] 5 = Inr \<lparr>s_selected = [1, 2], s_cost = 5, s_budget = 9\<rparr>"
    by (subst greedy.simps) (simp add: weigh_def)
  moreover have "map fst (cg_nodes g) = [1, 2]" by (simp add: g_def)
  ultimately have s: "select g 9 [1] = Inr \<lparr>s_selected = [1, 2], s_cost = 5, s_budget = 9\<rparr>"
    using cl by (simp add: select_def)
  from select_within_budget [OF g _ s] g s show ?thesis by auto
qed

lemma visit_error:
  "visit g pc budget limit index rest selected st = Inl e \<Longrightarrow>
     e \<in> {SearchLimit limit, Invalid ''cost overflow''} \<or> (\<exists>f c. pc = Some f \<and> f c = Inl e)"
  "visit_each g pc budget limit index alts rest selected st = Inl e \<Longrightarrow>
     e \<in> {SearchLimit limit, Invalid ''cost overflow''} \<or> (\<exists>f c. pc = Some f \<and> f c = Inl e)"
proof (induction g pc budget limit index rest selected st and g pc budget limit index alts rest selected st
    rule: visit_visit_each.induct)
  case (1 g pc budget limit index rest selected st)
  show ?case
  proof (cases "enter limit index selected st")
    case (Inl e')
    then show ?thesis using "1.prems" by (subst (asm) visit.simps) (auto simp: enter_def split: if_splits)
  next
    case (Inr st1)
    show ?thesis
    proof (cases "visit_cost g pc (rest = []) selected")
      case (Inl e')
      then show ?thesis using "1.prems" Inr
        by (subst (asm) visit.simps) (auto simp: visit_cost_def set_cost_sum split: if_splits option.splits)
    next
      case cost: (Inr cost)
      show ?thesis using "1.prems" "1.IH" Inr cost
        by (subst (asm) visit.simps) (auto split: if_splits list.splits)
    qed
  qed
next
  case (3 g pc budget limit index a alts rest selected st)
  then show ?case by (auto simp: bindE_eq_Inl)
qed (simp add: visit.simps)

lemma select_facts_inner_visit:
  assumes "close_facts g [] facts = Inr alternatives"
    and "visit g pc budget limit 0 alternatives [] \<lparr>sr_states = 0, sr_best = None, sr_visited = []\<rparr> = Inr st"
  shows "best_valid g pc budget alternatives st \<and> covered g pc budget alternatives [] (sr_best st) \<and>
     select_facts_inner g budget facts limit pc = ok_or (FactsInfeasible budget) (sr_best st)"
proof -
  let ?st = "\<lparr>sr_states = 0, sr_best = None, sr_visited = []\<rparr>"
  have "search_step g pc budget alternatives 0 ?st st \<and> covered g pc budget alternatives [] (sr_best st)"
    by (rule visit_ok(1) [OF assms(2)]) (simp_all add: visited_ok_def best_valid_def)
  then show ?thesis
    using assms by (simp add: search_step_def select_facts_inner_def)
qed

lemma select_facts_inner_Inr:
  assumes "close_facts g [] facts = Inr alternatives" and "select_facts_inner g budget facts limit pc = Inr b"
  shows "s_selected b \<in> completions alternatives [] \<and> s_cost b \<le> budget \<and>
     visit_cost g pc True (s_selected b) = Inr (s_cost b) \<and>
     (\<forall>c \<in> completions alternatives []. \<forall>n. visit_cost g pc True c = Inr n \<longrightarrow> s_cost b \<le> n)"
proof -
  obtain st where v: "visit g pc budget limit 0 alternatives [] \<lparr>sr_states = 0, sr_best = None, sr_visited = []\<rparr> = Inr st"
    using assms by (auto simp: select_facts_inner_def)
  note ok = select_facts_inner_visit [OF assms(1) v]
  then have best: "sr_best st = Some b" using assms(2) by (cases "sr_best st") auto
  have "s_cost b \<le> n" if "c \<in> completions alternatives []" "visit_cost g pc True c = Inr n" for c n
    using ok best that by (cases "n \<le> budget") (auto simp: covered_def best_valid_def)
  then show ?thesis using ok best by (auto simp: best_valid_def)
qed

lemma select_facts_inner_infeasible:
  assumes "close_facts g [] facts = Inr alternatives"
    and "\<forall>f c. pc = Some f \<longrightarrow> f c \<noteq> Inl (FactsInfeasible budget)"
    and "select_facts_inner g budget facts limit pc = Inl (FactsInfeasible budget)"
    and "c \<in> completions alternatives []" and "visit_cost g pc True c = Inr n"
  shows "budget < n"
proof (cases "visit g pc budget limit 0 alternatives [] \<lparr>sr_states = 0, sr_best = None, sr_visited = []\<rparr>")
  case (Inl e)
  then have "e \<noteq> FactsInfeasible budget" using visit_error(1) [OF Inl] assms(2) by auto
  then show ?thesis using assms(1,3) Inl by (simp add: select_facts_inner_def)
next
  case (Inr st)
  note ok = select_facts_inner_visit [OF assms(1) Inr]
  then have "sr_best st = None" using assms(3) by (cases "sr_best st") auto
  then show ?thesis using ok assms(4,5) by (auto simp: covered_def not_le [symmetric])
qed

text \<open>C9. The search over evidence is exact: a result takes the closure of one alternative of each
  fact, costs at most the budget, and no combination is cheaper; when it reports that nothing fits, nothing does.  With a
  caller's packet cost the same holds for that cost, however it behaves.\<close>

theorem select_facts_exact:
  assumes "close_facts g [] facts = Inr alternatives"
    and "\<forall>f c. pc = Some f \<longrightarrow> f c \<noteq> Inl (FactsInfeasible budget)"
  shows "case select_facts_inner g budget facts limit pc of
      Inr b \<Rightarrow> s_selected b \<in> completions alternatives [] \<and> s_cost b \<le> budget \<and>
        visit_cost g pc True (s_selected b) = Inr (s_cost b) \<and>
        (\<forall>c \<in> completions alternatives []. \<forall>n. visit_cost g pc True c = Inr n \<longrightarrow> s_cost b \<le> n)
    | Inl e \<Rightarrow> e = FactsInfeasible budget \<longrightarrow>
        (\<forall>c \<in> completions alternatives []. \<forall>n. visit_cost g pc True c = Inr n \<longrightarrow> budget < n)"
proof (cases "select_facts_inner g budget facts limit pc")
  case (Inl e)
  then show ?thesis
    using select_facts_inner_infeasible [OF assms] by auto
next
  case (Inr b)
  then show ?thesis
    using select_facts_inner_Inr [OF assms(1) Inr] by simp
qed

theorem select_facts_exact_witness:
  "\<exists>b. select_facts_inner demo_graph 9 [\<lparr>f_id = ''a'', f_alternatives = [[2]]\<rparr>] 9 None = Inr b \<and> s_cost b \<le> 9"
proof -
  let ?facts = "[\<lparr>f_id = ''a'', f_alternatives = [[2]]\<rparr>]"
  have "closure demo_graph [2] = Inr [1, 2]"
    by (simp add: closure_def demo_graph_def neighbors_def add_neighbor_def insort_insert_key_def)
  then have c: "close_facts demo_graph [] ?facts = Inr [[[1, 2]]]" by (simp add: fact_ok_def)
  have cost: "set_cost demo_graph [Suc 0, 2] = Inr 5" "set_cost demo_graph [] = Inr 0"
    by (simp_all add: set_cost_def add_cost_def cost_of_def demo_graph_def)
  have "\<exists>b. select_facts_inner demo_graph 9 ?facts 9 None = Inr b"
    by (simp add: select_facts_inner_def c visit.simps enter_def visit_cost_def cost pruned_def set_union_def
        insort_insert_key_def del: close_facts.simps)
  then show ?thesis
    using select_facts_exact [OF c, of None 9 9] by auto
qed

end
