(* ===== verification/Prune.thy ===== *)
theory Prune
  imports Compact
begin

text \<open>
  Rule-based pruning of stale tool outputs
  (\<open>crates/innen-core/src/conversation/prune/*.rs\<close>): classify a tool call, scan a page's records
  for calls and outputs, pair them, decide what is stale, and rewrite the records.
  \<open>parse\<close> is \<open>serde_json::from_str::<Value>\<close>.  The lemmas show what a rewrite can touch and
  what every decision rests on.
\<close>

section \<open>Classifying calls\<close>

datatype tool_action =
    ReadFile string
  | WriteFile string
  | Search string
  | StatusCheck string

definition normalize_path :: "string \<Rightarrow> string" where
  "normalize_path raw =
     (let s = trim_matches_char (CHR 0x22) (trim_matches_char (CHR 0x27) (trim raw)) in
      case strip_prefix s ''./'' of None \<Rightarrow> s | Some t \<Rightarrow> t)"

definition call_arguments :: "(string \<Rightarrow> json option) \<Rightarrow> json \<Rightarrow> json option" where
  "call_arguments parse args =
     (case args of JStr s \<Rightarrow> parse s | JObj m \<Rightarrow> Some args | _ \<Rightarrow> None)"

text \<open>The first of the keys that holds a text which is not blank.\<close>

fun first_text :: "jobject \<Rightarrow> string list \<Rightarrow> string option" where
  "first_text m [] = None"
| "first_text m (k # ks) =
     (case Option.bind (map_of m k) as_str of
        Some s \<Rightarrow> if trim s \<noteq> [] then Some s else first_text m ks
      | None \<Rightarrow> first_text m ks)"

definition get_text :: "json option \<Rightarrow> string list \<Rightarrow> string option" where
  "get_text parsed ks = Option.bind (Option.bind parsed as_object) (\<lambda>m. first_text m ks)"

definition command_action :: "string \<Rightarrow> tool_action option" where
  "command_action cmd =
     (let trimmed = trim cmd; tokens = split_whitespace trimmed in
      if length tokens \<ge> 2 \<and> tokens ! 0 \<in> set [''cat'', ''head'', ''tail'', ''bat''] \<and> \<not> starts_with (tokens ! 1) ''-''
      then Some (ReadFile (normalize_path (tokens ! 1)))
      else if length tokens \<ge> 2 \<and> tokens ! 0 \<in> set [''rg'', ''grep''] then Some (Search (tokens ! 1))
      else if starts_with trimmed ''git status'' \<or> starts_with trimmed ''git diff'' then Some (StatusCheck trimmed)
      else None)"

definition READ_NAMES :: "string list" where
  "READ_NAMES = [''read_file'', ''view_file'', ''view'', ''read'', ''cat'']"

definition WRITE_NAMES :: "string list" where
  "WRITE_NAMES = [''write_to_file'', ''replace_file_content'', ''edit'', ''write'', ''write_file'', ''apply_patch'',
     ''str_replace_editor'']"

definition SEARCH_NAMES :: "string list" where
  "SEARCH_NAMES = [''grep_search'', ''find_by_name'', ''file_search'', ''grep'', ''glob'', ''find'']"

definition or_empty :: "string option \<Rightarrow> string" where
  "or_empty x = (case x of None \<Rightarrow> [] | Some s \<Rightarrow> s)"

definition extract_tool_action :: "(string \<Rightarrow> json option) \<Rightarrow> string \<Rightarrow> json \<Rightarrow> tool_action option" where
  "extract_tool_action parse name args =
     (let lower = to_ascii_lowercase name;
          text_of = get_text (call_arguments parse args);
          read_path = (if lower \<in> set READ_NAMES
            then text_of [''file_path'', ''path'', ''file'', ''AbsolutePath'', ''target''] else None);
          write_path = (if lower \<in> set WRITE_NAMES
            then text_of [''file_path'', ''path'', ''file'', ''AbsolutePath'', ''TargetFile'', ''target''] else None)
      in case read_path of
           Some p \<Rightarrow> Some (ReadFile (normalize_path p))
         | None \<Rightarrow>
             (case write_path of
                Some p \<Rightarrow> Some (WriteFile (normalize_path p))
              | None \<Rightarrow>
                  if lower \<in> set SEARCH_NAMES
                  then Some (Search (or_empty (text_of [''query'', ''pattern'', ''Query'', ''Pattern'', ''path''])))
                  else if lower \<in> set [''exec_command'', ''bash'', ''sh'']
                  then Option.bind (text_of [''command'', ''cmd'', ''CommandLine'']) command_action
                  else None))"

definition is_empty_search_output :: "string \<Rightarrow> bool" where
  "is_empty_search_output out =
     (let lower = to_ascii_lowercase (trim out) in
      lower = [] \<or> lower = ''[]'' \<or> lower = ''no results found'' \<or> starts_with lower ''found 0 results'' \<or>
      contains_str lower ''0 matches'' \<or> contains_str lower ''no matches found'')"

section \<open>Scanning records\<close>

record call_meta =
  cm_record_idx :: nat
  cm_source_line :: nat
  cm_call_id :: "string option"
  cm_action :: tool_action

record output_meta =
  om_record_idx :: nat
  om_source_line :: nat
  om_call_id :: "string option"
  om_call_line :: "nat option"
  om_is_error :: bool
  om_content_preview :: string
  om_original_chars :: nat

type_synonym file_writes = "(string \<times> (nat \<times> nat) list) list"

record scan_result =
  sc_calls :: "call_meta list"
  sc_outputs :: "output_meta list"
  sc_writes :: file_writes

text \<open>A call with an action: a write is also noted by its path.\<close>

definition note_call ::
  "(string \<Rightarrow> json option) \<Rightarrow> nat \<Rightarrow> nat \<Rightarrow> string option \<Rightarrow> string \<Rightarrow> json \<Rightarrow> scan_result \<Rightarrow> scan_result" where
  "note_call parse idx line cid name args st =
     (case extract_tool_action parse name args of
        None \<Rightarrow> st
      | Some action \<Rightarrow>
          st\<lparr>sc_writes := (case action of
               WriteFile path \<Rightarrow> omap_upd path [] (\<lambda>ws. ws @ [(idx, line)]) (sc_writes st)
             | _ \<Rightarrow> sc_writes st),
             sc_calls := sc_calls st @ [\<lparr>cm_record_idx = idx, cm_source_line = line, cm_call_id = cid, cm_action = action\<rparr>]\<rparr>)"

definition push_output :: "output_meta \<Rightarrow> scan_result \<Rightarrow> scan_result" where
  "push_output out st = st\<lparr>sc_outputs := sc_outputs st @ [out]\<rparr>"

definition text_output :: "nat \<Rightarrow> nat \<Rightarrow> string option \<Rightarrow> bool \<Rightarrow> string \<Rightarrow> output_meta" where
  "text_output idx line cid err content =
     \<lparr>om_record_idx = idx, om_source_line = line, om_call_id = cid, om_call_line = None, om_is_error = err,
      om_content_preview = chars_take 120 content, om_original_chars = chars_count content\<rparr>"

definition or_null :: "json option \<Rightarrow> json" where
  "or_null x = (case x of None \<Rightarrow> JNull | Some v \<Rightarrow> v)"

definition opt_or :: "'a option \<Rightarrow> 'a option \<Rightarrow> 'a option" where
  "opt_or x y = (case x of None \<Rightarrow> y | Some v \<Rightarrow> Some v)"

definition pointer_str :: "json \<Rightarrow> string list \<Rightarrow> string option" where
  "pointer_str v ks = Option.bind (jpointer v ks) as_str"

definition kind_output :: "nat \<Rightarrow> nat \<Rightarrow> json \<Rightarrow> output_meta" where
  "kind_output idx line ev =
     (let preview = or_empty (jget_str ev ''preview'') in
      \<lparr>om_record_idx = idx, om_source_line = line, om_call_id = jget_str ev ''call_id'',
       om_call_line = Option.bind (jget ev ''call_line'') as_u64,
       om_is_error = (case Option.bind (jget ev ''reported_exit_code'') as_i64 of None \<Rightarrow> False | Some c \<Rightarrow> c \<noteq> 0),
       om_content_preview = preview,
       om_original_chars = (case Option.bind (jget ev ''chars'') as_u64 of None \<Rightarrow> length preview | Some n \<Rightarrow> n)\<rparr>)"

definition scan_tool_call :: "(string \<Rightarrow> json option) \<Rightarrow> nat \<Rightarrow> nat \<Rightarrow> json \<Rightarrow> scan_result \<Rightarrow> scan_result" where
  "scan_tool_call parse idx line tc =
     note_call parse idx line (jget_str tc ''id'')
       (or_empty (Option.bind (opt_or (jpointer tc [''function'', ''name'']) (jget tc ''name'')) as_str))
       (or_null (opt_or (jpointer tc [''function'', ''arguments'']) (opt_or (jget tc ''arguments'') (jget tc ''args''))))"

definition scan_part :: "(string \<Rightarrow> json option) \<Rightarrow> nat \<Rightarrow> nat \<Rightarrow> json \<Rightarrow> scan_result \<Rightarrow> scan_result" where
  "scan_part parse idx line part st =
     (if jget_str part ''type'' = Some ''tool_use'' then
        note_call parse idx line (jget_str part ''id'') (or_empty (jget_str part ''name'')) (or_null (jget part ''input'')) st
      else if jget_str part ''type'' = Some ''tool_result'' then
        push_output (text_output idx line (jget_str part ''tool_use_id'')
          (case Option.bind (jget part ''is_error'') as_bool of None \<Rightarrow> False | Some b \<Rightarrow> b)
          (or_empty (jget_str part ''content''))) st
      else st)"

definition scan_raw :: "(string \<Rightarrow> json option) \<Rightarrow> nat \<Rightarrow> nat \<Rightarrow> json \<Rightarrow> scan_result \<Rightarrow> scan_result" where
  "scan_raw parse idx line ev st =
     (let p_type = pointer_str ev [''payload'', ''type''] in
      if p_type = Some ''function_call'' then
        note_call parse idx line (pointer_str ev [''payload'', ''call_id''])
          (or_empty (pointer_str ev [''payload'', ''name''])) (or_null (jpointer ev [''payload'', ''arguments''])) st
      else if p_type = Some ''function_call_output'' then
        push_output (text_output idx line (pointer_str ev [''payload'', ''call_id'']) False
          (or_empty (pointer_str ev [''payload'', ''output'']))) st
      else if jget_str ev ''type'' = Some ''USER_INPUT'' \<and> sc_calls st \<noteq> [] then
        (let content = or_empty (jget_str ev ''content'') in
         if content \<noteq> [] then push_output (text_output idx line None False content) st else st)
      else st)"

definition scan_record :: "(string \<Rightarrow> json option) \<Rightarrow> nat \<times> page_record \<Rightarrow> scan_result \<Rightarrow> scan_result" where
  "scan_record parse = (\<lambda>(idx, r) st.
     (let ev = r_event r; line = r_line r; kind = jget_str ev ''kind'' in
      if kind = Some ''function_call'' \<or> kind = Some ''custom_tool_call'' then
        note_call parse idx line (jget_str ev ''call_id'') (or_empty (jget_str ev ''name''))
          (or_null (opt_or (jget ev ''arguments'') (jget ev ''input''))) st
      else if kind = Some ''function_call_output'' \<or> kind = Some ''custom_tool_call_output'' then
        push_output (kind_output idx line ev) st
      else if jget_str ev ''role'' = Some ''tool'' then
        push_output (text_output idx line None False (or_empty (jget_str ev ''content''))) st
      else
        (case Option.bind (jget ev ''tool_calls'') as_array of
           Some tcs \<Rightarrow> fold (scan_tool_call parse idx line) tcs st
         | None \<Rightarrow>
             scan_raw parse idx line ev
               (case Option.bind (opt_or (jpointer ev [''message'', ''content'']) (jget ev ''content'')) as_array of
                  Some parts \<Rightarrow> fold (scan_part parse idx line) parts st
                | None \<Rightarrow> st))))"

definition scan_records :: "(string \<Rightarrow> json option) \<Rightarrow> page_record list \<Rightarrow> scan_result" where
  "scan_records parse rs =
     fold (scan_record parse) (zip [0..<length rs] rs) \<lparr>sc_calls = [], sc_outputs = [], sc_writes = []\<rparr>"

section \<open>Pairing calls with outputs\<close>

record paired_tool =
  pt_call_idx :: nat
  pt_output_idx :: nat
  pt_output_line :: nat
  pt_action :: tool_action
  pt_is_error :: bool
  pt_content_preview :: string
  pt_original_chars :: nat

definition matches_output :: "nat list \<Rightarrow> call_meta \<Rightarrow> output_meta \<Rightarrow> bool" where
  "matches_output matched c out \<longleftrightarrow>
     om_record_idx out \<notin> set matched \<and>
     (case (cm_call_id c, om_call_id out) of
        (Some a, Some b) \<Rightarrow> a = b
      | _ \<Rightarrow>
          (case om_call_line out of
             Some l \<Rightarrow> l = cm_source_line c
           | None \<Rightarrow> om_record_idx out > cm_record_idx c \<and> om_record_idx out \<le> cm_record_idx c + 2))"

definition pair_of :: "call_meta \<Rightarrow> output_meta \<Rightarrow> paired_tool" where
  "pair_of c out =
     \<lparr>pt_call_idx = cm_record_idx c, pt_output_idx = om_record_idx out, pt_output_line = om_source_line out,
      pt_action = cm_action c, pt_is_error = om_is_error out, pt_content_preview = om_content_preview out,
      pt_original_chars = om_original_chars out\<rparr>"

fun pair_calls :: "call_meta list \<Rightarrow> output_meta list \<Rightarrow> nat list \<Rightarrow> paired_tool list" where
  "pair_calls [] outs matched = []"
| "pair_calls (c # cs) outs matched =
     (case find (matches_output matched c) outs of
        None \<Rightarrow> pair_calls cs outs matched
      | Some out \<Rightarrow> pair_of c out # pair_calls cs outs (om_record_idx out # matched))"

definition pair_calls_with_outputs :: "call_meta list \<Rightarrow> output_meta list \<Rightarrow> paired_tool list" where
  "pair_calls_with_outputs calls outs = pair_calls calls outs []"

section \<open>Rules\<close>

type_synonym decisions = "(nat \<times> (string \<times> nat)) list"

record rule_outcome =
  ro_decisions :: decisions
  ro_superseded_reads :: nat
  ro_duplicate_reads :: nat
  ro_empty_searches :: nat

definition decide :: "paired_tool \<Rightarrow> string \<Rightarrow> rule_outcome \<Rightarrow> rule_outcome" where
  "decide t reason out =
     out\<lparr>ro_decisions := omap_insert (pt_output_idx t) (reason, pt_original_chars t) (ro_decisions out)\<rparr>"

definition superseded_reason :: "string \<Rightarrow> nat \<Rightarrow> string" where
  "superseded_reason path line =
     ''read of '' @ [CHR 0x27] @ path @ [CHR 0x27] @ '' superseded by write at line '' @ nat_digits line"

definition duplicate_reason :: "string \<Rightarrow> nat \<Rightarrow> string" where
  "duplicate_reason path line =
     ''read of '' @ [CHR 0x27] @ path @ [CHR 0x27] @ '' redundant; re-read at line '' @ nat_digits line"

definition empty_reason :: "string \<Rightarrow> string" where
  "empty_reason query = ''search for '' @ [CHR 0x27] @ query @ [CHR 0x27] @ '' returned 0 matches''"

definition path_reads :: "paired_tool list \<Rightarrow> (string \<times> paired_tool list) list" where
  "path_reads paired =
     fold (\<lambda>t m. case pt_action t of ReadFile path \<Rightarrow> omap_upd path [] (\<lambda>ts. ts @ [t]) m | _ \<Rightarrow> m) paired []"

definition writes_to :: "file_writes \<Rightarrow> string \<Rightarrow> (nat \<times> nat) list" where
  "writes_to writes path = (case map_of writes path of None \<Rightarrow> [] | Some ws \<Rightarrow> ws)"

definition kept :: "nat \<Rightarrow> paired_tool \<Rightarrow> bool" where
  "kept keep t \<longleftrightarrow> pt_is_error t \<or> pt_output_idx t \<ge> keep"

definition read_rule ::
  "(nat \<times> nat) list \<Rightarrow> nat \<Rightarrow> string \<Rightarrow> paired_tool \<Rightarrow> paired_tool option \<Rightarrow> rule_outcome \<Rightarrow> rule_outcome" where
  "read_rule ws keep path t next_read out =
     (if kept keep t then out
      else
        (case find (\<lambda>(w, _). w > pt_output_idx t) ws of
           Some (_, line) \<Rightarrow>
             (decide t (superseded_reason path line) out)\<lparr>ro_superseded_reads := ro_superseded_reads out + 1\<rparr>
         | None \<Rightarrow>
             (case next_read of
                Some n \<Rightarrow>
                  if \<not> list_ex (\<lambda>(w, _). w > pt_output_idx t \<and> w < pt_call_idx n) ws
                  then (decide t (duplicate_reason path (pt_output_line n)) out)
                         \<lparr>ro_duplicate_reads := ro_duplicate_reads out + 1\<rparr>
                  else out
              | None \<Rightarrow> out)))"

fun read_rules :: "(nat \<times> nat) list \<Rightarrow> nat \<Rightarrow> string \<Rightarrow> paired_tool list \<Rightarrow> rule_outcome \<Rightarrow> rule_outcome" where
  "read_rules ws keep path [] out = out"
| "read_rules ws keep path (t # ts) out =
     read_rules ws keep path ts (read_rule ws keep path t (case ts of [] \<Rightarrow> None | n # _ \<Rightarrow> Some n) out)"

definition search_rule :: "nat \<Rightarrow> paired_tool \<Rightarrow> rule_outcome \<Rightarrow> rule_outcome" where
  "search_rule keep t out =
     (if kept keep t then out
      else
        (case pt_action t of
           Search query \<Rightarrow>
             if is_empty_search_output (pt_content_preview t)
             then (decide t (empty_reason query) out)\<lparr>ro_empty_searches := ro_empty_searches out + 1\<rparr>
             else out
         | _ \<Rightarrow> out))"

definition evaluate_prune_rules :: "paired_tool list \<Rightarrow> file_writes \<Rightarrow> nat \<Rightarrow> rule_outcome" where
  "evaluate_prune_rules paired writes keep =
     fold (search_rule keep) paired
       (fold (\<lambda>(path, reads). read_rules (writes_to writes path) keep path reads) (path_reads paired)
         \<lparr>ro_decisions = [], ro_superseded_reads = 0, ro_duplicate_reads = 0, ro_empty_searches = 0\<rparr>)"

section \<open>Applying the decisions\<close>

definition note_text :: "string \<Rightarrow> string \<Rightarrow> string" where
  "note_text label reason = ''['' @ label @ reason @ '']''"

definition has_key :: "string \<Rightarrow> jobject \<Rightarrow> bool" where
  "has_key k m \<longleftrightarrow> map_of m k \<noteq> None"

definition prune_preview :: "string \<Rightarrow> nat \<Rightarrow> jobject \<Rightarrow> jobject" where
  "prune_preview reason chars m =
     (if has_key ''preview'' m then
        (let note = note_text ''omitted: '' reason in
         omap_insert ''omitted_chars'' (jnat chars)
         (omap_insert ''chars'' (jnat (chars_count note))
         (omap_insert ''preview_truncated'' (JBool False)
         (omap_insert ''preview_tail'' (JStr [])
         (omap_insert ''preview'' (JStr note) m)))))
      else m)"

definition replace_text :: "string \<Rightarrow> string \<Rightarrow> jobject \<Rightarrow> jobject" where
  "replace_text k reason m =
     (if has_key k m then omap_insert k (JStr (note_text ''tool output omitted: '' reason)) m else m)"

definition prune_payload :: "string \<Rightarrow> jobject \<Rightarrow> jobject" where
  "prune_payload reason m =
     (case Option.bind (map_of m ''payload'') as_object of
        None \<Rightarrow> m
      | Some pl \<Rightarrow> omap_insert ''payload'' (JObj (replace_text ''output'' reason pl)) m)"

definition prune_event :: "string \<Rightarrow> nat \<Rightarrow> json \<Rightarrow> json" where
  "prune_event reason chars ev =
     (case ev of
        JObj m \<Rightarrow>
          JObj (prune_payload reason (replace_text ''content'' reason (replace_text ''output'' reason
            (prune_preview reason chars
              (omap_insert ''prune_reason'' (JStr reason) (omap_insert ''pruned'' (JBool True) m))))))
      | v \<Rightarrow> v)"

definition apply_decision :: "nat \<times> (string \<times> nat) \<Rightarrow> page_record list \<Rightarrow> page_record list" where
  "apply_decision = (\<lambda>(idx, reason, chars) rs.
     rs[idx := (rs ! idx)\<lparr>r_event := prune_event reason chars (r_event (rs ! idx))\<rparr>])"

definition apply_prune_decisions :: "decisions \<Rightarrow> page_record list \<Rightarrow> page_record list \<times> nat \<times> nat" where
  "apply_prune_decisions ds rs =
     (fold apply_decision ds rs, length ds, sum_list (map (\<lambda>(_, _, chars). chars) ds))"

record prune_receipt =
  pr_total_records :: nat
  pr_pruned_count :: nat
  pr_superseded_reads :: nat
  pr_duplicate_reads :: nat
  pr_empty_searches :: nat
  pr_saved_chars_estimate :: nat

definition prune_warning :: "nat \<Rightarrow> nat \<Rightarrow> string" where
  "prune_warning n chars =
     ''pruned '' @ nat_digits n @ '' stale tool output(s) using deterministic rules (saved ~'' @ nat_digits chars @ '' chars)''"

definition prune_page :: "(string \<Rightarrow> json option) \<Rightarrow> nat \<Rightarrow> page \<Rightarrow> page \<times> prune_receipt" where
  "prune_page parse preserve_recent p =
     (let total = length (p_records p) in
      if p_records p = [] then
        (p, \<lparr>pr_total_records = total, pr_pruned_count = 0, pr_superseded_reads = 0, pr_duplicate_reads = 0,
             pr_empty_searches = 0, pr_saved_chars_estimate = 0\<rparr>)
      else
        (let scan = scan_records parse (p_records p);
             out = evaluate_prune_rules (pair_calls_with_outputs (sc_calls scan) (sc_outputs scan)) (sc_writes scan)
                     (total - preserve_recent);
             (rs, n, saved) = apply_prune_decisions (ro_decisions out) (p_records p)
         in (p\<lparr>p_records := rs, p_warnings := (if n > 0 then p_warnings p @ [prune_warning n saved] else p_warnings p)\<rparr>,
             \<lparr>pr_total_records = total, pr_pruned_count = n, pr_superseded_reads = ro_superseded_reads out,
              pr_duplicate_reads = ro_duplicate_reads out, pr_empty_searches = ro_empty_searches out,
              pr_saved_chars_estimate = saved\<rparr>)))"

section \<open>What the rules decide\<close>

text \<open>
  The specification: a paired output is stale when it is no error, lies before the kept tail, and
  is a read of a file that is written or read again later, or a search that found nothing.
  \<open>later\<close> are the pairs after it.
\<close>

definition written_after :: "file_writes \<Rightarrow> string \<Rightarrow> nat \<Rightarrow> bool" where
  "written_after writes path i \<longleftrightarrow> list_ex (\<lambda>(w, _). w > i) (writes_to writes path)"

definition is_read :: "string \<Rightarrow> paired_tool \<Rightarrow> bool" where
  "is_read path t \<longleftrightarrow> pt_action t = ReadFile path"

definition stale_read :: "file_writes \<Rightarrow> nat \<Rightarrow> string \<Rightarrow> paired_tool \<Rightarrow> paired_tool list \<Rightarrow> bool" where
  "stale_read writes keep path t later \<longleftrightarrow>
     \<not> kept keep t \<and> (written_after writes path (pt_output_idx t) \<or> list_ex (is_read path) later)"

definition stale_search :: "nat \<Rightarrow> paired_tool \<Rightarrow> bool" where
  "stale_search keep t \<longleftrightarrow>
     \<not> kept keep t \<and> (case pt_action t of Search q \<Rightarrow> is_empty_search_output (pt_content_preview t) | _ \<Rightarrow> False)"

definition stale_output :: "file_writes \<Rightarrow> nat \<Rightarrow> paired_tool \<Rightarrow> paired_tool list \<Rightarrow> bool" where
  "stale_output writes keep t later \<longleftrightarrow>
     (case pt_action t of ReadFile path \<Rightarrow> stale_read writes keep path t later | _ \<Rightarrow> stale_search keep t)"

abbreviation decided :: "rule_outcome \<Rightarrow> nat set" where
  "decided out \<equiv> fst ` set (ro_decisions out)"

lemma decided_decide [simp]: "decided (decide t reason out) = insert (pt_output_idx t) (decided out)"
  by (simp add: decide_def)

lemma decide_ok [simp]: "omap_ok (ro_decisions out) \<Longrightarrow> omap_ok (ro_decisions (decide t reason out))"
  by (simp add: decide_def)

lemma find_list_ex: "find P xs = None \<longleftrightarrow> \<not> list_ex P xs"
  by (induction xs) auto

lemma no_write_between: "\<not> list_ex (\<lambda>(w, _). w > i) ws \<Longrightarrow> \<not> list_ex (\<lambda>(w, _). w > i \<and> w < j) ws"
  by (induction ws) auto

lemma read_rule_decided:
  "decided (read_rule ws keep path t next_read out) =
     decided out \<union>
       (if \<not> kept keep t \<and> (list_ex (\<lambda>(w, _). w > pt_output_idx t) ws \<or> next_read \<noteq> None) then {pt_output_idx t} else {})"
proof (cases "find (\<lambda>(w, _). w > pt_output_idx t) ws")
  case None
  then have none: "\<not> list_ex (\<lambda>(w, _). w > pt_output_idx t) ws"
    by (simp add: find_list_ex)
  show ?thesis
    using none by (simp add: read_rule_def None no_write_between split: option.split)
next
  case (Some w)
  then have "list_ex (\<lambda>(w, _). w > pt_output_idx t) ws"
    using find_list_ex by (metis option.distinct(1))
  then show ?thesis
    by (simp add: read_rule_def Some split: prod.split)
qed

lemma read_rule_ok:
  "omap_ok (ro_decisions out) \<Longrightarrow> omap_ok (ro_decisions (read_rule ws keep path t next_read out))"
  by (simp add: read_rule_def split: option.split prod.split)

lemma read_rules_decided:
  assumes "ws = writes_to writes path" and "\<forall>t \<in> set ts. is_read path t"
  shows "decided (read_rules ws keep path ts out) =
     decided out \<union> {pt_output_idx t | xs t ys. ts = xs @ t # ys \<and> stale_read writes keep path t ys}"
  using assms(2)
proof (induction ts arbitrary: out)
  case Nil
  then show ?case by simp
next
  case (Cons a ts)
  have nx: "(case ts of [] \<Rightarrow> None | n # _ \<Rightarrow> Some n) \<noteq> None \<longleftrightarrow> list_ex (is_read path) ts"
    using Cons.prems by (cases ts) auto
  have split: "{pt_output_idx t | xs t ys. a # ts = xs @ t # ys \<and> stale_read writes keep path t ys} =
      (if stale_read writes keep path a ts then {pt_output_idx a} else {}) \<union>
      {pt_output_idx t | xs t ys. ts = xs @ t # ys \<and> stale_read writes keep path t ys}"
    by (auto simp: Cons_eq_append_conv)
  have IH: "decided (read_rules (writes_to writes path) keep path ts r) =
      decided r \<union> {pt_output_idx t | xs t ys. ts = xs @ t # ys \<and> stale_read writes keep path t ys}" for r
    using Cons assms(1) by simp
  have eq: "(\<not> kept keep a \<and> (list_ex (\<lambda>(w, _). w > pt_output_idx a) (writes_to writes path) \<or> list_ex (is_read path) ts)) =
      stale_read writes keep path a ts"
    by (simp add: stale_read_def written_after_def)
  show ?case
    unfolding assms(1) read_rules.simps(2) IH read_rule_decided split nx eq
    by (simp only: Un_assoc)
qed

lemma read_rules_ok:
  "omap_ok (ro_decisions out) \<Longrightarrow> omap_ok (ro_decisions (read_rules ws keep path ts out))"
  by (induction ws keep path ts out rule: read_rules.induct) (auto intro: read_rule_ok)

lemma search_rule_decided:
  "decided (search_rule keep t out) = decided out \<union> (if stale_search keep t then {pt_output_idx t} else {})"
  by (simp add: search_rule_def stale_search_def split: tool_action.split)

lemma search_rule_ok: "omap_ok (ro_decisions out) \<Longrightarrow> omap_ok (ro_decisions (search_rule keep t out))"
  by (simp add: search_rule_def split: tool_action.split)

lemma fold_decided:
  assumes "\<And>x out. x \<in> set xs \<Longrightarrow> decided (f x out) = decided out \<union> S x"
  shows "decided (fold f xs out) = decided out \<union> (\<Union>x \<in> set xs. S x)"
  using assms by (induction xs arbitrary: out) auto

lemma fold_decisions_ok:
  assumes "\<And>x out. omap_ok (ro_decisions out) \<Longrightarrow> omap_ok (ro_decisions (f x out))"
  shows "omap_ok (ro_decisions out) \<Longrightarrow> omap_ok (ro_decisions (fold f xs out))"
  using assms by (induction xs arbitrary: out) auto

text \<open>Reads are grouped by path, in the order of the pairs.\<close>

lemma path_reads_fold:
  "map_of (fold (\<lambda>t m. case pt_action t of ReadFile path \<Rightarrow> omap_upd path [] (\<lambda>ts. ts @ [t]) m | _ \<Rightarrow> m) ts m) p =
     (case map_of m p of
        None \<Rightarrow> if filter (is_read p) ts = [] then None else Some (filter (is_read p) ts)
      | Some xs \<Rightarrow> Some (xs @ filter (is_read p) ts))"
  by (induction ts arbitrary: m) (auto simp: is_read_def split: tool_action.split option.split)

lemma path_reads_ok: "omap_ok (path_reads ts)"
proof -
  have "omap_ok m \<Longrightarrow> omap_ok (fold (\<lambda>t m. case pt_action t of ReadFile path \<Rightarrow> omap_upd path [] (\<lambda>ts. ts @ [t]) m | _ \<Rightarrow> m) ts m)"
    for m :: "(string \<times> paired_tool list) list"
    by (induction ts arbitrary: m) (auto split: tool_action.split)
  then show ?thesis
    by (simp add: path_reads_def)
qed

lemma path_reads_set:
  "(p, ts) \<in> set (path_reads paired) \<longleftrightarrow> ts = filter (is_read p) paired \<and> ts \<noteq> []"
proof -
  have "map_of (path_reads paired) p = (if filter (is_read p) paired = [] then None else Some (filter (is_read p) paired))"
    by (simp add: path_reads_def path_reads_fold)
  then show ?thesis
    using omap_map_of_iff [OF path_reads_ok, of paired p ts] by (auto split: if_splits)
qed

lemma filter_split:
  "filter P zs = xs @ t # ys \<Longrightarrow> \<exists>as bs. zs = as @ t # bs \<and> filter P as = xs \<and> filter P bs = ys \<and> P t"
proof (induction xs arbitrary: zs)
  case Nil
  then obtain us vs where "zs = us @ t # vs" "\<forall>u \<in> set us. \<not> P u" "P t" "ys = filter P vs"
    by (auto simp: filter_eq_Cons_iff)
  then show ?case
    by (intro exI [of _ us] exI [of _ vs]) simp
next
  case (Cons x xs)
  then obtain us vs where zs: "zs = us @ x # vs" "\<forall>u \<in> set us. \<not> P u" "P x" and vs: "filter P vs = xs @ t # ys"
    by (auto simp: filter_eq_Cons_iff)
  obtain as bs where "vs = as @ t # bs" "filter P as = xs" "filter P bs = ys" "P t"
    using Cons.IH [OF vs] by blast
  then show ?case
    using zs by (intro exI [of _ "us @ x # as"] exI [of _ bs]) simp
qed

lemma stale_read_filter:
  "{pt_output_idx t | xs t ys. filter (is_read p) paired = xs @ t # ys \<and> stale_read writes keep p t ys} =
   {pt_output_idx t | xs t ys. paired = xs @ t # ys \<and> is_read p t \<and> stale_read writes keep p t ys}"
proof -
  have ex: "stale_read writes keep p t (filter (is_read p) ys) = stale_read writes keep p t ys" for t ys
    by (auto simp: stale_read_def list_ex_iff)
  have "(\<exists>xs ys. filter (is_read p) paired = xs @ t # ys \<and> stale_read writes keep p t ys) \<longleftrightarrow>
      (\<exists>xs ys. paired = xs @ t # ys \<and> is_read p t \<and> stale_read writes keep p t ys)" for t
  proof
    assume "\<exists>xs ys. filter (is_read p) paired = xs @ t # ys \<and> stale_read writes keep p t ys"
    then obtain xs ys where "filter (is_read p) paired = xs @ t # ys" and st: "stale_read writes keep p t ys"
      by blast
    then show "\<exists>xs ys. paired = xs @ t # ys \<and> is_read p t \<and> stale_read writes keep p t ys"
      using ex filter_split by metis
  next
    assume "\<exists>xs ys. paired = xs @ t # ys \<and> is_read p t \<and> stale_read writes keep p t ys"
    then obtain xs ys where "paired = xs @ t # ys" and "is_read p t" and "stale_read writes keep p t ys"
      by blast
    then show "\<exists>xs ys. filter (is_read p) paired = xs @ t # ys \<and> stale_read writes keep p t ys"
      using ex by (intro exI [of _ "filter (is_read p) xs"] exI [of _ "filter (is_read p) ys"]) auto
  qed
  then show ?thesis by blast
qed

lemma evaluate_decided:
  "decided (evaluate_prune_rules paired writes keep) =
     {pt_output_idx t | xs t ys. paired = xs @ t # ys \<and> stale_output writes keep t ys}"
proof -
  have reads: "decided (read_rules (writes_to writes (fst x)) keep (fst x) (snd x) out) = decided out \<union>
      {pt_output_idx t | xs t ys. paired = xs @ t # ys \<and> is_read (fst x) t \<and> stale_read writes keep (fst x) t ys}"
    if "x \<in> set (path_reads paired)" for x out
  proof -
    have "snd x = filter (is_read (fst x)) paired"
      using that path_reads_set [of "fst x" "snd x" paired] by simp
    moreover have "\<forall>t \<in> set (filter (is_read (fst x)) paired). is_read (fst x) t"
      by simp
    ultimately show ?thesis
      using read_rules_decided [OF refl, of "filter (is_read (fst x)) paired" "fst x" writes keep out]
      by (simp only: stale_read_filter)
  qed
  have all_reads: "decided (fold (\<lambda>x. read_rules (writes_to writes (fst x)) keep (fst x) (snd x)) (path_reads paired) out) =
      decided out \<union> (\<Union>x \<in> set (path_reads paired).
         {pt_output_idx t | xs t ys. paired = xs @ t # ys \<and> is_read (fst x) t \<and> stale_read writes keep (fst x) t ys})" for out
    by (rule fold_decided) (erule reads)
  have covered: "\<exists>x \<in> set (path_reads paired). fst x = p" if "paired = xs @ t # ys" "is_read p t" for xs t ys p
    using that path_reads_set [of p "filter (is_read p) paired" paired] by force
  have "decided (evaluate_prune_rules paired writes keep) =
      (\<Union>x \<in> set (path_reads paired).
         {pt_output_idx t | xs t ys. paired = xs @ t # ys \<and> is_read (fst x) t \<and> stale_read writes keep (fst x) t ys}) \<union>
      (\<Union>t \<in> set paired. if stale_search keep t then {pt_output_idx t} else {})"
    unfolding evaluate_prune_rules_def case_prod_beta all_reads
      fold_decided [where f = "search_rule keep", OF search_rule_decided]
    by simp
  also have "\<dots> = {pt_output_idx t | xs t ys. paired = xs @ t # ys \<and> stale_output writes keep t ys}" (is "?A \<union> ?B = ?C")
  proof
    have "stale_output writes keep t ys" if "is_read p t" "stale_read writes keep p t ys" for p t ys
      using that by (simp add: stale_output_def is_read_def)
    moreover have "stale_output writes keep t ys" if "stale_search keep t" for t ys
      using that by (simp add: stale_output_def stale_search_def split: tool_action.splits)
    ultimately show "?A \<union> ?B \<subseteq> ?C"
      by (fastforce dest: split_list split: if_splits)
  next
    have "pt_output_idx t \<in> ?A \<union> ?B" if eq: "paired = xs @ t # ys" and st: "stale_output writes keep t ys" for xs t ys
    proof (cases "\<exists>p. is_read p t")
      case True
      then obtain p where p: "is_read p t" by blast
      then have "stale_read writes keep p t ys"
        using st by (simp add: stale_output_def is_read_def)
      then show ?thesis
        using covered [OF eq p] p eq by blast
    next
      case False
      then have "stale_search keep t"
        using st by (simp add: stale_output_def is_read_def split: tool_action.splits)
      then show ?thesis
        using eq by auto
    qed
    then show "?C \<subseteq> ?A \<union> ?B" by blast
  qed
  finally show ?thesis .
qed

lemma evaluate_ok: "omap_ok (ro_decisions (evaluate_prune_rules paired writes keep))"
  unfolding evaluate_prune_rules_def
  by (intro fold_decisions_ok) (auto intro: search_rule_ok read_rules_ok split: prod.split)

section \<open>What a rewrite touches\<close>

definition PRUNE_KEYS :: "string list" where
  "PRUNE_KEYS = [''pruned'', ''prune_reason'', ''preview'', ''preview_tail'', ''preview_truncated'', ''chars'', ''omitted_chars'',
     ''output'', ''content'', ''payload'']"

lemma replace_text_other: "k \<noteq> k' \<Longrightarrow> map_of (replace_text k' reason m) k = map_of m k"
  by (simp add: replace_text_def)

lemma prune_preview_other:
  "k \<notin> set PRUNE_KEYS \<Longrightarrow> map_of (prune_preview reason chars m) k = map_of m k"
  by (simp add: prune_preview_def PRUNE_KEYS_def Let_def)

lemma prune_payload_other: "k \<noteq> ''payload'' \<Longrightarrow> map_of (prune_payload reason m) k = map_of m k"
  by (simp add: prune_payload_def split: option.split)

lemma prune_event_other:
  assumes "k \<notin> set PRUNE_KEYS"
  shows "jget (prune_event reason chars ev) k = jget ev k"
proof (cases ev)
  case (JObj m)
  have "k \<noteq> ''payload''" "k \<noteq> ''content''" "k \<noteq> ''output''" "k \<noteq> ''prune_reason''" "k \<noteq> ''pruned''"
    using assms by (auto simp: PRUNE_KEYS_def)
  then show ?thesis
    by (simp add: JObj prune_event_def prune_payload_other replace_text_other prune_preview_other [OF assms])
qed (simp_all add: prune_event_def)

lemma apply_decision_length [simp]: "length (apply_decision d rs) = length rs"
  by (simp add: apply_decision_def split: prod.split)

lemma apply_decisions_nth:
  assumes "distinct (map fst ds)" and "i < length rs"
  shows "fold apply_decision ds rs ! i =
     (case map_of ds i of
        None \<Rightarrow> rs ! i
      | Some (reason, chars) \<Rightarrow> (rs ! i)\<lparr>r_event := prune_event reason chars (r_event (rs ! i))\<rparr>)"
  using assms
proof (induction ds arbitrary: rs)
  case Nil
  then show ?case by simp
next
  case (Cons d ds)
  obtain j reason chars where d: "d = (j, reason, chars)" by (cases d)
  have none: "map_of ds j = None"
    using Cons.prems by (simp add: d map_of_eq_None_iff)
  have "fold apply_decision (d # ds) rs ! i = fold apply_decision ds (apply_decision d rs) ! i"
    by simp
  also have "\<dots> = (case map_of ds i of
        None \<Rightarrow> apply_decision d rs ! i
      | Some (r, c) \<Rightarrow> (apply_decision d rs ! i)\<lparr>r_event := prune_event r c (r_event (apply_decision d rs ! i))\<rparr>)"
    using Cons by simp
  finally show ?case
    using none Cons.prems(2) by (auto simp: d apply_decision_def nth_list_update split: option.split)
qed

lemma fold_apply_length [simp]: "length (fold apply_decision ds rs) = length rs"
  by (induction ds arbitrary: rs) simp_all

section \<open>Pruning a page\<close>

text \<open>The records a page's rules call stale.\<close>

definition stale_records :: "(string \<Rightarrow> json option) \<Rightarrow> nat \<Rightarrow> page_record list \<Rightarrow> nat set" where
  "stale_records parse preserve_recent rs =
     (let sc = scan_records parse rs in
      {pt_output_idx t | xs t ys.
         pair_calls_with_outputs (sc_calls sc) (sc_outputs sc) = xs @ t # ys \<and>
         stale_output (sc_writes sc) (length rs - preserve_recent) t ys})"

definition page_outcome :: "(string \<Rightarrow> json option) \<Rightarrow> nat \<Rightarrow> page_record list \<Rightarrow> rule_outcome" where
  "page_outcome parse preserve_recent rs =
     (let sc = scan_records parse rs in
      evaluate_prune_rules (pair_calls_with_outputs (sc_calls sc) (sc_outputs sc)) (sc_writes sc) (length rs - preserve_recent))"

lemma page_outcome_decided: "decided (page_outcome parse k rs) = stale_records parse k rs"
  unfolding page_outcome_def stale_records_def Let_def by (rule evaluate_decided)

lemma page_outcome_distinct: "distinct (map fst (ro_decisions (page_outcome parse k rs)))"
  unfolding page_outcome_def Let_def by (rule omap_ok_distinct [OF evaluate_ok])

lemma stale_output_old: "stale_output writes keep t later \<Longrightarrow> pt_output_idx t < keep"
  by (auto simp: stale_output_def stale_read_def stale_search_def kept_def split: tool_action.splits)

lemma stale_records_old: "stale_records parse k rs \<subseteq> {..<length rs - k}"
  by (auto simp: stale_records_def Let_def dest: stale_output_old)

lemma prune_page_empty:
  "p_records p = [] \<Longrightarrow> fst (prune_page parse k p) = p"
  "p_records p = [] \<Longrightarrow> pr_pruned_count (snd (prune_page parse k p)) = 0"
  by (simp_all add: prune_page_def Let_def)

lemma prune_page_records:
  "p_records (fst (prune_page parse k p)) = fold apply_decision (ro_decisions (page_outcome parse k (p_records p))) (p_records p)"
  if "p_records p \<noteq> []"
  using that by (simp add: prune_page_def Let_def apply_prune_decisions_def page_outcome_def split: prod.split)

lemma prune_page_count:
  assumes "p_records p \<noteq> []"
  shows "pr_pruned_count (snd (prune_page parse k p)) = card (stale_records parse k (p_records p))"
proof -
  have "pr_pruned_count (snd (prune_page parse k p)) = length (map fst (ro_decisions (page_outcome parse k (p_records p))))"
    using assms by (simp add: prune_page_def Let_def apply_prune_decisions_def page_outcome_def)
  also have "\<dots> = card (set (map fst (ro_decisions (page_outcome parse k (p_records p)))))"
    by (simp only: distinct_card [OF page_outcome_distinct])
  finally show ?thesis
    by (simp add: page_outcome_decided)
qed

lemma stale_records_Nil [simp]: "stale_records parse k [] = {}"
  using stale_records_old [of parse k "[]"] by simp

text \<open>C13. Pruning a page is exact.  The receipt counts the stale outputs: paired outputs that are no
  error, lie before the newest \<open>preserve_recent\<close> records, and are a read of a file that is written
  or read again later, or a search with an empty result.  The page keeps its number of records; a record that is
  not stale is untouched, and a stale one keeps its line number and every key of its event other than
  the markers and the fields that carry the text.
\<close>

theorem prune_page_exact:
  assumes "i < length (p_records p)"
  shows "length (p_records (fst (prune_page parse k p))) = length (p_records p) \<and>
     pr_pruned_count (snd (prune_page parse k p)) = card (stale_records parse k (p_records p)) \<and>
     stale_records parse k (p_records p) \<subseteq> {..<length (p_records p) - k} \<and>
     r_line (p_records (fst (prune_page parse k p)) ! i) = r_line (p_records p ! i) \<and>
     (\<exists>reason chars. r_event (p_records (fst (prune_page parse k p)) ! i) =
        (if i \<in> stale_records parse k (p_records p) then prune_event reason chars (r_event (p_records p ! i))
         else r_event (p_records p ! i))) \<and>
     (x \<notin> set PRUNE_KEYS \<longrightarrow>
        jget (r_event (p_records (fst (prune_page parse k p)) ! i)) x = jget (r_event (p_records p ! i)) x)"
proof -
  have ne: "p_records p \<noteq> []"
    using assms by auto
  let ?ds = "ro_decisions (page_outcome parse k (p_records p))"
  have nth: "p_records (fst (prune_page parse k p)) ! i =
     (case map_of ?ds i of
        None \<Rightarrow> p_records p ! i
      | Some (reason, chars) \<Rightarrow> (p_records p ! i)\<lparr>r_event := prune_event reason chars (r_event (p_records p ! i))\<rparr>)"
    by (simp only: prune_page_records [OF ne] apply_decisions_nth [OF page_outcome_distinct assms])
  have stale: "i \<in> stale_records parse k (p_records p) \<longleftrightarrow> map_of ?ds i \<noteq> None"
    by (simp add: map_of_eq_None_iff page_outcome_decided)
  show ?thesis
    using nth stale stale_records_old prune_page_count [OF ne] prune_page_records [OF ne]
    by (auto simp: prune_event_other split: option.splits)
qed

section \<open>Example pages\<close>

definition example_record :: "nat \<Rightarrow> (string \<times> json) list \<Rightarrow> page_record" where
  "example_record line kvs = \<lparr>r_line = line, r_event = jobj kvs\<rparr>"

definition example_page :: "page_record list \<Rightarrow> page" where
  "example_page rs =
     \<lparr>p_session_id = ''s'', p_source = ''codex'', p_source_path = ''f'', p_view = ''context'', p_offset = 0, p_next_offset = None,
      p_records = rs, p_warnings = []\<rparr>"

definition example_call :: "string \<Rightarrow> string \<Rightarrow> (string \<times> json) list \<Rightarrow> json" where
  "example_call cid name input = jobj [(''type'', JStr ''tool_use''), (''id'', JStr cid), (''name'', JStr name), (''input'', jobj input)]"

definition example_result :: "string \<Rightarrow> bool \<Rightarrow> string \<Rightarrow> json" where
  "example_result cid err out =
     jobj [(''type'', JStr ''tool_result''), (''tool_use_id'', JStr cid), (''is_error'', JBool err), (''content'', JStr out)]"

text \<open>A read that a later write supersedes.\<close>

definition rewritten_page :: page where
  "rewritten_page = example_page
     [example_record 1 [(''kind'', JStr ''function_call''), (''name'', JStr ''read_file''), (''call_id'', JStr ''a''), (''arguments'', jobj [(''path'', JStr ''f'')])],
      example_record 2 [(''kind'', JStr ''function_call_output''), (''call_id'', JStr ''a''), (''preview'', JStr ''old text'')],
      example_record 3 [(''kind'', JStr ''function_call''), (''name'', JStr ''edit''), (''call_id'', JStr ''b''), (''arguments'', jobj [(''path'', JStr ''f'')])]]"

text \<open>Two calls answered by one record: an empty search, and a command that failed.\<close>

definition mixed_page :: page where
  "mixed_page = example_page
     [example_record 1 [(''content'', JArr [example_call ''a'' ''grep'' [(''pattern'', JStr ''x'')], example_call ''b'' ''read'' [(''path'', JStr ''f'')]])],
      example_record 2 [(''content'', JArr [example_result ''a'' False [], example_result ''b'' True ''no such file''])]]"

text \<open>The nested form of a transcript: the parts are inside \<open>message.content\<close>.\<close>

definition nested_page :: page where
  "nested_page = example_page
     [example_record 1 [(''message'', jobj [(''content'', JArr [example_call ''a'' ''grep'' [(''pattern'', JStr ''x'')]])])],
      example_record 2 [(''message'', jobj [(''content'', JArr [example_result ''a'' False ''no results found''])])]]"

theorem prune_page_exact_witness:
  "1 < length (p_records rewritten_page) \<and> card (stale_records (\<lambda>_. None) 0 (p_records rewritten_page)) = 1"
proof -
  have "1 < length (p_records rewritten_page)" by code_simp
  moreover have "pr_pruned_count (snd (prune_page (\<lambda>_. None) 0 rewritten_page)) = 1" by code_simp
  ultimately show ?thesis
    using prune_page_exact [of 1 rewritten_page "\<lambda>_. None" 0] by simp
qed

text \<open>C32. Three cases in which pruning does not do what its documentation promises.  A search that reports
  \<open>10 matches\<close> counts as empty, because its text contains \<open>0 matches\<close>.  A record with two results, one
  of an empty search and one of a failing call, has its whole content replaced, so that the failing
  output is lost.  And a result nested in \<open>message.content\<close> is counted as pruned, with its characters
  as saved, though its text stays in the page.
\<close>

theorem prune_page_misses:
  "is_empty_search_output ''10 matches'' \<and>
   jget (r_event (p_records (fst (prune_page parse 0 mixed_page)) ! 1)) ''content'' =
     Some (JStr (note_text ''tool output omitted: '' (empty_reason ''x''))) \<and>
   jget (r_event (p_records (fst (prune_page parse 0 nested_page)) ! 1)) ''message'' =
     jget (r_event (p_records nested_page ! 1)) ''message'' \<and>
   pr_pruned_count (snd (prune_page parse 0 nested_page)) = 1 \<and>
   pr_saved_chars_estimate (snd (prune_page parse 0 nested_page)) = 16"
  (is "?A \<and> ?B \<and> ?C \<and> ?D \<and> ?E")
proof (intro conjI)
  show ?A by code_simp
  show ?B by code_simp
  show ?C by code_simp
  show ?D by code_simp
  show ?E by code_simp
qed

end
