(* ===== verification/Attachments.thy ===== *)
theory Attachments
  imports Compact Ids Journal
begin

text \<open>
  Source-backed references (\<open>crates/innen-core/src/conversation/attachments.rs\<close>) and the output
  format of a page (\<open>format.rs\<close>).  \<open>sha\<close> is the digest, \<open>ser\<close> the JSON printer, \<open>lookup\<close> is
  \<open>serde_json::Value::pointer\<close>, whose documented behaviour is the locale \<open>json_pointer\<close>.
  The lemmas show that every reference that is written can be resolved.
\<close>

section \<open>References\<close>

definition is_base64_char :: "char \<Rightarrow> bool" where
  "is_base64_char c \<longleftrightarrow> is_ascii_digit c \<or> (65 \<le> byte c \<and> byte c \<le> 90) \<or> (97 \<le> byte c \<and> byte c \<le> 122) \<or>
     c = CHR ''+'' \<or> c = CHR 0x2F"

definition image_uri :: "string \<Rightarrow> bool" where
  "image_uri tx =
     (case split_once tx '','' of
        None \<Rightarrow> False
      | Some (header, body) \<Rightarrow>
          starts_with header ''data:image/'' \<and> ends_with header '';base64'' \<and> body \<noteq> [] \<and> length body mod 4 = 0 \<and>
          list_all is_base64_char (trim_end_char (CHR ''='') body) \<and>
          length body - length (trim_end_char (CHR ''='') body) \<le> 2)"

definition escape_key :: "string \<Rightarrow> string" where
  "escape_key key = replace_char (CHR 0x2F) ''~1'' (replace_char (CHR ''~'') ''~0'' key)"

definition attachment_kind :: "bool \<Rightarrow> string \<Rightarrow> string \<Rightarrow> string option" where
  "attachment_kind encrypted pointer tx =
     (if encrypted \<and> pointer = ''/payload/encrypted_content'' \<and> tx \<noteq> [] then Some ''codex_encrypted_reasoning''
      else if image_uri tx then Some ''image_data_uri''
      else None)"

definition ref_value :: "(string \<Rightarrow> 8 word list) \<Rightarrow> nat \<Rightarrow> nat \<Rightarrow> string \<Rightarrow> string \<Rightarrow> string \<Rightarrow> json" where
  "ref_value sha rec line pointer kind tx =
     jobj [(''record'', jnat rec), (''line'', jnat line), (''pointer'', JStr pointer), (''kind'', JStr kind),
           (''bytes'', jnat (length tx)), (''sha256'', JStr (sha256_hex sha tx))]"

definition marker :: "nat \<Rightarrow> json" where
  "marker n = jobj [(''attachment'', jnat n)]"

text \<open>The number of the record, its line and its kind are fixed for one event.\<close>

record walk_env =
  we_encrypted :: bool
  we_record :: nat
  we_line :: nat

fun walk :: "(string \<Rightarrow> 8 word list) \<Rightarrow> walk_env \<Rightarrow> json \<Rightarrow> string \<Rightarrow> json list \<Rightarrow> json \<times> json list"
  and walk_items :: "(string \<Rightarrow> 8 word list) \<Rightarrow> walk_env \<Rightarrow> nat \<Rightarrow> json list \<Rightarrow> string \<Rightarrow> json list \<Rightarrow> json list \<times> json list"
  and walk_fields :: "(string \<Rightarrow> 8 word list) \<Rightarrow> walk_env \<Rightarrow> jobject \<Rightarrow> string \<Rightarrow> json list \<Rightarrow> jobject \<times> json list" where
  "walk sha e (JStr tx) pointer refs =
     (case attachment_kind (we_encrypted e) pointer tx of
        Some kind \<Rightarrow> (marker (length refs), refs @ [ref_value sha (we_record e) (we_line e) pointer kind tx])
      | None \<Rightarrow> (JStr tx, refs))"
| "walk sha e (JArr xs) pointer refs =
     (let (xs', refs') = walk_items sha e 0 xs pointer refs in (JArr xs', refs'))"
| "walk sha e (JObj m) pointer refs =
     (let (m', refs') = walk_fields sha e m pointer refs in (JObj m', refs'))"
| "walk sha e v pointer refs = (v, refs)"
| "walk_items sha e i [] pointer refs = ([], refs)"
| "walk_items sha e i (x # xs) pointer refs =
     (let (x', refs') = walk sha e x (pointer @ ''/'' @ nat_digits i) refs;
          (xs', refs'') = walk_items sha e (Suc i) xs pointer refs'
      in (x' # xs', refs''))"
| "walk_fields sha e [] pointer refs = ([], refs)"
| "walk_fields sha e (kv # m) pointer refs =
     (let (x', refs') = walk sha e (snd kv) (pointer @ ''/'' @ escape_key (fst kv)) refs;
          (m', refs'') = walk_fields sha e m pointer refs'
      in ((fst kv, x') # m', refs''))"

definition is_encrypted :: "page \<Rightarrow> page_record \<Rightarrow> bool" where
  "is_encrypted p r \<longleftrightarrow>
     p_source p = ''codex'' \<and> jidx (r_event r) ''type'' = JStr ''response_item'' \<and>
     jidx (jidx (r_event r) ''payload'') ''type'' = JStr ''reasoning''"

definition env_of :: "page \<Rightarrow> nat \<Rightarrow> page_record \<Rightarrow> walk_env" where
  "env_of p i r = \<lparr>we_encrypted = is_encrypted p r, we_record = i, we_line = r_line r\<rparr>"

fun walk_records ::
  "(string \<Rightarrow> 8 word list) \<Rightarrow> page \<Rightarrow> nat \<Rightarrow> page_record list \<Rightarrow> json list \<Rightarrow> page_record list \<times> json list" where
  "walk_records sha p i [] refs = ([], refs)"
| "walk_records sha p i (r # rs) refs =
     (let (v, refs') = walk sha (env_of p i r) (r_event r) [] refs;
          (rs', refs'') = walk_records sha p (Suc i) rs refs'
      in (r\<lparr>r_event := v\<rparr> # rs', refs''))"

definition page_json :: "bool \<Rightarrow> (json \<Rightarrow> string) \<Rightarrow> page \<Rightarrow> json" where
  "page_json use_compact ser p = (if use_compact then encode_page ser p else page_value p)"

definition ATTACHMENT_NOTICE :: string where
  "ATTACHMENT_NOTICE = ''Payloads are not inline. References need the unchanged source. No image or encrypted-content understanding is implied.''"

definition attachments_packet :: "json \<Rightarrow> json list \<Rightarrow> json" where
  "attachments_packet pg refs =
     jobj [(''encoding'', JStr ''innen.attachments.v1''), (''page'', pg), (''attachments'', JArr refs),
           (''notice'', JStr ATTACHMENT_NOTICE)]"

definition externalize :: "(string \<Rightarrow> 8 word list) \<Rightarrow> (json \<Rightarrow> string) \<Rightarrow> bool \<Rightarrow> page \<Rightarrow> string + json" where
  "externalize sha ser use_compact p =
     (if p_view p \<noteq> ''events'' then Inl ''--attachment-refs requires --view events''
      else
        (let original = page_json use_compact ser p;
             (rs, refs) = walk_records sha p 0 (p_records p) []
         in if refs = [] then Inr original
            else
              (let packed = attachments_packet (page_json use_compact ser (p\<lparr>p_records := rs\<rparr>)) refs in
               Inr (if length (ser packed) < length (ser original) then packed else original))))"

text \<open>\<open>offset.checked_add(1)\<close> on a 64 bit \<open>usize\<close>.\<close>

definition checked_succ :: "nat \<Rightarrow> nat option" where
  "checked_succ n = (if n + 1 < 2 ^ 64 then Some (n + 1) else None)"

definition resolved :: "nat \<Rightarrow> string \<Rightarrow> string \<Rightarrow> string \<Rightarrow> json" where
  "resolved line pointer digest tx =
     jobj [(''line'', jnat line), (''pointer'', JStr pointer), (''sha256'', JStr digest), (''bytes'', jnat (length tx)),
           (''value'', JStr tx)]"

definition resolve ::
  "(string \<Rightarrow> 8 word list) \<Rightarrow> (json \<Rightarrow> string \<Rightarrow> json option) \<Rightarrow> page \<Rightarrow> nat \<Rightarrow> string \<Rightarrow> string \<Rightarrow> string + json" where
  "resolve sha lookup p offset pointer expected =
     (if length expected \<noteq> 64 \<or> \<not> list_all is_ascii_hexdigit expected then Inl ''expected a 64-digit SHA-256''
      else if \<not> starts_with pointer ''/'' \<or> p_view p \<noteq> ''events'' \<or> length (p_records p) \<noteq> 1 then
        Inl ''attachment lookup requires one source event and an absolute JSON pointer''
      else
        (let r = p_records p ! 0 in
         if checked_succ offset \<noteq> Some (r_line r) then Inl ''requested source row is no longer present''
         else
           (case Option.bind (lookup (r_event r) pointer) as_str of
              None \<Rightarrow> Inl ''attachment string not found at source pointer''
            | Some tx \<Rightarrow>
                (let digest = sha256_hex sha tx in
                 if \<not> eq_ignore_ascii_case digest expected then
                   Inl ''attachment hash mismatch: source changed or reference is incorrect''
                 else Inr (resolved (r_line r) pointer digest tx)))))"

section \<open>The format of a page\<close>

record format_options =
  fo_compact :: bool
  fo_deltas :: bool
  fo_attachment_refs :: bool
  fo_attachment :: "string option"
  fo_expect_sha256 :: "string option"
  fo_offset :: nat

definition format_body ::
  "(string \<Rightarrow> 8 word list) \<Rightarrow> (json \<Rightarrow> string) \<Rightarrow> (json \<Rightarrow> string \<Rightarrow> json option) \<Rightarrow> format_options \<Rightarrow> page \<Rightarrow> string + json" where
  "format_body sha ser lookup opts p =
     (case fo_attachment opts of
        Some pointer \<Rightarrow>
          (case fo_expect_sha256 opts of
             None \<Rightarrow> Inl ''attachment requires expect_sha256''
           | Some hash \<Rightarrow> resolve sha lookup p (fo_offset opts) pointer hash)
      | None \<Rightarrow>
          if fo_attachment_refs opts then externalize sha ser (fo_compact opts) p
          else Inr (page_json (fo_compact opts) ser p))"

definition guided_body :: "(json \<Rightarrow> string) \<Rightarrow> bool \<Rightarrow> json \<Rightarrow> json" where
  "guided_body ser deltas v =
     (if deltas then
        (let base = with_guide v; delta = with_guide (encode_deltas ser v) in
         if length (ser delta) < length (ser base) then delta else base)
      else with_guide v)"

definition format_page ::
  "(string \<Rightarrow> 8 word list) \<Rightarrow> (json \<Rightarrow> string) \<Rightarrow> (json \<Rightarrow> string \<Rightarrow> json option) \<Rightarrow> format_options \<Rightarrow> page \<Rightarrow> string + json" where
  "format_page sha ser lookup opts p =
     (case format_body sha ser lookup opts p of
        Inl e \<Rightarrow> Inl e
      | Inr v \<Rightarrow>
          (let guided = guided_body ser (fo_deltas opts) v in
           Inr (if (fo_compact opts \<or> fo_attachment_refs opts) \<and> length (ser guided) > length (ser (page_value p))
                then page_value p else guided)))"

section \<open>Appended references\<close>

text \<open>\<open>refs'\<close> continues \<open>refs\<close>, and each new entry satisfies \<open>P\<close> with its number.\<close>

definition continues :: "json list \<Rightarrow> json list \<Rightarrow> (nat \<Rightarrow> json \<Rightarrow> bool) \<Rightarrow> bool" where
  "continues refs refs' P \<longleftrightarrow> (\<exists>new. refs' = refs @ new \<and> (\<forall>k < length new. P (length refs + k) (new ! k)))"

lemma continues_refl [simp]: "continues refs refs P"
  by (simp add: continues_def)

lemma continues_one: "P (length refs) ref \<Longrightarrow> continues refs (refs @ [ref]) P"
  by (simp add: continues_def)

lemma continues_mono: "continues refs refs' P \<Longrightarrow> (\<And>n ref. P n ref \<Longrightarrow> Q n ref) \<Longrightarrow> continues refs refs' Q"
  unfolding continues_def by blast

lemma continues_trans:
  assumes "continues a b P" and "continues b c P"
  shows "continues a c P"
proof -
  obtain n1 where b: "b = a @ n1" and 1: "\<forall>k < length n1. P (length a + k) (n1 ! k)"
    using assms(1) unfolding continues_def by blast
  obtain n2 where c: "c = b @ n2" and 2: "\<forall>k < length n2. P (length b + k) (n2 ! k)"
    using assms(2) unfolding continues_def by blast
  have "P (length a + k) ((n1 @ n2) ! k)" if "k < length (n1 @ n2)" for k
    using 1 2 [rule_format, of "k - length n1"] that b by (cases "k < length n1") (auto simp: nth_append)
  then show ?thesis
    unfolding continues_def by (intro exI [of _ "n1 @ n2"]) (simp add: b c)
qed

lemma continues_join:
  "continues a b P \<Longrightarrow> continues b c Q \<Longrightarrow> (\<And>n ref. P n ref \<Longrightarrow> R n ref) \<Longrightarrow> (\<And>n ref. Q n ref \<Longrightarrow> R n ref) \<Longrightarrow>
     continues a c R"
  by (blast intro: continues_trans continues_mono)

lemma sha256_hex_digits: "list_all is_ascii_hexdigit (sha256_hex sha tx)"
proof -
  have "list_all is_ascii_hexdigit HEX" by code_simp
  then have "is_ascii_hexdigit (HEX ! i)" if "i < 16" for i
    using that by (simp add: list_all_length HEX_def)
  then show ?thesis
    using hex_nibbles by (auto simp: sha256_hex_def hex_byte_def list_all_iff)
qed

section \<open>JSON pointers\<close>

text \<open>
  What the crate documents of \<open>Value::pointer\<close>: the empty pointer is the value; a segment of an
  object names a field, with \<open>~\<close> and \<open>/\<close> escaped; a segment of an array is an index in decimal.
\<close>

definition escape_char :: "char \<Rightarrow> string" where
  "escape_char c = (if c = CHR ''~'' then ''~0'' else if c = CHR 0x2F then ''~1'' else [c])"

definition rfc_escape :: "string \<Rightarrow> string" where
  "rfc_escape k = concat (map escape_char k)"

lemma escape_key_rfc: "escape_key k = rfc_escape k"
  unfolding escape_key_def replace_char_def rfc_escape_def
  by (induction k) (auto simp: escape_char_def)

text \<open>What may follow a segment.\<close>

abbreviation pointer_rest :: "string \<Rightarrow> bool" where
  "pointer_rest p \<equiv> p = [] \<or> starts_with p ''/''"

locale json_pointer =
  fixes lookup :: "json \<Rightarrow> string \<Rightarrow> json option"
  assumes root: "lookup v [] = Some v"
    and field: "omap_ok m \<Longrightarrow> pointer_rest rest \<Longrightarrow>
      lookup (JObj m) (''/'' @ rfc_escape k @ rest) = Option.bind (map_of m k) (\<lambda>x. lookup x rest)"
    and item: "pointer_rest rest \<Longrightarrow>
      lookup (JArr xs) (''/'' @ nat_digits i @ rest) = (if i < length xs then lookup (xs ! i) rest else None)"
begin

text \<open>
  One new reference, its number and the pointer it was found under: the source has the text there,
  the rewritten value the marker.
\<close>

definition refers :: "(string \<Rightarrow> 8 word list) \<Rightarrow> walk_env \<Rightarrow> string \<Rightarrow> json \<Rightarrow> json \<Rightarrow> nat \<Rightarrow> json \<Rightarrow> bool" where
  "refers sha e pointer v v' n ref \<longleftrightarrow>
     (\<exists>path kind tx. pointer_rest path \<and> ref = ref_value sha (we_record e) (we_line e) (pointer @ path) kind tx \<and>
        lookup v path = Some (JStr tx) \<and> lookup v' path = Some (marker n))"

lemma refers_item:
  assumes "refers sha e (pointer @ ''/'' @ nat_digits i) (xs ! i) (xs' ! i) n ref" and "i < length xs" and "i < length xs'"
  shows "refers sha e pointer (JArr xs) (JArr xs') n ref"
proof -
  obtain path kind tx where rest: "pointer_rest path"
    and r: "ref = ref_value sha (we_record e) (we_line e) ((pointer @ ''/'' @ nat_digits i) @ path) kind tx"
      "lookup (xs ! i) path = Some (JStr tx)" "lookup (xs' ! i) path = Some (marker n)"
    using assms(1) unfolding refers_def by blast
  show ?thesis
    unfolding refers_def
    by (rule exI [of _ "''/'' @ nat_digits i @ path"])
      (use r assms(2,3) item [OF rest] in \<open>auto simp: starts_with_def\<close>)
qed

lemma refers_field:
  assumes "refers sha e (pointer @ ''/'' @ escape_key k) x x' n ref"
    and "omap_ok m" and "omap_ok m'" and "map_of m k = Some x" and "map_of m' k = Some x'"
  shows "refers sha e pointer (JObj m) (JObj m') n ref"
proof -
  obtain path kind tx where rest: "pointer_rest path"
    and r: "ref = ref_value sha (we_record e) (we_line e) ((pointer @ ''/'' @ escape_key k) @ path) kind tx"
      "lookup x path = Some (JStr tx)" "lookup x' path = Some (marker n)"
    using assms(1) unfolding refers_def by blast
  show ?thesis
    unfolding refers_def
    by (rule exI [of _ "''/'' @ escape_key k @ path"])
      (use r assms(4,5) field [OF assms(2) rest] field [OF assms(3) rest] in \<open>auto simp: starts_with_def escape_key_rfc\<close>)
qed

text \<open>
  The walk only adds references, numbered on from those before; each one refers to its text.  In the
  lists, some element refers to it.
\<close>

definition item_refers :: "(string \<Rightarrow> 8 word list) \<Rightarrow> walk_env \<Rightarrow> nat \<Rightarrow> string \<Rightarrow> json list \<Rightarrow> json list \<Rightarrow> nat \<Rightarrow> json \<Rightarrow> bool" where
  "item_refers sha e i pointer xs xs' n ref \<longleftrightarrow>
     (\<exists>j < length xs. refers sha e (pointer @ ''/'' @ nat_digits (i + j)) (xs ! j) (xs' ! j) n ref)"

definition field_refers :: "(string \<Rightarrow> 8 word list) \<Rightarrow> walk_env \<Rightarrow> string \<Rightarrow> jobject \<Rightarrow> jobject \<Rightarrow> nat \<Rightarrow> json \<Rightarrow> bool" where
  "field_refers sha e pointer m m' n ref \<longleftrightarrow>
     (\<exists>j < length m. refers sha e (pointer @ ''/'' @ escape_key (fst (m ! j))) (snd (m ! j)) (snd (m' ! j)) n ref)"

lemma item_refers_Cons:
  "refers sha e (pointer @ ''/'' @ nat_digits i) x x' n ref \<Longrightarrow> item_refers sha e i pointer (x # xs) (x' # xs') n ref"
  "item_refers sha e (Suc i) pointer xs xs' n ref \<Longrightarrow> item_refers sha e i pointer (x # xs) (x' # xs') n ref"
  unfolding item_refers_def
  by (force, metis Suc_less_eq add_Suc_shift length_Cons nth_Cons_Suc)

lemma field_refers_Cons:
  "refers sha e (pointer @ ''/'' @ escape_key (fst kv)) (snd kv) x' n ref \<Longrightarrow>
     field_refers sha e pointer (kv # m) ((fst kv, x') # m') n ref"
  "field_refers sha e pointer m m' n ref \<Longrightarrow> field_refers sha e pointer (kv # m) (kv' # m') n ref"
  unfolding field_refers_def
  by (force, metis Suc_less_eq length_Cons nth_Cons_Suc)

lemma item_refers_JArr:
  "item_refers sha e 0 pointer xs xs' n ref \<Longrightarrow> length xs' = length xs \<Longrightarrow> refers sha e pointer (JArr xs) (JArr xs') n ref"
  unfolding item_refers_def by (auto intro: refers_item)

lemma field_refers_JObj:
  assumes "field_refers sha e pointer m m' n ref" and "omap_ok m" and keys: "map fst m' = map fst m"
  shows "refers sha e pointer (JObj m) (JObj m') n ref"
proof -
  have ok: "omap_ok m" "omap_ok m'" using assms(2) keys by (auto simp: omap_ok_def)
  have len: "length m' = length m" using keys by (metis length_map)
  obtain j where j: "j < length m" and r: "refers sha e (pointer @ ''/'' @ escape_key (fst (m ! j))) (snd (m ! j)) (snd (m' ! j)) n ref"
    using assms(1) unfolding field_refers_def by blast
  show ?thesis
  proof (rule refers_field [OF r ok])
    show "map_of m (fst (m ! j)) = Some (snd (m ! j))"
      using j by (simp add: omap_map_of_iff [OF ok(1)])
    have "fst (m ! j) = fst (m' ! j)" using keys j len by (metis nth_map)
    then show "map_of m' (fst (m ! j)) = Some (snd (m' ! j))"
      using j len by (simp add: omap_map_of_iff [OF ok(2)])
  qed
qed

lemma walk_refers:
  "wf_json v \<Longrightarrow> walk sha e v pointer refs = (v', refs') \<Longrightarrow> continues refs refs' (refers sha e pointer v v')"
  "wf_list xs \<Longrightarrow> walk_items sha e i xs pointer refs = (xs', refs') \<Longrightarrow>
     length xs' = length xs \<and> continues refs refs' (item_refers sha e i pointer xs xs')"
  "wf_fields m \<Longrightarrow> walk_fields sha e m pointer refs = (m', refs') \<Longrightarrow>
     map fst m' = map fst m \<and> continues refs refs' (field_refers sha e pointer m m')"
proof (induction sha e v pointer refs and sha e i xs pointer refs and sha e m pointer refs
    arbitrary: v' refs' and xs' refs' and m' refs' rule: walk_walk_items_walk_fields.induct)
  case (1 sha e tx pointer refs)
  show ?case
  proof (cases "attachment_kind (we_encrypted e) pointer tx")
    case None
    then show ?thesis using 1 by auto
  next
    case (Some kind)
    have "refers sha e pointer (JStr tx) (marker (length refs)) (length refs)
        (ref_value sha (we_record e) (we_line e) pointer kind tx)"
      unfolding refers_def by (rule exI [of _ "[]"]) (use root in auto)
    then show ?thesis
      using 1 Some by (auto intro: continues_one)
  qed
next
  case (2 sha e xs pointer refs)
  then show ?case by (auto split: prod.splits intro: continues_mono item_refers_JArr)
next
  case (3 sha e m pointer refs)
  then show ?case by (auto split: prod.splits intro: continues_mono field_refers_JObj)
next
  case (6 sha e i x xs pointer refs)
  obtain x1 refs1 where w1: "walk sha e x (pointer @ ''/'' @ nat_digits i) refs = (x1, refs1)" by fastforce
  obtain xs1 where w2: "walk_items sha e (Suc i) xs pointer refs1 = (xs1, refs')" and xs': "xs' = x1 # xs1"
    using 6(4) w1 by (auto split: prod.splits)
  have "continues refs refs1 (refers sha e (pointer @ ''/'' @ nat_digits i) x x1)"
    using 6(1) [OF _ w1] 6(3) by simp
  moreover have "length xs1 = length xs \<and> continues refs1 refs' (item_refers sha e (Suc i) pointer xs xs1)"
    using 6(2) [OF w1 [symmetric] refl _ w2] 6(3) by simp
  ultimately show ?case
    unfolding xs' using continues_join [OF _ _ item_refers_Cons(1) item_refers_Cons(2)] by fastforce
next
  case (8 sha e kv m pointer refs)
  obtain x1 refs1 where w1: "walk sha e (snd kv) (pointer @ ''/'' @ escape_key (fst kv)) refs = (x1, refs1)" by fastforce
  obtain m1 where w2: "walk_fields sha e m pointer refs1 = (m1, refs')" and m': "m' = (fst kv, x1) # m1"
    using 8(4) w1 by (auto split: prod.splits)
  have "continues refs refs1 (refers sha e (pointer @ ''/'' @ escape_key (fst kv)) (snd kv) x1)"
    using 8(1) [OF _ w1] 8(3) by simp
  moreover have "map fst m1 = map fst m \<and> continues refs1 refs' (field_refers sha e pointer m m1)"
    using 8(2) [OF w1 [symmetric] refl _ w2] 8(3) by simp
  ultimately show ?case
    unfolding m' using continues_join [OF _ _ field_refers_Cons(1) field_refers_Cons(2)] by fastforce
qed auto

text \<open>The same for all the records of a page.\<close>

definition record_refers :: "(string \<Rightarrow> 8 word list) \<Rightarrow> page \<Rightarrow> nat \<Rightarrow> page_record list \<Rightarrow> page_record list \<Rightarrow> nat \<Rightarrow> json \<Rightarrow> bool" where
  "record_refers sha p i rs rs' n ref \<longleftrightarrow>
     (\<exists>j < length rs. refers sha (env_of p (i + j) (rs ! j)) [] (r_event (rs ! j)) (r_event (rs' ! j)) n ref)"

lemma record_refers_Cons:
  "refers sha (env_of p i r) [] (r_event r) v n ref \<Longrightarrow> record_refers sha p i (r # rs) (r\<lparr>r_event := v\<rparr> # rs') n ref"
  "record_refers sha p (Suc i) rs rs' n ref \<Longrightarrow> record_refers sha p i (r # rs) (r' # rs') n ref"
  unfolding record_refers_def
  by (force, metis Suc_less_eq add_Suc_shift length_Cons nth_Cons_Suc)

lemma walk_records_refers:
  assumes "\<forall>r \<in> set rs. wf_json (r_event r)" and "walk_records sha p i rs refs = (rs', refs')"
  shows "map r_line rs' = map r_line rs \<and> continues refs refs' (record_refers sha p i rs rs')"
  using assms
proof (induction rs arbitrary: i refs rs')
  case Nil
  then show ?case by simp
next
  case (Cons r rs)
  obtain v refs1 where w1: "walk sha (env_of p i r) (r_event r) [] refs = (v, refs1)" by fastforce
  obtain rs1 where w2: "walk_records sha p (Suc i) rs refs1 = (rs1, refs')" and rs': "rs' = r\<lparr>r_event := v\<rparr> # rs1"
    using Cons.prems(2) w1 by (auto split: prod.splits)
  have "continues refs refs1 (refers sha (env_of p i r) [] (r_event r) v)"
    using walk_refers(1) [OF _ w1] Cons.prems(1) by simp
  moreover have "map r_line rs1 = map r_line rs \<and> continues refs1 refs' (record_refers sha p (Suc i) rs rs1)"
    using Cons.IH [OF _ w2] Cons.prems(1) by simp
  ultimately show ?case
    unfolding rs' using continues_join [OF _ _ record_refers_Cons(1) record_refers_Cons(2)] by fastforce
qed

text \<open>A reference to an event that is an object resolves on its record.\<close>

lemma resolve_refers:
  assumes "refers sha e [] v v' n ref" and "is_object v" and "0 < we_line e \<and> we_line e < 2 ^ 64"
    and "\<And>tx. length (sha tx) = 32"
  shows "\<exists>pointer kind tx. ref = ref_value sha (we_record e) (we_line e) pointer kind tx \<and>
     resolve sha lookup (q\<lparr>p_view := ''events'', p_records := [\<lparr>r_line = we_line e, r_event = v\<rparr>]\<rparr>) (we_line e - 1) pointer (sha256_hex sha tx) =
       Inr (resolved (we_line e) pointer (sha256_hex sha tx) tx) \<and>
     lookup v' pointer = Some (marker n)"
proof -
  obtain path kind tx where r: "pointer_rest path" "ref = ref_value sha (we_record e) (we_line e) path kind tx"
      "lookup v path = Some (JStr tx)" "lookup v' path = Some (marker n)"
    using assms(1) unfolding refers_def by auto
  have "path \<noteq> []"
    using r(3) assms(2) root by auto
  then have "starts_with path ''/''" using r(1) by simp
  moreover have "length (sha256_hex sha tx) = 64" "list_all is_ascii_hexdigit (sha256_hex sha tx)"
    using assms(4) by (simp_all add: sha256_hex_length sha256_hex_digits)
  moreover have "checked_succ (we_line e - 1) = Some (we_line e)"
    using assms(3) by (simp add: checked_succ_def)
  ultimately have "resolve sha lookup (q\<lparr>p_view := ''events'', p_records := [\<lparr>r_line = we_line e, r_event = v\<rparr>]\<rparr>) (we_line e - 1) path (sha256_hex sha tx) =
       Inr (resolved (we_line e) path (sha256_hex sha tx) tx)"
    using r(3) by (simp add: resolve_def eq_ignore_ascii_case_def Let_def)
  then show ?thesis using r by blast
qed

end

section \<open>A lookup with the documented behaviour\<close>

text \<open>Segment by segment, after RFC 6901; it shows that the hypotheses on \<open>lookup\<close> can hold.\<close>

definition segment :: "string \<Rightarrow> string" where
  "segment p = takeWhile (\<lambda>c. c \<noteq> CHR 0x2F) p"

definition after_segment :: "string \<Rightarrow> string" where
  "after_segment p = dropWhile (\<lambda>c. c \<noteq> CHR 0x2F) p"

definition index_of_segment :: "nat \<Rightarrow> string \<Rightarrow> nat option" where
  "index_of_segment n s = find (\<lambda>i. nat_digits i = s) [0..<n]"

lemma after_segment_length: "length (after_segment p) \<le> length p"
  by (simp add: after_segment_def length_dropWhile_le)

function pointer_lookup :: "json \<Rightarrow> string \<Rightarrow> json option" where
  "pointer_lookup v [] = Some v"
| "pointer_lookup v (c # p) =
     (if c \<noteq> CHR 0x2F then None
      else
        (case v of
           JObj m \<Rightarrow>
             (case find (\<lambda>kv. rfc_escape (fst kv) = segment p) m of
                None \<Rightarrow> None
              | Some kv \<Rightarrow> pointer_lookup (snd kv) (after_segment p))
         | JArr xs \<Rightarrow>
             (case index_of_segment (length xs) (segment p) of
                None \<Rightarrow> None
              | Some i \<Rightarrow> pointer_lookup (xs ! i) (after_segment p))
         | _ \<Rightarrow> None))"
  by pat_completeness auto
termination
  by (relation "measure (\<lambda>(v, p). length p)") (auto simp: less_Suc_eq_le after_segment_length)

lemma rfc_escape_plain: "CHR 0x2F \<notin> set (rfc_escape k)"
  unfolding rfc_escape_def by (induction k) (auto simp: escape_char_def)

lemma rfc_escape_inj: "rfc_escape k = rfc_escape k' \<longleftrightarrow> k = k'"
proof
  show "rfc_escape k = rfc_escape k' \<Longrightarrow> k = k'"
    unfolding rfc_escape_def
  proof (induction k arbitrary: k')
    case Nil
    then show ?case by (cases k') (auto simp: escape_char_def split: if_splits)
  next
    case (Cons c k)
    then show ?case by (cases k') (auto simp: escape_char_def split: if_splits)
  qed
qed simp

lemma digits_plain: "CHR 0x2F \<notin> set (nat_digits i)"
  using nat_digits_digit [of "CHR 0x2F" i] by (auto simp: is_ascii_digit_def byte_def)

lemma segment_append:
  assumes "CHR 0x2F \<notin> set s" and "pointer_rest rest"
  shows "segment (s @ rest) = s" and "after_segment (s @ rest) = rest"
proof -
  have all: "\<forall>c \<in> set s. c \<noteq> CHR 0x2F" using assms(1) by auto
  have "segment rest = []" "after_segment rest = rest"
    using assms(2) by (cases rest; simp add: segment_def after_segment_def starts_with_def)+
  then show "segment (s @ rest) = s" "after_segment (s @ rest) = rest"
    using all by (auto simp: segment_def after_segment_def takeWhile_append dropWhile_append)
qed

lemma index_of_segment_digits: "index_of_segment n (nat_digits i) = (if i < n then Some i else None)"
proof -
  have "(\<lambda>j. nat_digits j = nat_digits i) = (\<lambda>j. j = i)"
    by (auto dest: nat_digits_inj)
  moreover have "find (\<lambda>j. j = i) xs = (if i \<in> set xs then Some i else None)" for xs
    by (induction xs) auto
  ultimately show ?thesis
    by (simp add: index_of_segment_def)
qed

lemma find_key: "find (\<lambda>kv. rfc_escape (fst kv) = rfc_escape k) m = map_option (Pair k) (map_of m k)"
  unfolding rfc_escape_inj by (induction m) auto

interpretation rfc: json_pointer pointer_lookup
proof
  show "pointer_lookup v [] = Some v" for v
    by simp
  show "pointer_lookup (JObj m) (''/'' @ rfc_escape k @ rest) = Option.bind (map_of m k) (\<lambda>x. pointer_lookup x rest)"
    if "omap_ok m" "pointer_rest rest" for m rest k
    using segment_append [OF rfc_escape_plain that(2)] by (simp add: find_key split: option.split)
  show "pointer_lookup (JArr xs) (''/'' @ nat_digits i @ rest) = (if i < length xs then pointer_lookup (xs ! i) rest else None)"
    if "pointer_rest rest" for rest xs i
    using segment_append [OF digits_plain that] by (simp add: index_of_segment_digits)
qed

section \<open>Properties\<close>

text \<open>C14. Every reference that a page with attachment references lists can be resolved.  With a digest
  of 32 bytes and events that are objects on lines that fit a \<open>usize\<close>, each entry of the list names a
  record, its line, and a pointer at which the rewritten event holds the marker with the entry's number;
  and reading the unchanged record at the offset before that line and asking for the pointer with the
  listed digest returns the text that was taken out.\<close>

theorem attachment_refs_resolve:
  assumes "json_pointer lookup" and "\<And>tx. length (sha tx) = 32"
    and "\<forall>r \<in> set (p_records p). wf_json (r_event r) \<and> is_object (r_event r) \<and> 0 < r_line r \<and> r_line r < 2 ^ 64"
    and "walk_records sha p 0 (p_records p) [] = (rs, refs)" and "n < length refs"
  shows "\<exists>i < length (p_records p). \<exists>pointer kind tx.
     refs ! n = ref_value sha i (r_line (p_records p ! i)) pointer kind tx \<and>
     lookup (r_event (rs ! i)) pointer = Some (marker n) \<and>
     resolve sha lookup (p\<lparr>p_view := ''events'', p_records := [p_records p ! i]\<rparr>) (r_line (p_records p ! i) - 1) pointer
       (sha256_hex sha tx) =
       Inr (resolved (r_line (p_records p ! i)) pointer (sha256_hex sha tx) tx)"
proof -
  have "continues [] refs (json_pointer.record_refers lookup sha p 0 (p_records p) rs)"
    using json_pointer.walk_records_refers [OF assms(1) _ assms(4)] assms(3) by simp
  then have "json_pointer.record_refers lookup sha p 0 (p_records p) rs n (refs ! n)"
    using assms(5) by (simp add: continues_def)
  then obtain i where i: "i < length (p_records p)"
    and r: "json_pointer.refers lookup sha (env_of p i (p_records p ! i)) [] (r_event (p_records p ! i)) (r_event (rs ! i)) n (refs ! n)"
    unfolding json_pointer.record_refers_def [OF assms(1)] by auto
  have rec: "\<lparr>r_line = r_line (p_records p ! i), r_event = r_event (p_records p ! i)\<rparr> = p_records p ! i"
    by simp
  have ok: "is_object (r_event (p_records p ! i)) \<and> 0 < r_line (p_records p ! i) \<and> r_line (p_records p ! i) < 2 ^ 64"
    using assms(3) i by simp
  show ?thesis
    using json_pointer.resolve_refers [OF assms(1) r, of p] ok assms(2) i
    unfolding env_of_def walk_env.simps rec by blast
qed

definition attachment_page :: page where
  "attachment_page =
     \<lparr>p_session_id = ''s'', p_source = ''codex'', p_source_path = ''f'', p_view = ''events'', p_offset = 0, p_next_offset = None,
      p_records = [\<lparr>r_line = 7, r_event = jobj [(''a/b'', JArr [JStr ''data:image/png;base64,YWJj''])]\<rparr>], p_warnings = []\<rparr>"

theorem attachment_refs_resolve_witness:
  "\<exists>pointer kind tx.
     snd (walk_records (\<lambda>_. replicate 32 0) attachment_page 0 (p_records attachment_page) []) ! 0 =
       ref_value (\<lambda>_. replicate 32 0) 0 7 pointer kind tx \<and>
     resolve (\<lambda>_. replicate 32 0) pointer_lookup attachment_page 6 pointer (sha256_hex (\<lambda>_. replicate 32 0) tx) =
       Inr (resolved 7 pointer (sha256_hex (\<lambda>_. replicate 32 0) tx) tx)"
proof -
  let ?sha = "\<lambda>_ :: string. replicate 32 (0 :: 8 word)"
  obtain rs refs where w: "walk_records ?sha attachment_page 0 (p_records attachment_page) [] = (rs, refs)"
    by fastforce
  have one: "length (snd (walk_records ?sha attachment_page 0 (p_records attachment_page) [])) = 1"
    by code_simp
  have recs: "\<forall>r \<in> set (p_records attachment_page). wf_json (r_event r) \<and> is_object (r_event r) \<and> 0 < r_line r \<and> r_line r < 2 ^ 64"
    by (simp add: attachment_page_def obj_of_def)
  have len: "length (p_records attachment_page) = 1" and line: "r_line (p_records attachment_page ! 0) = 7"
    and same: "attachment_page\<lparr>p_view := ''events'', p_records := [p_records attachment_page ! 0]\<rparr> = attachment_page"
    by (simp_all add: attachment_page_def)
  have "0 < length refs" using one w by simp
  from attachment_refs_resolve [OF rfc.json_pointer_axioms _ recs w this]
  obtain i pointer kind tx where "i < length (p_records attachment_page)"
    and r: "refs ! 0 = ref_value ?sha i (r_line (p_records attachment_page ! i)) pointer kind tx"
      "resolve ?sha pointer_lookup (attachment_page\<lparr>p_view := ''events'', p_records := [p_records attachment_page ! i]\<rparr>)
         (r_line (p_records attachment_page ! i) - 1) pointer (sha256_hex ?sha tx) =
       Inr (resolved (r_line (p_records attachment_page ! i)) pointer (sha256_hex ?sha tx) tx)"
    by auto
  then have "i = 0" using len by simp
  then have "snd (walk_records ?sha attachment_page 0 (p_records attachment_page) []) ! 0 = ref_value ?sha 0 7 pointer kind tx"
    and "resolve ?sha pointer_lookup attachment_page 6 pointer (sha256_hex ?sha tx) = Inr (resolved 7 pointer (sha256_hex ?sha tx) tx)"
    using r unfolding \<open>i = 0\<close> line same by (simp_all only: w snd_conv) simp
  then show ?thesis by blast
qed

text \<open>A formatted page is the page.  Without a request for one attachment and without references,
  the format of a page whose records have positive lines and well formed events always exists and decodes
  to the plain page, with numbers equal as the program compares them, whichever of the compact form and
  the factoring is asked for; in the compact form, guide included, it is never printed longer than the
  plain page.\<close>

theorem format_page_lossless:
  assumes "\<forall>r \<in> set (p_records p). 0 < r_line r \<and> wf_json (r_event r)"
    and "fo_attachment opts = None" and "\<not> fo_attachment_refs opts"
  shows "\<exists>out v. format_page sha ser lookup opts p = Inr out \<and> decode_page out = Inr v \<and> js_eq v (page_value p) \<and>
     (fo_compact opts \<longrightarrow> length (ser out) \<le> length (ser (page_value p)))"
proof -
  have "page_ok p" using assms(1) by (simp add: page_ok_def)
  then have body: "reads_as ser p (page_json (fo_compact opts) ser p)"
    by (simp add: page_json_def reads_as_encode reads_as_plain)
  have reads: "\<exists>v. decode_page w = Inr v \<and> js_eq v (page_value p)" if "reads_as ser p w" for w
    using that page_with_same by (auto simp: reads_as_def)
  have guided: "\<exists>v. decode_page (guided_body ser d w) = Inr v \<and> js_eq v (page_value p)" if "reads_as ser p w" for d w
    using reads [OF that] reads [OF reads_as_deltas [OF that]]
    by (simp add: guided_body_def Let_def decode_page_with_guide)
  let ?guided = "guided_body ser (fo_deltas opts) (page_json (fo_compact opts) ser p)"
  have f: "format_page sha ser lookup opts p =
      Inr (if fo_compact opts \<and> length (ser ?guided) > length (ser (page_value p)) then page_value p else ?guided)"
    using assms(2,3) by (simp add: format_page_def format_body_def Let_def)
  show ?thesis
  proof (cases "fo_compact opts \<and> length (ser ?guided) > length (ser (page_value p))")
    case True
    then show ?thesis using f reads [OF reads_as_plain] by auto
  next
    case False
    have "format_page sha ser lookup opts p = Inr ?guided"
      unfolding f if_not_P [OF False] by (rule refl)
    then show ?thesis using False guided [OF body] by auto
  qed
qed

definition compact_options :: format_options where
  "compact_options = \<lparr>fo_compact = True, fo_deltas = True, fo_attachment_refs = False, fo_attachment = None,
     fo_expect_sha256 = None, fo_offset = 0\<rparr>"

theorem format_page_lossless_witness:
  "\<exists>out v. format_page (\<lambda>_. []) demo_ser pointer_lookup compact_options attachment_page = Inr out \<and>
     decode_page out = Inr v \<and> js_eq v (page_value attachment_page)"
proof -
  have "\<forall>r \<in> set (p_records attachment_page). 0 < r_line r \<and> wf_json (r_event r)" by code_simp
  then show ?thesis
    using format_page_lossless [of attachment_page compact_options "\<lambda>_. []" demo_ser pointer_lookup]
    by (auto simp: compact_options_def)
qed

end
