(* ===== verification/Retention_Model.thy ===== *)
theory Retention_Model
  imports Requests Ledger_Model
begin

text \<open>
  Retention of native sessions, the model (\<open>crates/innen-core/src/session_retention\<close>:
  \<open>types.rs\<close>, \<open>support.rs\<close>, \<open>archive.rs\<close>, \<open>activity.rs\<close>, \<open>policy.rs\<close>, with \<open>Source\<close> of
  \<open>conversation/sources/mod.rs\<close> and the queries of \<open>conversation/opencode_db.rs\<close>).  The world is a
  file tree and the journal's store.  Other processes run between any two steps of the code: every
  step goes through \<open>interfere\<close>, which is a parameter of the host, as are the clock, the open handles
  that \<open>/proc\<close> lists, path resolution and the programs that are started.  One step reads the
  files it needs at one moment.  A path is the list of its components, looked up as it stands.
\<close>

section \<open>Data\<close>

datatype source =
  Antigravity | Codex | Claude | Gemini | Mcode | Opencode | Grok | Copilot | Cursor | Vscode | Qwen

fun source_str :: "source \<Rightarrow> string" where
  "source_str Antigravity = ''antigravity''"
| "source_str Codex = ''codex''"
| "source_str Claude = ''claude''"
| "source_str Gemini = ''gemini''"
| "source_str Mcode = ''mcode''"
| "source_str Opencode = ''opencode''"
| "source_str Grok = ''grok''"
| "source_str Copilot = ''copilot''"
| "source_str Cursor = ''cursor''"
| "source_str Vscode = ''vscode''"
| "source_str Qwen = ''qwen''"

definition source_parse :: "string \<Rightarrow> string + source" where
  "source_parse name =
     (if name = ''agy'' \<or> name = ''antigravity'' then Inr Antigravity
      else if name = ''codex'' then Inr Codex
      else if name = ''claude'' then Inr Claude
      else if name = ''gemini'' then Inr Gemini
      else if name = ''mcode'' \<or> name = ''minimax'' then Inr Mcode
      else if name = ''opencode'' then Inr Opencode
      else if name = ''grok'' then Inr Grok
      else if name = ''copilot'' then Inr Copilot
      else if name = ''cursor'' then Inr Cursor
      else if name = ''vscode'' then Inr Vscode
      else if name = ''qwen'' then Inr Qwen
      else Inl (''unknown source: '' @ name))"

definition validate_id :: "string \<Rightarrow> string + string" where
  "validate_id sid =
     (if length sid = 36 \<and>
         list_all (\<lambda>(i, b). if i \<in> {8, 13, 18, 23} then b = CHR ''-'' else is_ascii_hexdigit b) (enumerate 0 sid)
      then Inr (to_ascii_lowercase sid)
      else if (starts_with sid ''ses_'' \<or> starts_with sid ''mvs_'') \<and> 5 \<le> length sid \<and> length sid \<le> 128 \<and>
         list_all (\<lambda>b. is_ascii_alphanumeric b \<or> b = CHR ''_'') sid
      then Inr sid
      else Inl ''invalid UUID or native session ID: expected a full UUID or a native session ID (opencode ses_..., mcode mvs_...)'')"

record candidate =
  cd_id :: string
  cd_source :: source
  cd_modified :: "string option"
  cd_path :: "string list"
  cd_project :: "string option"
  cd_parent_id :: "string option"

datatype rerror =
    RConversation string
  | RJournal string
  | RIo string string
  | RProof string
  | RPurge string

fun rerror_text :: "rerror \<Rightarrow> string" where
  "rerror_text (RConversation s) = ''conversation: '' @ s"
| "rerror_text (RJournal s) = ''journal: '' @ s"
| "rerror_text (RIo p s) = ''io '' @ p @ '': '' @ s"
| "rerror_text (RProof s) = ''retention proof rejected: '' @ s"
| "rerror_text (RPurge s) = ''purge failed: '' @ s"

record assessment =
  sa_session_id :: string
  sa_source :: string
  sa_modified :: "string option"
  sa_cutoff_utc :: string
  sa_source_bytes :: nat
  sa_source_sha256 :: string
  sa_eligible :: bool
  sa_blockers :: "string list"
  sa_blocker_codes :: "string list"
  sa_targets :: "string list list"

record attestation =
  tt_id :: string
  tt_session_id :: string
  tt_source :: string
  tt_source_sha256 :: string
  tt_knowledge_node_ids :: "string list"
  tt_session_closed :: bool

record purge_receipt =
  pr_session_id :: string
  pr_source :: string
  pr_executed :: bool
  pr_deleted_targets :: "string list list"
  pr_source_sha256 :: string
  pr_other_hard_links :: nat
  pr_hard_linked_bytes :: nat

record target_identity =
  ti_path :: "string list"
  ti_device :: nat
  ti_inode :: nat

definition SCHEMA :: string where "SCHEMA = ''innen.session-retention.v1''"
definition BLOCKER_RETENTION_WINDOW :: string where "BLOCKER_RETENTION_WINDOW = ''inside_retention_window''"
definition BLOCKER_MODIFIED_TIME_UNKNOWN :: string where "BLOCKER_MODIFIED_TIME_UNKNOWN = ''modified_time_unknown''"
definition BLOCKER_CHILD_SESSIONS :: string where "BLOCKER_CHILD_SESSIONS = ''child_sessions_present''"
definition BLOCKER_ATTESTATION_MISSING :: string where "BLOCKER_ATTESTATION_MISSING = ''attestation_missing''"
definition BLOCKER_KNOWLEDGE_MISSING :: string where "BLOCKER_KNOWLEDGE_MISSING = ''knowledge_provenance_missing''"
definition BLOCKER_SESSION_ACTIVE :: string where "BLOCKER_SESSION_ACTIVE = ''session_active''"
definition BLOCKER_ACTIVITY_UNKNOWN :: string where "BLOCKER_ACTIVITY_UNKNOWN = ''session_activity_unknown''"
definition BLOCKER_ASSESSMENT_ERROR :: string where "BLOCKER_ASSESSMENT_ERROR = ''assessment_error''"
definition BLOCKER_ALREADY_CLEANED :: string where "BLOCKER_ALREADY_CLEANED = ''already_cleaned''"

section \<open>The world\<close>

datatype inode_kind = Regular string | Folder | Symlink path

record inode =
  in_dev :: nat
  in_num :: nat
  in_links :: nat
  in_kind :: inode_kind

type_synonym files = "(string list \<times> inode) list"

record world =
  w_files :: files
  w_store :: store
  w_step :: nat

record process_output =
  out_ok :: bool
  out_status :: string
  out_stdout :: string
  out_stderr :: string

text \<open>The host: the libraries, the place of the knowledge base, the clock (nanoseconds since 1970),
  the device and number of a new file, what other processes do, path resolution, the processes with the files they hold open
  (\<open>None\<close> where \<open>/proc\<close> refuses), started programs, the two \<open>std\<close> and \<open>serde_json\<close> readers of
  their output, the enumeration and projection of native transcripts, and the place at which a key
  is met when a hash map is enumerated (the maps of the program are seeded at random, each anew).\<close>

record host =
  h_lib :: lib
  h_root :: "string list"
  h_qdir :: string
  h_now :: "world \<Rightarrow> nat"
  h_fresh :: "world \<Rightarrow> nat \<times> nat"
  h_others :: "nat \<Rightarrow> world \<Rightarrow> world"
  h_canon :: "files \<Rightarrow> string list \<Rightarrow> string list option"
  h_proc :: "world \<Rightarrow> string + (string \<times> string list option list option) list"
  h_run :: "string \<Rightarrow> string list \<Rightarrow> world \<Rightarrow> (string + process_output) \<times> world"
  h_lossy :: "string \<Rightarrow> string"
  h_values :: "string \<Rightarrow> string + json list"
  h_candidates :: "world \<Rightarrow> source option \<Rightarrow> string list option \<Rightarrow> string + candidate list"
  h_dialogue :: "world \<Rightarrow> source \<Rightarrow> string list \<Rightarrow> string \<Rightarrow> (nat \<times> json) list \<times> string list \<times> string option"
  h_order :: "world \<Rightarrow> string \<Rightarrow> nat"

text \<open>An operation takes the world to its result and the world it leaves.\<close>

type_synonym ('e, 'a) act = "world \<Rightarrow> ('e + 'a) \<times> world"

definition okA :: "'a \<Rightarrow> ('e, 'a) act" where
  "okA a = (\<lambda>w. (Inr a, w))"

definition failA :: "'e \<Rightarrow> ('e, 'a) act" where
  "failA e = (\<lambda>w. (Inl e, w))"

definition bindA :: "('e, 'a) act \<Rightarrow> ('a \<Rightarrow> ('e, 'b) act) \<Rightarrow> ('e, 'b) act" where
  "bindA m f = (\<lambda>w. case m w of (Inl e, w') \<Rightarrow> (Inl e, w') | (Inr a, w') \<Rightarrow> f a w')"

definition mapErrA :: "('e \<Rightarrow> 'f) \<Rightarrow> ('e, 'a) act \<Rightarrow> ('f, 'a) act" where
  "mapErrA g m = (\<lambda>w. case m w of (r, w') \<Rightarrow> (mapErr g r, w'))"

text \<open>The result as a value, for a \<open>match\<close> on it.\<close>

definition attempt :: "('e, 'a) act \<Rightarrow> ('f, 'e + 'a) act" where
  "attempt m = (\<lambda>w. case m w of (r, w') \<Rightarrow> (Inr r, w'))"

fun mapA :: "('a \<Rightarrow> ('e, 'b) act) \<Rightarrow> 'a list \<Rightarrow> ('e, 'b list) act" where
  "mapA f [] = okA []"
| "mapA f (x # xs) = bindA (f x) (\<lambda>y. bindA (mapA f xs) (\<lambda>ys. okA (y # ys)))"

definition interfere :: "host \<Rightarrow> world \<Rightarrow> world" where
  "interfere h w = (h_others h (w_step w) w)\<lparr>w_step := Suc (w_step w)\<rparr>"

definition observe :: "host \<Rightarrow> (world \<Rightarrow> 'e + 'a) \<Rightarrow> ('e, 'a) act" where
  "observe h f = (\<lambda>w. let w' = interfere h w in (f w', w'))"

definition change :: "host \<Rightarrow> (world \<Rightarrow> ('e + 'a) \<times> world) \<Rightarrow> ('e, 'a) act" where
  "change h f = (\<lambda>w. f (interfere h w))"

definition command :: "host \<Rightarrow> string \<Rightarrow> string list \<Rightarrow> (string, process_output) act" where
  "command h program args = change h (h_run h program args)"

section \<open>Files\<close>

definition ENOENT :: string where "ENOENT = ''No such file or directory (os error 2)''"
definition ENOTDIR :: string where "ENOTDIR = ''Not a directory (os error 20)''"
definition EISDIR :: string where "EISDIR = ''Is a directory (os error 21)''"

definition path_exists :: "host \<Rightarrow> files \<Rightarrow> string list \<Rightarrow> bool" where
  "path_exists h fs p \<longleftrightarrow> h_canon h fs p \<noteq> None"

definition path_is_dir :: "host \<Rightarrow> files \<Rightarrow> string list \<Rightarrow> bool" where
  "path_is_dir h fs p \<longleftrightarrow>
     (case Option.bind (h_canon h fs p) (map_of fs) of None \<Rightarrow> False | Some i \<Rightarrow> in_kind i = Folder)"

definition read_file :: "host \<Rightarrow> files \<Rightarrow> string list \<Rightarrow> rerror + string" where
  "read_file h fs p =
     (case Option.bind (h_canon h fs p) (map_of fs) of
        None \<Rightarrow> Inl (RIo (shown p) ENOENT)
      | Some i \<Rightarrow> (case in_kind i of Regular c \<Rightarrow> Inr c | _ \<Rightarrow> Inl (RIo (shown p) EISDIR)))"

definition remove_file :: "string list \<Rightarrow> files \<Rightarrow> rerror + files" where
  "remove_file p fs =
     (case map_of fs p of
        None \<Rightarrow> Inl (RIo (shown p) ENOENT)
      | Some i \<Rightarrow> if in_kind i = Folder then Inl (RIo (shown p) EISDIR)
                  else Inr (filter (\<lambda>(q, _). q \<noteq> p) fs))"

definition remove_dir_all :: "string list \<Rightarrow> files \<Rightarrow> rerror + files" where
  "remove_dir_all p fs =
     (case map_of fs p of
        None \<Rightarrow> Inl (RIo (shown p) ENOENT)
      | Some i \<Rightarrow>
          (case in_kind i of
             Folder \<Rightarrow> Inr (filter (\<lambda>(q, _). \<not> prefix p q) fs)
           | Symlink _ \<Rightarrow> Inr (filter (\<lambda>(q, _). q \<noteq> p) fs)
           | Regular _ \<Rightarrow> Inl (RIo (shown p) ENOTDIR)))"

definition file_name :: "string list \<Rightarrow> string option" where
  "file_name p = (if p = [] \<or> last p = ''..'' then None else Some (last p))"

definition file_stem :: "string list \<Rightarrow> string option" where
  "file_stem p = map_option (\<lambda>n.
     (let ext = takeWhile (\<lambda>c. c \<noteq> CHR ''.'') (rev n) in
      if length ext + 1 < length n then take (length n - length ext - 1) n else n)) (file_name p)"

definition ancestors :: "string list \<Rightarrow> string list list" where
  "ancestors p = rev (prefixes p)"

definition children :: "files \<Rightarrow> string list \<Rightarrow> string list list" where
  "children fs p = filter (\<lambda>q. q \<noteq> [] \<and> butlast q = p) (map fst fs)"

definition below :: "files \<Rightarrow> string list \<Rightarrow> nat" where
  "below fs p = length (filter (strict_prefix p) (map fst fs))"

lemma length_filter_strict:
  assumes "\<And>x. P x \<Longrightarrow> Q x" and "x \<in> set xs" and "Q x" and "\<not> P x"
  shows "length (filter P xs) < length (filter Q xs)"
proof -
  have le: "length (filter P ys) \<le> length (filter Q ys)" for ys
    using assms(1) by (induction ys) auto
  show ?thesis
    using assms(2)
  proof (induction xs)
    case (Cons y ys)
    then show ?case using le [of ys] assms(1,3,4) by (cases "x = y") auto
  qed simp
qed

lemma child_below: "q \<in> set (children fs p) \<Longrightarrow> below fs q < below fs p"
proof -
  assume "q \<in> set (children fs p)"
  then have q: "q \<in> set (map fst fs)" "q \<noteq> []" "p = butlast q" by (auto simp: children_def)
  then have pq: "strict_prefix p q"
    by (metis append_butlast_last_id prefix_order.less_le prefixI self_append_conv not_Cons_self2)
  show ?thesis
    unfolding below_def
    by (rule length_filter_strict [where P = "strict_prefix q" and Q = "strict_prefix p", OF _ q(1) pq]) (use pq in auto)
qed

section \<open>The bundle of a session\<close>

text \<open>\<open>archive.rs\<close>: the files of a session, their size, and the digest that an attestation names.\<close>

definition antigravity_targets :: "host \<Rightarrow> files \<Rightarrow> string list \<Rightarrow> string \<Rightarrow> string list list" where
  "antigravity_targets h fs p sid =
     (let found = find (\<lambda>a. file_name a = Some sid) (ancestors p);
          in_conversations = found = None \<and> file_stem p = Some sid \<and> p \<noteq> [] \<and>
            file_name (butlast p) = Some ''conversations'';
          brain_session = (if in_conversations
            then Some (butlast (butlast p) @ [''brain'', sid]) else found);
          own = (if in_conversations \<and> path_exists h fs p then [p] else []);
          rest = (case brain_session of
              None \<Rightarrow> []
            | Some b \<Rightarrow>
                (if path_exists h fs b then [b] else []) @
                (if b \<noteq> [] \<and> file_name (butlast b) = Some ''brain'' then
                   (let conversation = butlast (butlast b) @ [''conversations'', sid @ ''.db''] in
                    if path_exists h fs conversation then [conversation] else [])
                 else []))
      in remdups_adj (sort (own @ rest)))"

definition candidate_targets :: "host \<Rightarrow> files \<Rightarrow> candidate \<Rightarrow> string list list" where
  "candidate_targets h fs c =
     (if cd_source c = Antigravity then antigravity_targets h fs (cd_path c) (cd_id c) else [cd_path c])"

function tree_bytes :: "files \<Rightarrow> string list \<Rightarrow> nat" where
  "tree_bytes fs p =
     (case map_of fs p of
        None \<Rightarrow> 0
      | Some i \<Rightarrow>
          (case in_kind i of
             Folder \<Rightarrow> sum_list (map (tree_bytes fs) (children fs p))
           | Regular c \<Rightarrow> length c
           | Symlink t \<Rightarrow> length (display_path t)))"
  by pat_completeness auto
termination by (relation "measure (\<lambda>(fs, p). below fs p)") (auto simp: child_below)

declare tree_bytes.simps [simp del]

definition measured_bytes :: "host \<Rightarrow> files \<Rightarrow> candidate \<Rightarrow> nat" where
  "measured_bytes h fs c =
     (if cd_source c = Opencode then 0
      else sum_list (map (tree_bytes fs) (candidate_targets h fs c)))"

record session_bundle =
  b_sha256 :: string
  b_bytes :: nat
  b_targets :: "string list list"

definition points_inside :: "host \<Rightarrow> files \<Rightarrow> string list \<Rightarrow> string list \<Rightarrow> bool" where
  "points_inside h fs base link =
     (case map_of fs link of
        Some i \<Rightarrow>
          (case in_kind i of
             Symlink target \<Rightarrow>
               (if \<not> is_absolute target \<and> link = [] then False
                else
                  (let resolved = (if is_absolute target then comps target else butlast link @ comps target);
                       base' = (case h_canon h fs base of None \<Rightarrow> base | Some b \<Rightarrow> b);
                       resolved' = (case h_canon h fs resolved of None \<Rightarrow> resolved | Some r \<Rightarrow> r)
                   in prefix base' resolved'))
           | _ \<Rightarrow> False)
      | None \<Rightarrow> False)"

text \<open>The name of a file in the digest: its path from the parent of the target.\<close>

definition bundle_name :: "string list \<Rightarrow> string list \<Rightarrow> string" where
  "bundle_name base p = join_with ''/'' (drop (length base - 1) p)"

function bundle_files :: "host \<Rightarrow> files \<Rightarrow> string list \<Rightarrow> string list \<Rightarrow> rerror + (string \<times> string list) list" where
  "bundle_files h fs base p =
     (case map_of fs p of
        None \<Rightarrow> Inl (RIo (shown p) ENOENT)
      | Some i \<Rightarrow>
          (case in_kind i of
             Symlink _ \<Rightarrow>
               if points_inside h fs base p then Inr []
               else Inl (RProof (''symlink inside purge bundle is unsupported: '' @ shown p))
           | Regular _ \<Rightarrow> Inr [(bundle_name base p, p)]
           | Folder \<Rightarrow>
               bindE (mapE (bundle_files h fs base) (sort_key last (children fs p))) (\<lambda>parts.
               Inr (concat parts))))"
  by pat_completeness auto
termination by (relation "measure (\<lambda>(h, fs, base, p). below fs p)") (auto simp: child_below)

declare bundle_files.simps [simp del]

definition hash_targets :: "host \<Rightarrow> files \<Rightarrow> string list list \<Rightarrow> rerror + session_bundle" where
  "hash_targets h fs targets =
     (if targets = [] then Inl (RProof ''session bundle has no existing targets'')
      else
        bindE (mapE (\<lambda>t. bundle_files h fs t t) targets) (\<lambda>found.
        bindE (mapE (\<lambda>(name, p). bindE (read_file h fs p) (\<lambda>c. Inr (name, c))) (sort_key fst (concat found))) (\<lambda>parts.
        Inr \<lparr>b_sha256 = sha256_hex (x_sha (h_lib h)) (concat (map (\<lambda>(name, c). name @ [CHR 0x00] @ c) parts)),
             b_bytes = sum_list (map (\<lambda>(name, c). length c) parts),
             b_targets = targets\<rparr>)))"

definition hash_session_file :: "host \<Rightarrow> files \<Rightarrow> string list \<Rightarrow> rerror + string \<times> nat" where
  "hash_session_file h fs p =
     bindE (read_file h fs p) (\<lambda>c. Inr (sha256_hex (x_sha (h_lib h)) c, length c))"

definition file_bundle :: "host \<Rightarrow> files \<Rightarrow> candidate \<Rightarrow> rerror + session_bundle" where
  "file_bundle h fs c =
     (if cd_source c = Antigravity then hash_targets h fs (antigravity_targets h fs (cd_path c) (cd_id c))
      else
        bindE (hash_session_file h fs (cd_path c)) (\<lambda>(sha, bytes).
        Inr \<lparr>b_sha256 = sha, b_bytes = bytes, b_targets = [cd_path c]\<rparr>))"

section \<open>The OpenCode database\<close>

text \<open>\<open>opencode_db.rs\<close>, through the \<open>sqlite3\<close> program.\<close>

definition quoted :: "string \<Rightarrow> string" where
  "quoted s = [CHR 0x27] @ s @ [CHR 0x27]"

definition sqlite :: "host \<Rightarrow> string list \<Rightarrow> string \<Rightarrow> (string, json list) act" where
  "sqlite h db sql =
     bindA (mapErrA (\<lambda>e. ''sqlite3 required for OpenCode: '' @ e)
       (command h ''sqlite3'' [''-init'', ''/dev/null'', ''-batch'', ''-readonly'', ''-noheader'', ''-list'',
          ''-cmd'', ''.timeout 2000'', ''--'', shown db, sql])) (\<lambda>r.
     if \<not> out_ok r then
       failA (''sqlite3 '' @ shown db @ '' ('' @ out_status r @ ''): '' @ trim (h_lossy h (out_stderr r)))
     else if out_stdout r = [] then okA []
     else (case h_values h (out_stdout r) of
             Inl e \<Rightarrow> failA (''read '' @ shown db @ '': '' @ e)
           | Inr rows \<Rightarrow> okA rows))"

definition has_table :: "host \<Rightarrow> string list \<Rightarrow> string \<Rightarrow> (string, bool) act" where
  "has_table h db table =
     bindA (sqlite h db (''SELECT json_object('' @ quoted ''n'' @
       '',count(*)) FROM sqlite_master WHERE type='' @ quoted ''table'' @ '' AND name='' @ quoted table)) (\<lambda>rows.
     okA ((case rows of [] \<Rightarrow> 0
           | row # _ \<Rightarrow> (case Option.bind (jget row ''n'') as_i64 of None \<Rightarrow> 0 | Some n \<Rightarrow> n)) > 0))"

definition session_table :: "host \<Rightarrow> string list \<Rightarrow> (string, string) act" where
  "session_table h db =
     bindA (has_table h db ''session_v2'') (\<lambda>v2. okA (if v2 then ''session_v2'' else ''session''))"

definition message_sql :: "host \<Rightarrow> string list \<Rightarrow> string \<Rightarrow> string \<Rightarrow> (string, string) act" where
  "message_sql h db sid paging =
     bindA (has_table h db ''session_v2'') (\<lambda>v2.
     okA (if v2 then
       ''SELECT json_object('id',m.id,'message',json_object('role',m.type,'time',json_extract(m.data,'$.time'),'agent',json_extract(m.data,'$.agent'),'model',json_extract(m.data,'$.model'),'status',json_extract(m.data,'$.status'),'summary',json_extract(m.data,'$.summary')),'parts',json(COALESCE(json_extract(m.data,'$.content'),json_array(json_object('type','text','text',COALESCE(json_extract(m.data,'$.text'),json_extract(m.data,'$.summary'))))))) FROM session_message m WHERE m.session_id=''
       @ quoted sid @ '' ORDER BY m.seq'' @ paging
     else
       ''SELECT json_object('id',m.id,'message',json(m.data),'parts',json((SELECT json_group_array(json(p.data)) FROM (SELECT data FROM part WHERE message_id=m.id ORDER BY time_created,id) p))) FROM message m WHERE m.session_id=''
       @ quoted sid @ '' ORDER BY m.time_created,m.id'' @ paging))"

definition database_path :: "host \<Rightarrow> string list \<Rightarrow> (string, string list) act" where
  "database_path h p =
     observe h (\<lambda>w. Inr (if path_is_dir h (w_files w) p then p @ [''opencode.db''] else p))"

definition load_database_session :: "host \<Rightarrow> string list \<Rightarrow> string \<Rightarrow> (string, json list) act" where
  "load_database_session h p sid =
     bindA (database_path h p) (\<lambda>db.
     bindA (message_sql h db sid []) (\<lambda>sql.
     sqlite h db sql))"

definition database_child_sessions :: "host \<Rightarrow> string list \<Rightarrow> string \<Rightarrow> (string, string list) act" where
  "database_child_sessions h p sid =
     bindA (database_path h p) (\<lambda>db.
     bindA (session_table h db) (\<lambda>table.
     bindA (sqlite h db (''SELECT json_object('' @ quoted ''id'' @ '',id) FROM '' @ table @
       '' WHERE parent_id='' @ quoted sid @ '' ORDER BY id'')) (\<lambda>rows.
     okA (List.map_filter (\<lambda>row. Option.bind (jget row ''id'') as_str) rows))))"

text \<open>The digest binds the exported rows of an OpenCode session, and the files of any other.\<close>

definition bundle_of :: "host \<Rightarrow> candidate \<Rightarrow> (rerror, session_bundle) act" where
  "bundle_of h c =
     (if cd_source c = Opencode then
        bindA (mapErrA RConversation (load_database_session h (cd_path c) (cd_id c))) (\<lambda>rows.
        let bytes = x_ser (h_lib h) (JArr rows) in
        okA \<lparr>b_sha256 = sha256_hex (x_sha (h_lib h)) bytes, b_bytes = length bytes, b_targets = [cd_path c]\<rparr>)
      else observe h (\<lambda>w. file_bundle h (w_files w) c))"

section \<open>Open handles and identities\<close>

text \<open>\<open>activity.rs\<close>, as built for Linux.\<close>

datatype activity = Idle | Active | Unknown string

definition session_activity :: "host \<Rightarrow> string list list \<Rightarrow> world \<Rightarrow> activity" where
  "session_activity h targets w =
     (if targets = [] then Idle
      else
        (let canonical = List.map_filter (h_canon h (w_files w)) targets in
         case h_proc h w of
           Inl e \<Rightarrow> Unknown (''cannot inspect /proc: '' @ e)
         | Inr processes \<Rightarrow>
             if list_ex (\<lambda>(name, fds).
                  list_all is_ascii_digit name \<and>
                  (case fds of
                     None \<Rightarrow> False
                   | Some links \<Rightarrow>
                       list_ex (\<lambda>link. case link of
                           None \<Rightarrow> False
                         | Some open_path \<Rightarrow> list_ex (\<lambda>t. prefix t open_path) canonical) links)) processes
             then Active else Idle))"

definition liveness_targets :: "source \<Rightarrow> string list list \<Rightarrow> string list list" where
  "liveness_targets s targets = (if s = Opencode then [] else targets)"

text \<open>The check that three operations make, with the errors each reports.\<close>

definition require_idle :: "host \<Rightarrow> source \<Rightarrow> string list list \<Rightarrow> rerror \<Rightarrow> (string \<Rightarrow> rerror) \<Rightarrow> (rerror, unit) act" where
  "require_idle h s targets busy unsure =
     observe h (\<lambda>w. case session_activity h (liveness_targets s targets) w of
       Idle \<Rightarrow> Inr ()
     | Active \<Rightarrow> Inl busy
     | Unknown detail \<Rightarrow> Inl (unsure (''native session activity could not be verified: '' @ detail)))"

definition snapshot_target_identities :: "string list list \<Rightarrow> world \<Rightarrow> rerror + target_identity list" where
  "snapshot_target_identities targets w =
     mapE (\<lambda>p. case map_of (w_files w) p of
         None \<Rightarrow> Inl (RIo (shown p) ENOENT)
       | Some i \<Rightarrow>
           (case in_kind i of
              Symlink _ \<Rightarrow> Inl (RPurge (''purge target is a symlink: '' @ shown p))
            | _ \<Rightarrow> Inr \<lparr>ti_path = p, ti_device = in_dev i, ti_inode = in_num i\<rparr>)) targets"

fun verify_target_identities :: "target_identity list \<Rightarrow> world \<Rightarrow> rerror + unit" where
  "verify_target_identities [] w = Inr ()"
| "verify_target_identities (t # ts) w =
     (case map_of (w_files w) (ti_path t) of
        None \<Rightarrow> Inl (RIo (shown (ti_path t)) ENOENT)
      | Some i \<Rightarrow>
          if (case in_kind i of Symlink _ \<Rightarrow> True | _ \<Rightarrow> False) \<or> in_dev i \<noteq> ti_device t \<or> in_num i \<noteq> ti_inode t
          then Inl (RPurge (''purge target identity changed: '' @ shown (ti_path t)))
          else verify_target_identities ts w)"

section \<open>Clock, links and the journal\<close>

text \<open>\<open>support.rs\<close>, with the two journal calls every operation uses.\<close>

definition u64_sat :: "nat \<Rightarrow> nat" where
  "u64_sat n = min n (2 ^ 64 - 1)"

definition cutoff_utc :: "host \<Rightarrow> nat \<Rightarrow> world \<Rightarrow> string" where
  "cutoff_utc h days w =
     format_utc ((h_now h w - u64_sat (days * 86400) * 10 ^ 9) div 10 ^ 9)"

definition observed_utc_now :: "host \<Rightarrow> (rerror, string) act" where
  "observed_utc_now h = observe h (\<lambda>w. Inr (format_utc (h_now h w div 10 ^ 9)))"

function visit_links :: "files \<Rightarrow> string list \<Rightarrow> nat \<times> nat \<Rightarrow> nat \<times> nat" where
  "visit_links fs p acc =
     (case map_of fs p of
        None \<Rightarrow> acc
      | Some i \<Rightarrow>
          (case in_kind i of
             Folder \<Rightarrow> fold (\<lambda>q. visit_links fs q) (children fs p) acc
           | Regular c \<Rightarrow>
               (let others = in_links i - 1 in
                if others > 0 then (max (fst acc) others, u64_sat (snd acc + length c)) else acc)
           | Symlink _ \<Rightarrow> acc))"
  by pat_completeness auto
termination by (relation "measure (\<lambda>(fs, p, acc). below fs p)") (auto simp: child_below)

declare visit_links.simps [simp del]

definition hard_links :: "string list list \<Rightarrow> world \<Rightarrow> nat \<times> nat" where
  "hard_links targets w = fold (visit_links (w_files w)) targets (0, 0)"

fun journal_error_text :: "journal_error \<Rightarrow> string" where
  "journal_error_text (UnknownOp op) = ''unknown op: '' @ op"
| "journal_error_text (SchemaViolation s) = ''schema violation: '' @ s"
| "journal_error_text (Io NotFound) = ''io: '' @ ENOENT"
| "journal_error_text (Io InvalidData) = ''io: stream did not contain valid UTF-8''"

definition open_journal :: "host \<Rightarrow> (rerror, unit) act" where
  "open_journal h = change h (\<lambda>w.
     case journal_open (h_lib h) (h_qdir h) (h_now h w div 10 ^ 9) (w_store w) of
       (r, st) \<Rightarrow> (mapErr (\<lambda>e. RJournal (journal_error_text e)) r, w\<lparr>w_store := st\<rparr>))"

definition append_journal :: "host \<Rightarrow> string \<Rightarrow> json \<Rightarrow> (rerror, unit) act" where
  "append_journal h op pl = change h (\<lambda>w.
     case journal_append (h_lib h) (h_now h w div 10 ^ 9) op pl (w_store w) of
       (r, st) \<Rightarrow> (mapErr (\<lambda>e. RJournal (journal_error_text e)) (case r of Inl e \<Rightarrow> Inl e | Inr _ \<Rightarrow> Inr ()),
                   w\<lparr>w_store := st\<rparr>))"

text \<open>The nodes of a graph are a hash map: they are met in the order of the host, not of their ids.
  Every order is the order of some ranking.\<close>

definition in_map_order :: "(string \<Rightarrow> nat) \<Rightarrow> materialized \<Rightarrow> materialized" where
  "in_map_order rank g = g\<lparr>nodes := sort_key (\<lambda>n. rank (fst n)) (nodes g)\<rparr>"

definition read_graph :: "host \<Rightarrow> (rerror, materialized) act" where
  "read_graph h = observe h (\<lambda>w.
     bindE (mapErr (\<lambda>e. RJournal (journal_error_text e)) (read_all (h_lib h) (w_store w))) (\<lambda>entries.
     Inr (in_map_order (h_order h w) (materialize (h_now h w div 10 ^ 9) (map event_value entries) None False))))"

definition load_graph :: "host \<Rightarrow> (rerror, materialized) act" where
  "load_graph h = bindA (open_journal h) (\<lambda>_. read_graph h)"

section \<open>The policy\<close>

text \<open>\<open>policy.rs\<close>.  The year of the modification time is parsed from its first four bytes; where those
  are not ASCII the code finds no year, as here.\<close>

definition parse_u16 :: "string \<Rightarrow> nat option" where
  "parse_u16 s =
     (let ds = (case s of c # rest \<Rightarrow> if c = CHR ''+'' then rest else s | [] \<Rightarrow> []) in
      if ds = [] \<or> \<not> list_all is_ascii_digit ds then None
      else (let n = foldl (\<lambda>n c. 10 * n + (byte c - 48)) 0 ds in if n < 2 ^ 16 then Some n else None))"

definition is_trustworthy_modified :: "string option \<Rightarrow> bool" where
  "is_trustworthy_modified modified =
     (case modified of
        None \<Rightarrow> False
      | Some value \<Rightarrow>
          4 \<le> length value \<and>
          (case parse_u16 (take 4 value) of None \<Rightarrow> False | Some year \<Rightarrow> year \<ge> 1970))"

definition is_proof_candidate :: "candidate \<Rightarrow> json \<Rightarrow> bool" where
  "is_proof_candidate c node \<longleftrightarrow>
     jget_str node ''schema'' = Some SCHEMA \<and>
     jget_str node ''session_id'' = Some (cd_id c) \<and>
     jget_str node ''source'' = Some (source_str (cd_source c)) \<and>
     Option.bind (jget node ''extraction_complete'') as_bool = Some True \<and>
     Option.bind (jget node ''session_closed'') as_bool = Some True"

definition conversation_id :: "candidate \<Rightarrow> string" where
  "conversation_id c = ''conversation:'' @ source_str (cd_source c) @ '':'' @ cd_id c"

definition is_provenance_edge :: "stored_edge \<Rightarrow> bool" where
  "is_provenance_edge e \<longleftrightarrow>
     edge_name (e_edge e) = ''DERIVED_FROM'' \<or> edge_name (e_edge e) = ''DISCUSSED_IN''"

definition knowledge_of :: "json \<Rightarrow> string list" where
  "knowledge_of proof_node =
     (case Option.bind (jget proof_node ''knowledge_node_ids'') as_array of
        None \<Rightarrow> [] | Some ids \<Rightarrow> List.map_filter as_str ids)"

definition knowledge_blocker :: "materialized \<Rightarrow> string \<Rightarrow> string \<Rightarrow> string list" where
  "knowledge_blocker g conversation nid =
     (if map_of (nodes g) nid = None then [''knowledge node disappeared: '' @ nid]
      else if \<not> list_ex (\<lambda>e. \<not> e_retracted e \<and> e_from e = nid \<and> e_to e = conversation \<and> is_provenance_edge e) (edges g)
      then [''knowledge provenance edge disappeared: '' @ nid]
      else [])"

definition early_assessment ::
  "candidate \<Rightarrow> string \<Rightarrow> nat \<Rightarrow> string \<Rightarrow> string \<Rightarrow> string list list \<Rightarrow> assessment" where
  "early_assessment c cutoff bytes message code targets =
     \<lparr>sa_session_id = cd_id c, sa_source = source_str (cd_source c), sa_modified = cd_modified c,
      sa_cutoff_utc = cutoff, sa_source_bytes = bytes, sa_source_sha256 = [], sa_eligible = False,
      sa_blockers = [message], sa_blocker_codes = [code], sa_targets = targets\<rparr>"

text \<open>What the proof still lacks: messages and codes.\<close>

definition proof_blockers :: "materialized \<Rightarrow> candidate \<Rightarrow> string \<Rightarrow> (string \<times> string) list" where
  "proof_blockers g c sha =
     (case find (\<lambda>node. jget_str node ''source_sha256'' = Some sha)
             (filter (is_proof_candidate c) (map snd (nodes g))) of
        None \<Rightarrow> [(''no exact, complete extraction attestation for current source bytes'', BLOCKER_ATTESTATION_MISSING)]
      | Some proof_node \<Rightarrow>
          (let knowledge = knowledge_of proof_node in
           (if knowledge = [] then [(''attestation has no knowledge nodes'', BLOCKER_KNOWLEDGE_MISSING)] else []) @
           map (\<lambda>m. (m, BLOCKER_KNOWLEDGE_MISSING))
             (concat (map (knowledge_blocker g (conversation_id c)) knowledge))))"

definition child_blockers :: "host \<Rightarrow> candidate \<Rightarrow> (rerror, (string \<times> string) list) act" where
  "child_blockers h c =
     (if cd_source c = Opencode then
        bindA (mapErrA RConversation (database_child_sessions h (cd_path c) (cd_id c))) (\<lambda>ids.
        okA (if ids = [] then []
             else [(''OpenCode delete would also remove child sessions; attest and purge children first: '' @
                    join_with '','' ids, BLOCKER_CHILD_SESSIONS)]))
      else okA [])"

definition activity_blockers :: "host \<Rightarrow> candidate \<Rightarrow> string list list \<Rightarrow> (rerror, (string \<times> string) list) act" where
  "activity_blockers h c targets =
     observe h (\<lambda>w. Inr (case session_activity h (liveness_targets (cd_source c) targets) w of
         Idle \<Rightarrow> []
       | Active \<Rightarrow> [(''native session has an open file handle'', BLOCKER_SESSION_ACTIVE)]
       | Unknown detail \<Rightarrow> [(''native session activity could not be verified: '' @ detail, BLOCKER_ACTIVITY_UNKNOWN)]))"

text \<open>The proof of a session that has files, is old enough and has some attestation.\<close>

definition assess_proof :: "host \<Rightarrow> materialized \<Rightarrow> candidate \<Rightarrow> string \<Rightarrow> (rerror, assessment) act" where
  "assess_proof h g c cutoff =
     bindA (bundle_of h c) (\<lambda>b.
     bindA (child_blockers h c) (\<lambda>first.
     let found = first @ proof_blockers g c (b_sha256 b) in
     bindA (if found = [] then activity_blockers h c (b_targets b) else okA found) (\<lambda>blockers.
     okA \<lparr>sa_session_id = cd_id c, sa_source = source_str (cd_source c), sa_modified = cd_modified c,
          sa_cutoff_utc = cutoff, sa_source_bytes = b_bytes b, sa_source_sha256 = b_sha256 b,
          sa_eligible = (blockers = []), sa_blockers = map fst blockers,
          sa_blocker_codes = sorted_list_of_set (set (map snd blockers)), sa_targets = b_targets b\<rparr>)))"

definition assess_candidate_with_graph ::
  "host \<Rightarrow> materialized \<Rightarrow> candidate \<Rightarrow> nat \<Rightarrow> (rerror, assessment) act" where
  "assess_candidate_with_graph h g c days =
     bindA (observe h (\<lambda>w. Inr (cutoff_utc h days w))) (\<lambda>cutoff.
     bindA (observe h (\<lambda>w. Inr (w_files w))) (\<lambda>fs.
     let targets = candidate_targets h fs c;
         sized = (\<lambda>message code. observe h (\<lambda>w.
           Inr (early_assessment c cutoff (measured_bytes h (w_files w) c) message code
                  (candidate_targets h (w_files w) c))))
     in
     if \<not> list_ex (path_exists h fs) targets then
       okA (early_assessment c cutoff 0 ''native bundle already removed'' BLOCKER_ALREADY_CLEANED targets)
     else if \<not> is_trustworthy_modified (cd_modified c) then
       sized ''missing trustworthy modified time'' BLOCKER_MODIFIED_TIME_UNKNOWN
     else if (case cd_modified c of None \<Rightarrow> False | Some m \<Rightarrow> m \<ge> cutoff) then
       sized ''inside retention window'' BLOCKER_RETENTION_WINDOW
     else if filter (is_proof_candidate c) (map snd (nodes g)) = [] then
       sized ''no complete extraction attestation exists for this session'' BLOCKER_ATTESTATION_MISSING
     else assess_proof h g c cutoff))"

definition assess_candidate :: "host \<Rightarrow> candidate \<Rightarrow> nat \<Rightarrow> (rerror, assessment) act" where
  "assess_candidate h c days =
     bindA (load_graph h) (\<lambda>g. assess_candidate_with_graph h g c days)"

section \<open>Results and frames\<close>

lemma act_simps [simp]:
  "okA a w = (Inr a, w)" "failA e w = (Inl e, w)"
  "observe h f w = (f (interfere h w), interfere h w)" "change h g w = g (interfere h w)"
  by (simp_all add: okA_def failA_def observe_def change_def Let_def)

lemma bindA_Inr: "bindA m f w = (Inr b, w'') \<longleftrightarrow> (\<exists>a w'. m w = (Inr a, w') \<and> f a w' = (Inr b, w''))"
  by (auto simp: bindA_def split: prod.splits sum.splits)

lemma bindA_run: "m w = (Inr a, w') \<Longrightarrow> bindA m f w = f a w'"
  by (simp add: bindA_def)

lemma bindA_stop: "m w = (Inl e, w') \<Longrightarrow> bindA m f w = (Inl e, w')"
  by (simp add: bindA_def)

lemma bindA_okA [simp]: "bindA (okA a) f = f a"
  by (simp add: bindA_def fun_eq_iff)

lemma bindA_observe: "bindA (observe h g) f w =
     (case g (interfere h w) of Inl e \<Rightarrow> (Inl e, interfere h w) | Inr a \<Rightarrow> f a (interfere h w))"
  by (simp add: bindA_def split: sum.split)

lemma attempt_eq: "attempt m w = (r, w') \<longleftrightarrow> (\<exists>s. m w = (s, w') \<and> r = Inr s)"
  by (auto simp: attempt_def split: prod.splits)

lemma mapErrA_Inr: "mapErrA g m w = (Inr a, w') \<longleftrightarrow> m w = (Inr a, w')"
  by (auto simp: mapErrA_def split: prod.splits)

text \<open>What every operation keeps: a relation between the world before and after.\<close>

definition keeps :: "(world \<Rightarrow> world \<Rightarrow> bool) \<Rightarrow> ('e, 'a) act \<Rightarrow> bool" where
  "keeps R m \<longleftrightarrow> (\<forall>w. R w (snd (m w)))"

named_theorems frame \<open>operations that keep a relation on worlds\<close>

locale frame_relation =
  fixes R :: "world \<Rightarrow> world \<Rightarrow> bool"
  assumes refl: "R w w"
    and trans: "R w v \<Longrightarrow> R v u \<Longrightarrow> R w u"
begin

lemma keeps_ok: "keeps R (okA a)" "keeps R (failA e)"
  by (simp_all add: keeps_def refl)

lemma keeps_bind:
  assumes "keeps R m" and "\<And>a. keeps R (f a)"
  shows "keeps R (bindA m f)"
  unfolding keeps_def bindA_def
proof (intro allI)
  fix w
  obtain r w' where m: "m w = (r, w')" by (cases "m w")
  have "R w w'" using assms(1) m by (auto simp: keeps_def dest: spec [of _ w])
  moreover have "R w' (snd (f a w'))" for a using assms(2) by (simp add: keeps_def)
  ultimately show "R w (snd (case m w of (Inl e, w') \<Rightarrow> (Inl e, w') | (Inr a, w') \<Rightarrow> f a w'))"
    using trans by (cases r) (auto simp: m)
qed

lemma keeps_attempt: "keeps R m \<Longrightarrow> keeps R (attempt m)"
  by (simp add: keeps_def attempt_def split: prod.split) (metis snd_conv)

lemma keeps_mapErr: "keeps R m \<Longrightarrow> keeps R (mapErrA g m)"
  by (simp add: keeps_def mapErrA_def split: prod.split) (metis snd_conv)

lemma keeps_mapA: "(\<And>x. x \<in> set xs \<Longrightarrow> keeps R (f x)) \<Longrightarrow> keeps R (mapA f xs)"
  by (induction xs) (simp_all add: keeps_ok keeps_bind)

lemma keeps_observe: "(\<And>w. R w (interfere h w)) \<Longrightarrow> keeps R (observe h f)"
  by (simp add: keeps_def)

lemma keeps_change:
  assumes "\<And>w. R w (interfere h w)" and "\<And>w. R w (snd (f w))"
  shows "keeps R (change h f)"
  using trans [OF assms(1) assms(2)] by (simp add: keeps_def)

text \<open>Where a sequence first breaks the relation.\<close>

lemma bind_breaks:
  assumes "\<not> R w (snd (bindA m f w))" and "keeps R m"
  obtains a w' where "m w = (Inr a, w')" and "R w w'" and "\<not> R w' (snd (f a w'))"
proof -
  obtain r w' where m: "m w = (r, w')" by (cases "m w")
  have r: "R w w'" using assms(2) m by (auto simp: keeps_def dest: spec [of _ w])
  show thesis
  proof (cases r)
    case (Inl e)
    then show thesis using assms(1) r by (simp add: bindA_def m)
  next
    case (Inr a)
    then show thesis using assms(1) r trans m by (intro that [of a w']) (auto simp: bindA_def)
  qed
qed

end

text \<open>The relation is broken by the first of two operations when the second keeps it.\<close>

context frame_relation
begin

lemma bind_breaks_first:
  assumes "\<not> R w (snd (bindA m f w))" and "\<And>a. keeps R (f a)"
  shows "\<not> R w (snd (m w))"
proof
  assume r: "R w (snd (m w))"
  obtain s v where m: "m w = (s, v)" by (cases "m w")
  from assms(1) r show False
    using trans [of w v] assms(2) by (cases s) (auto simp: bindA_def m refl keeps_def)
qed

end

text \<open>One path of the file tree, with everything the tree holds at it.\<close>

definition same_file :: "string list \<Rightarrow> world \<Rightarrow> world \<Rightarrow> bool" where
  "same_file p w w' \<longleftrightarrow> map_of (w_files w') p = map_of (w_files w) p"

interpretation same_file: frame_relation "same_file p"
  by unfold_locales (simp_all add: same_file_def)

text \<open>Other processes and the \<open>sqlite3\<close> program do not touch the path.\<close>

definition left_alone :: "host \<Rightarrow> string list \<Rightarrow> bool" where
  "left_alone h p \<longleftrightarrow>
     (\<forall>n w. same_file p w (h_others h n w)) \<and>
     (\<forall>args w. same_file p w (snd (h_run h ''sqlite3'' args w)))"

lemma left_alone_interfere: "left_alone h p \<Longrightarrow> same_file p w (interfere h w)"
  by (simp add: left_alone_def interfere_def same_file_def)

lemma keeps_same_file_sqlite: "left_alone h p \<Longrightarrow> keeps (same_file p) (command h ''sqlite3'' args)"
  unfolding command_def
  by (rule same_file.keeps_change) (simp_all add: left_alone_interfere, simp add: left_alone_def)

lemma keeps_split:
  "(\<And>a. x = Inl a \<Longrightarrow> keeps R (f a)) \<Longrightarrow> (\<And>b. x = Inr b \<Longrightarrow> keeps R (g b)) \<Longrightarrow>
     keeps R (case x of Inl a \<Rightarrow> f a | Inr b \<Rightarrow> g b)"
  "(x' = None \<Longrightarrow> keeps R m) \<Longrightarrow> (\<And>c. x' = Some c \<Longrightarrow> keeps R (k c)) \<Longrightarrow>
     keeps R (case x' of None \<Rightarrow> m | Some c \<Rightarrow> k c)"
  "(b \<Longrightarrow> keeps R m) \<Longrightarrow> (\<not> b \<Longrightarrow> keeps R m') \<Longrightarrow> keeps R (if b then m else m')"
  by (auto split: sum.split option.split)

section \<open>What the steps leave in place\<close>

lemma keeps_prod: "(\<And>a b. x = (a, b) \<Longrightarrow> keeps R (f a b)) \<Longrightarrow> keeps R (case x of (a, b) \<Rightarrow> f a b)"
  by (auto split: prod.split)

lemma keeps_same_file_observe: "left_alone h p \<Longrightarrow> keeps (same_file p) (observe h f)"
  by (rule same_file.keeps_observe) (rule left_alone_interfere)

lemma keeps_same_file_store:
  assumes "left_alone h p" and "\<And>w. w_files (snd (f w)) = w_files w"
  shows "keeps (same_file p) (change h f)"
  using assms by (intro same_file.keeps_change left_alone_interfere) (simp_all add: same_file_def)

lemmas same_file_rules =
  same_file.keeps_ok same_file.keeps_bind same_file.keeps_attempt same_file.keeps_mapErr
  same_file.keeps_mapA keeps_same_file_observe keeps_same_file_sqlite keeps_split keeps_prod

lemma keeps_journal:
  assumes "left_alone h p"
  shows "keeps (same_file p) (open_journal h)" "keeps (same_file p) (append_journal h op pl)"
    "keeps (same_file p) (load_graph h)"
  unfolding open_journal_def append_journal_def load_graph_def read_graph_def
  using assms by (intro same_file_rules keeps_same_file_store; auto split: prod.split)+

lemma keeps_bundle_of: "left_alone h p \<Longrightarrow> keeps (same_file p) (bundle_of h c)"
  unfolding bundle_of_def load_database_session_def database_path_def message_sql_def has_table_def
    sqlite_def Let_def
  by (intro same_file_rules) assumption+

lemma keeps_child_blockers: "left_alone h p \<Longrightarrow> keeps (same_file p) (child_blockers h c)"
  unfolding child_blockers_def database_child_sessions_def database_path_def session_table_def has_table_def
    sqlite_def Let_def
  by (intro same_file_rules) assumption+

lemma keeps_assess: "left_alone h p \<Longrightarrow> keeps (same_file p) (assess_candidate h c days)"
  unfolding assess_candidate_def assess_candidate_with_graph_def assess_proof_def activity_blockers_def Let_def
  by (intro same_file_rules keeps_journal keeps_bundle_of keeps_child_blockers) assumption+

section \<open>Eligibility\<close>

text \<open>The specification.  A node of the graph proves the session: it is a complete attestation of a
  closed session, names the digest, and each node of knowledge it names exists and has a live edge to
  the conversation.\<close>

definition linked :: "materialized \<Rightarrow> string \<Rightarrow> string \<Rightarrow> bool" where
  "linked g conversation k \<longleftrightarrow>
     map_of (nodes g) k \<noteq> None \<and>
     (\<exists>e \<in> set (edges g). \<not> e_retracted e \<and> e_from e = k \<and> e_to e = conversation \<and> is_provenance_edge e)"

definition proves :: "materialized \<Rightarrow> candidate \<Rightarrow> string \<Rightarrow> json \<Rightarrow> bool" where
  "proves g c sha node \<longleftrightarrow>
     is_proof_candidate c node \<and> jget_str node ''source_sha256'' = Some sha \<and> knowledge_of node \<noteq> [] \<and>
     (\<forall>k \<in> set (knowledge_of node). linked g (conversation_id c) k)"

definition entitled :: "materialized \<Rightarrow> candidate \<Rightarrow> string \<Rightarrow> bool" where
  "entitled g c sha \<longleftrightarrow> (\<exists>node \<in> snd ` set (nodes g). proves g c sha node)"

text \<open>The order of the map does not matter to what the graph says.\<close>

lemma edges_in_map_order [simp]: "edges (in_map_order rank g) = edges g"
  by (simp add: in_map_order_def)

lemma set_in_map_order [simp]: "set (nodes (in_map_order rank g)) = set (nodes g)"
  by (simp add: in_map_order_def)

lemma lookup_in_map_order:
  assumes "distinct (map fst (nodes g))"
  shows "map_of (nodes (in_map_order rank g)) = map_of (nodes g)"
proof -
  have "mset (map fst (nodes (in_map_order rank g))) = mset (map fst (nodes g))"
    by (simp add: in_map_order_def)
  then have "distinct (map fst (nodes (in_map_order rank g)))"
    using assms by (metis mset_eq_imp_distinct_iff)
  then show ?thesis using assms by (simp add: map_of_inject_set)
qed

lemma entitled_in_map_order:
  "distinct (map fst (nodes g)) \<Longrightarrow> entitled (in_map_order rank g) c sha = entitled g c sha"
  by (simp add: entitled_def proves_def linked_def lookup_in_map_order)

text \<open>The attestations of a digest, and the one that decides: the first that is met.\<close>

definition attests :: "candidate \<Rightarrow> string \<Rightarrow> json \<Rightarrow> bool" where
  "attests c sha node \<longleftrightarrow> is_proof_candidate c node \<and> jget_str node ''source_sha256'' = Some sha"

definition decisive :: "materialized \<Rightarrow> candidate \<Rightarrow> string \<Rightarrow> json \<Rightarrow> bool" where
  "decisive g c sha node \<longleftrightarrow>
     (\<exists>before after. map snd (nodes g) = before @ node # after \<and> attests c sha node \<and>
        (\<forall>n \<in> set before. \<not> attests c sha n))"

lemma decisive_find: "decisive g c sha node \<longleftrightarrow> find (attests c sha) (map snd (nodes g)) = Some node"
proof
  assume "decisive g c sha node"
  then obtain before after where *: "map snd (nodes g) = before @ node # after" "attests c sha node"
      "\<forall>n \<in> set before. \<not> attests c sha n"
    unfolding decisive_def by blast
  have "find (attests c sha) before = None" using *(3) by (auto simp: find_None_iff)
  moreover have "find P (xs @ x # ys) = Some x" if "find P xs = None" "P x" for P and xs ys :: "json list" and x
    using that by (induction xs) (auto split: if_splits)
  ultimately show "find (attests c sha) (map snd (nodes g)) = Some node" using *(1,2) by metis
next
  assume "find (attests c sha) (map snd (nodes g)) = Some node"
  moreover have "\<exists>before after. xs = before @ x # after \<and> P x \<and> (\<forall>n \<in> set before. \<not> P n)"
    if "find P xs = Some x" for P and xs :: "json list" and x
    using that
  proof (induction xs)
    case (Cons y ys)
    show ?case
    proof (cases "P y")
      case True
      then show ?thesis using Cons.prems by (intro exI [of _ "[]"] exI [of _ ys]) simp
    next
      case False
      then obtain before after where "ys = before @ x # after" "P x" "\<forall>n \<in> set before. \<not> P n"
        using Cons by auto
      then show ?thesis using False by (intro exI [of _ "y # before"] exI [of _ after]) simp
    qed
  qed simp
  ultimately show "decisive g c sha node" unfolding decisive_def by blast
qed

lemma find_attests:
  "find (\<lambda>node. jget_str node ''source_sha256'' = Some sha) (filter (is_proof_candidate c) ns) = find (attests c sha) ns"
  by (induction ns) (auto simp: attests_def)

lemma knowledge_blocker_Nil: "knowledge_blocker g conversation k = [] \<longleftrightarrow> linked g conversation k"
  by (auto simp: knowledge_blocker_def linked_def list_ex_iff)

lemma find_mem: "find P xs = Some x \<Longrightarrow> x \<in> set xs \<and> P x"
  by (induction xs) (auto split: if_splits)

lemma proof_blockers_Nil:
  "proof_blockers g c sha = [] \<longleftrightarrow> (\<exists>node. decisive g c sha node \<and> proves g c sha node)"
  unfolding proof_blockers_def find_attests decisive_find
  by (auto simp: Let_def proves_def attests_def knowledge_blocker_Nil dest!: find_mem split: option.splits)

lemma decisive_proof_entitled: "decisive g c sha node \<Longrightarrow> proves g c sha node \<Longrightarrow> entitled g c sha"
  unfolding decisive_find entitled_def by (auto dest!: find_mem)

lemma proof_blockers_entitled: "proof_blockers g c sha = [] \<Longrightarrow> entitled g c sha"
  unfolding proof_blockers_Nil by (blast intro: decisive_proof_entitled)

lemma decisive_candidate: "decisive g c sha node \<Longrightarrow> filter (is_proof_candidate c) (map snd (nodes g)) \<noteq> []"
  unfolding decisive_def attests_def by (auto simp del: set_map simp add: filter_empty_conv set_map [symmetric])

text \<open>The session is justified to go at \<open>w\<close>: the graph, the clock, the files and the open handles as the
  assessment meets them one after the other.\<close>

definition justified :: "host \<Rightarrow> candidate \<Rightarrow> nat \<Rightarrow> world \<Rightarrow> string \<Rightarrow> session_bundle \<Rightarrow> world \<Rightarrow> bool" where
  "justified h c days w cutoff b w' \<longleftrightarrow>
     (\<exists>g w1 w2 w3 m.
        load_graph h w = (Inr g, w1) \<and> cutoff = cutoff_utc h days (interfere h w1) \<and>
        list_ex (path_exists h (w_files (interfere h (interfere h w1))))
          (candidate_targets h (w_files (interfere h (interfere h w1))) c) \<and>
        cd_modified c = Some m \<and> is_trustworthy_modified (Some m) \<and> m < cutoff \<and>
        bundle_of h c (interfere h (interfere h w1)) = (Inr b, w2) \<and> entitled g c (b_sha256 b) \<and>
        child_blockers h c w2 = (Inr [], w3) \<and>
        session_activity h (liveness_targets (cd_source c) (b_targets b)) (interfere h w3) = Idle \<and>
        w' = interfere h w3)"

text \<open>The graph that the assessment loads decides for the digest: of its attestations the one that is met
  first is sound.\<close>

definition decided :: "host \<Rightarrow> candidate \<Rightarrow> world \<Rightarrow> string \<Rightarrow> bool" where
  "decided h c w sha \<longleftrightarrow>
     (\<exists>g w1 node. load_graph h w = (Inr g, w1) \<and> decisive g c sha node \<and> proves g c sha node)"

definition eligible_assessment :: "candidate \<Rightarrow> string \<Rightarrow> session_bundle \<Rightarrow> assessment" where
  "eligible_assessment c cutoff b =
     \<lparr>sa_session_id = cd_id c, sa_source = source_str (cd_source c), sa_modified = cd_modified c,
      sa_cutoff_utc = cutoff, sa_source_bytes = b_bytes b, sa_source_sha256 = b_sha256 b,
      sa_eligible = True, sa_blockers = [], sa_blocker_codes = [], sa_targets = b_targets b\<rparr>"

lemma early_not_eligible [simp]: "\<not> sa_eligible (early_assessment c cutoff n m k ts)"
  by (simp add: early_assessment_def)

lemma activity_blockers_eq:
  "activity_blockers h c ts w = (Inr found, w') \<and> found = [] \<longleftrightarrow>
     session_activity h (liveness_targets (cd_source c) ts) (interfere h w) = Idle \<and> found = [] \<and> w' = interfere h w"
  by (auto simp: activity_blockers_def split: activity.splits)

lemma assess_proof_eligible:
  "(assess_proof h g c cutoff w = (Inr a, w') \<and> sa_eligible a) \<longleftrightarrow>
     (\<exists>b w2 w3. bundle_of h c w = (Inr b, w2) \<and> child_blockers h c w2 = (Inr [], w3) \<and>
        proof_blockers g c (b_sha256 b) = [] \<and>
        session_activity h (liveness_targets (cd_source c) (b_targets b)) (interfere h w3) = Idle \<and>
        w' = interfere h w3 \<and> a = eligible_assessment c cutoff b)" (is "?L \<longleftrightarrow> ?R")
proof
  assume L: ?L
  then obtain b w2 first w3 found w4 where s: "bundle_of h c w = (Inr b, w2)" "child_blockers h c w2 = (Inr first, w3)"
    "(if first @ proof_blockers g c (b_sha256 b) = [] then activity_blockers h c (b_targets b)
      else okA (first @ proof_blockers g c (b_sha256 b))) w3 = (Inr found, w4)"
    and a: "w' = w4" "a = \<lparr>sa_session_id = cd_id c, sa_source = source_str (cd_source c), sa_modified = cd_modified c,
          sa_cutoff_utc = cutoff, sa_source_bytes = b_bytes b, sa_source_sha256 = b_sha256 b,
          sa_eligible = (found = []), sa_blockers = map fst found,
          sa_blocker_codes = sorted_list_of_set (set (map snd found)), sa_targets = b_targets b\<rparr>"
    unfolding assess_proof_def Let_def bindA_Inr by auto
  with L have f: "found = []" by simp
  show ?R
    using s a activity_blockers_eq [of h c "b_targets b" w3 found w4]
    by (intro exI [of _ b] exI [of _ w2] exI [of _ w3])
      (auto simp: f eligible_assessment_def split: if_splits)
next
  assume ?R
  then obtain b w2 w3 where s: "bundle_of h c w = (Inr b, w2)" "child_blockers h c w2 = (Inr [], w3)"
    "proof_blockers g c (b_sha256 b) = []"
    "session_activity h (liveness_targets (cd_source c) (b_targets b)) (interfere h w3) = Idle"
    "w' = interfere h w3" "a = eligible_assessment c cutoff b"
    by blast
  then show ?L
    using activity_blockers_eq [of h c "b_targets b" w3 "[]" "interfere h w3"]
    by (simp add: assess_proof_def Let_def bindA_run eligible_assessment_def)
qed

lemma assess_with_graph_eligible:
  "(assess_candidate_with_graph h g c days w = (Inr a, w') \<and> sa_eligible a) \<longleftrightarrow>
     (let cutoff = cutoff_utc h days (interfere h w); w2 = interfere h (interfere h w) in
      list_ex (path_exists h (w_files w2)) (candidate_targets h (w_files w2) c) \<and>
      is_trustworthy_modified (cd_modified c) \<and> (\<exists>m. cd_modified c = Some m \<and> m < cutoff) \<and>
      filter (is_proof_candidate c) (map snd (nodes g)) \<noteq> [] \<and>
      assess_proof h g c cutoff w2 = (Inr a, w') \<and> sa_eligible a)"
  by (cases "cd_modified c")
    (auto simp: assess_candidate_with_graph_def bindA_observe Let_def is_trustworthy_modified_def not_le)

lemma assess_eligible:
  assumes "assess_candidate h c days w = (Inr a, w')" and "sa_eligible a"
  obtains cutoff b where "justified h c days w cutoff b w'" and "decided h c w (b_sha256 b)"
    and "a = eligible_assessment c cutoff b"
proof -
  obtain g w1 where g: "load_graph h w = (Inr g, w1)" "assess_candidate_with_graph h g c days w1 = (Inr a, w')"
    using assms(1) by (auto simp: assess_candidate_def bindA_Inr)
  let ?cutoff = "cutoff_utc h days (interfere h w1)" and ?v = "interfere h (interfere h w1)"
  have v: "list_ex (path_exists h (w_files ?v)) (candidate_targets h (w_files ?v) c)"
      "is_trustworthy_modified (cd_modified c)" "\<exists>m. cd_modified c = Some m \<and> m < ?cutoff"
      "assess_proof h g c ?cutoff ?v = (Inr a, w')"
    using g(2) assms(2) assess_with_graph_eligible [of h g c days w1 a w'] by (simp_all add: Let_def)
  from v(3) obtain m where m: "cd_modified c = Some m" "m < ?cutoff" by blast
  from v obtain b w2 w3 where b: "bundle_of h c ?v = (Inr b, w2)" "child_blockers h c w2 = (Inr [], w3)"
      "proof_blockers g c (b_sha256 b) = []"
      "session_activity h (liveness_targets (cd_source c) (b_targets b)) (interfere h w3) = Idle"
      "w' = interfere h w3" "a = eligible_assessment c ?cutoff b"
    using assms(2) assess_proof_eligible [of h g c ?cutoff ?v a w'] by blast
  have "justified h c days w ?cutoff b w'"
    unfolding justified_def using g(1) v(1,2) m b proof_blockers_entitled [OF b(3)]
    by (intro exI [of _ g] exI [of _ w1] exI [of _ w2] exI [of _ w3] exI [of _ m]) simp
  moreover have "decided h c w (b_sha256 b)"
    using g(1) b(3) unfolding decided_def proof_blockers_Nil by blast
  ultimately show thesis using b(6) by (rule that)
qed

lemma assess_justified:
  assumes "justified h c days w cutoff b w'" and "decided h c w (b_sha256 b)"
  shows "assess_candidate h c days w = (Inr (eligible_assessment c cutoff b), w')"
proof -
  obtain g w1 w2 w3 m where j: "load_graph h w = (Inr g, w1)" "cutoff = cutoff_utc h days (interfere h w1)"
      "list_ex (path_exists h (w_files (interfere h (interfere h w1))))
          (candidate_targets h (w_files (interfere h (interfere h w1))) c)"
      "cd_modified c = Some m" "is_trustworthy_modified (Some m)" "m < cutoff"
      "bundle_of h c (interfere h (interfere h w1)) = (Inr b, w2)"
      "child_blockers h c w2 = (Inr [], w3)"
      "session_activity h (liveness_targets (cd_source c) (b_targets b)) (interfere h w3) = Idle"
      "w' = interfere h w3"
    using assms(1) unfolding justified_def by blast
  obtain node where node: "decisive g c (b_sha256 b) node" "proves g c (b_sha256 b) node"
    using assms(2) j(1) by (auto simp: decided_def)
  then have p: "proof_blockers g c (b_sha256 b) = []" unfolding proof_blockers_Nil by blast
  have e: "sa_eligible (eligible_assessment c cutoff b)" by (simp add: eligible_assessment_def)
  have "assess_candidate_with_graph h g c days w1 = (Inr (eligible_assessment c cutoff b), w')"
    using assess_with_graph_eligible [of h g c days w1 "eligible_assessment c cutoff b" w']
      assess_proof_eligible [of h g c cutoff "interfere h (interfere h w1)" "eligible_assessment c cutoff b" w']
      decisive_candidate [OF node(1)] p j e
    by (simp add: Let_def)
  then show ?thesis by (simp add: assess_candidate_def bindA_run [where m = "load_graph h", OF j(1)])
qed

text \<open>Where every attestation of the digest is sound, which of them is met first does not matter.\<close>

lemma sound_attestations_decide:
  assumes "load_graph h w = (Inr g, w1)" and "entitled g c sha"
    and "\<And>n. n \<in> snd ` set (nodes g) \<Longrightarrow> attests c sha n \<Longrightarrow> proves g c sha n"
  shows "decided h c w sha"
proof -
  obtain n where n: "n \<in> set (map snd (nodes g))" "attests c sha n"
    using assms(2) by (auto simp: entitled_def proves_def attests_def)
  then have "find (attests c sha) (map snd (nodes g)) \<noteq> None"
    unfolding find_None_iff by blast
  then obtain node where node: "find (attests c sha) (map snd (nodes g)) = Some node" by blast
  then have "decisive g c sha node" by (simp add: decisive_find)
  moreover have "node \<in> snd ` set (nodes g)" "attests c sha node" using find_mem [OF node] by simp_all
  ultimately show ?thesis using assms(1,3) unfolding decided_def by blast
qed

text \<open>The program gives the attestations of one digest one id, so its own attestations do not compete.\<close>

lemma own_attestations_decide:
  assumes "load_graph h w = (Inr g, w1)" and "entitled g c sha" and "distinct (map fst (nodes g))"
    and own: "\<And>i n. (i, n) \<in> set (nodes g) \<Longrightarrow> attests c sha n \<Longrightarrow>
      i = ''session-retention:'' @ source_str (cd_source c) @ '':'' @ cd_id c @ '':'' @ take 16 sha"
  shows "decided h c w sha"
proof (rule sound_attestations_decide [OF assms(1,2)])
  fix n assume n: "n \<in> snd ` set (nodes g)" "attests c sha n"
  obtain n' where n': "n' \<in> snd ` set (nodes g)" "proves g c sha n'"
    using assms(2) by (auto simp: entitled_def)
  obtain i i' where "(i, n) \<in> set (nodes g)" "(i', n') \<in> set (nodes g)" using n(1) n'(1) by force
  moreover have "attests c sha n'" using n'(2) by (simp add: attests_def proves_def)
  moreover have "i = i'" using own [OF calculation(1) n(2)] own [OF calculation(2,3)] by (rule trans [OF _ sym])
  ultimately have "n = n'" using assms(3) by (simp add: eq_key_imp_eq_value)
  then show "proves g c sha n" using n'(2) by simp
qed

end
