(* ===== verification/Retention.thy ===== *)
theory Retention
  imports Retention_Model
begin

text \<open>
  Retention of native sessions, the operations (\<open>crates/innen-core/src/session_retention\<close>:
  \<open>attest.rs\<close>, \<open>receipt.rs\<close>, \<open>delete_adapter\<close>, \<open>purge.rs\<close>): what they change, and when.
\<close>

section \<open>Attestations and receipts\<close>

definition find_all_candidates ::
  "host \<Rightarrow> source option \<Rightarrow> string list option \<Rightarrow> (rerror, candidate list) act" where
  "find_all_candidates h s root = observe h (\<lambda>w. mapErr RConversation (h_candidates h w s root))"

definition find_candidate :: "host \<Rightarrow> source \<Rightarrow> string \<Rightarrow> string list option \<Rightarrow> (rerror, candidate) act" where
  "find_candidate h s session_id root =
     (case validate_id session_id of
        Inl e \<Rightarrow> failA (RProof e)
      | Inr sid \<Rightarrow>
          bindA (find_all_candidates h (Some s) root) (\<lambda>found.
          case find (\<lambda>c. cd_id c = sid) found of
            None \<Rightarrow> failA (RProof (''session not found: '' @ source_str s @ '':'' @ sid))
          | Some c \<Rightarrow> okA c))"

text \<open>What the graph must hold for the ids to be knowledge of the conversation.\<close>

definition check_knowledge :: "materialized \<Rightarrow> string \<Rightarrow> string list \<Rightarrow> rerror + unit" where
  "check_knowledge g conversation ids =
     (if map_of (nodes g) conversation = None
      then Inl (RProof (''missing canonical conversation node '' @ conversation))
      else
        (let knowledge = sorted_list_of_set (set ids);
             linked = map e_from (filter (\<lambda>e. \<not> e_retracted e \<and> e_to e = conversation \<and> is_provenance_edge e) (edges g))
         in case find (\<lambda>i. map_of (nodes g) i = None) knowledge of
              Some i \<Rightarrow> Inl (RProof (''missing knowledge node '' @ i))
            | None \<Rightarrow>
                if list_all (\<lambda>i. i \<in> set linked) knowledge then Inr ()
                else Inl (RProof ''every knowledge node must have an active DERIVED_FROM or DISCUSSED_IN edge to the conversation'')))"

definition attestation_payload ::
  "string \<Rightarrow> string \<Rightarrow> string \<Rightarrow> string \<Rightarrow> string \<Rightarrow> string \<Rightarrow> string \<Rightarrow> nat \<Rightarrow> string list \<Rightarrow> string \<Rightarrow> json" where
  "attestation_payload aid label provenance s session_id sha now bytes knowledge schema = jobj
     [(''id'', JStr aid), (''type'', JStr ''SessionRetentionReceipt''), (''label'', JStr label),
      (''provenance'', JStr provenance), (''schema'', JStr schema), (''session_id'', JStr session_id),
      (''source'', JStr s), (''source_sha256'', JStr sha), (''source_bytes'', jnat bytes),
      (''knowledge_node_ids'', JArr (map JStr knowledge)), (''extraction_complete'', JBool True),
      (''session_closed'', JBool True), (''observed_utc'', JStr now)]"

definition attest ::
  "host \<Rightarrow> string \<Rightarrow> string \<Rightarrow> string list option \<Rightarrow> string list \<Rightarrow> bool \<Rightarrow> (rerror, attestation) act" where
  "attest h source_name session_id root knowledge closed =
     (if \<not> closed then
        failA (RProof ''--session-closed is required; active or ambiguous sessions are never attestable'')
      else if knowledge = [] then failA (RProof ''at least one --knowledge-node is required'')
      else (case source_parse source_name of
        Inl e \<Rightarrow> failA (RProof e)
      | Inr s \<Rightarrow>
          bindA (find_candidate h s session_id root) (\<lambda>c.
          bindA (bundle_of h c) (\<lambda>b.
          bindA (require_idle h (cd_source c) (b_targets b)
            (RProof ''native session has an open file handle; close the coding tool before attesting'') RProof) (\<lambda>_.
          bindA (load_graph h) (\<lambda>g.
          case check_knowledge g (''conversation:'' @ source_str s @ '':'' @ session_id) knowledge of
            Inl e \<Rightarrow> failA e
          | Inr _ \<Rightarrow>
              (let aid = ''session-retention:'' @ source_str s @ '':'' @ session_id @ '':'' @ take 16 (b_sha256 b) in
               bindA (observed_utc_now h) (\<lambda>now.
               bindA (open_journal h) (\<lambda>_.
               bindA (append_journal h ''node.upsert'' (attestation_payload aid
                 (''verified retention proof '' @ source_str s @ '':'' @ session_id) ''innen retention attest''
                 (source_str s) session_id (b_sha256 b) now (b_bytes b) knowledge SCHEMA)) (\<lambda>_.
               okA \<lparr>tt_id = aid, tt_session_id = session_id, tt_source = source_str s,
                    tt_source_sha256 = b_sha256 b, tt_knowledge_node_ids = knowledge,
                    tt_session_closed = True\<rparr>))))))))))"

definition append_retention_node :: "host \<Rightarrow> json \<Rightarrow> (rerror, unit) act" where
  "append_retention_node h pl =
     bindA (open_journal h) (\<lambda>_. append_journal h ''node.upsert'' pl)"

definition attempt_payload :: "candidate \<Rightarrow> string \<Rightarrow> nat \<Rightarrow> string \<Rightarrow> json" where
  "attempt_payload c aid days now = jobj
     [(''id'', JStr aid), (''type'', JStr ''SessionPurgeAttempt''),
      (''label'', JStr (''purge attempt '' @ source_str (cd_source c) @ '':'' @ cd_id c)),
      (''provenance'', JStr ''innen retention purge --execute''), (''schema'', JStr SCHEMA),
      (''session_id'', JStr (cd_id c)), (''source'', JStr (source_str (cd_source c))),
      (''retention_days'', jnat days), (''status'', JStr ''started''), (''observed_utc'', JStr now)]"

definition record_purge_attempt :: "host \<Rightarrow> candidate \<Rightarrow> nat \<Rightarrow> (rerror, string) act" where
  "record_purge_attempt h c days =
     bindA (observed_utc_now h) (\<lambda>now.
     bindA (observe h (\<lambda>w. Inr (h_now h w))) (\<lambda>nonce.
     let aid = ''session-purge-attempt:'' @ source_str (cd_source c) @ '':'' @ cd_id c @ '':'' @ nat_digits nonce in
     bindA (append_retention_node h (attempt_payload c aid days now)) (\<lambda>_. okA aid)))"

definition failure_payload :: "candidate \<Rightarrow> string \<Rightarrow> string \<Rightarrow> string \<Rightarrow> json" where
  "failure_payload c attempt_id reason now = jobj
     [(''id'', JStr (attempt_id @ '':failure'')), (''type'', JStr ''SessionPurgeFailure''),
      (''label'', JStr (''purge failed '' @ source_str (cd_source c) @ '':'' @ cd_id c)),
      (''provenance'', JStr ''innen retention purge --execute''), (''schema'', JStr SCHEMA),
      (''attempt_id'', JStr attempt_id), (''session_id'', JStr (cd_id c)),
      (''source'', JStr (source_str (cd_source c))), (''status'', JStr ''failed''),
      (''reason'', JStr reason), (''observed_utc'', JStr now)]"

definition record_purge_failure :: "host \<Rightarrow> string \<Rightarrow> candidate \<Rightarrow> string \<Rightarrow> (rerror, unit) act" where
  "record_purge_failure h attempt_id c reason =
     bindA (observed_utc_now h) (\<lambda>now.
     append_retention_node h (failure_payload c attempt_id reason now))"

section \<open>Deleting\<close>

text \<open>\<open>delete_adapter\<close>.\<close>

definition DELETE_ADAPTER_SOURCES :: "source list" where
  "DELETE_ADAPTER_SOURCES = [Antigravity, Codex, Claude, Copilot, Grok, Mcode, Opencode, Qwen]"

definition NO_DELETE_ADAPTER_SOURCES :: "source list" where
  "NO_DELETE_ADAPTER_SOURCES = [Cursor, Gemini, Vscode]"

definition retention_source_names :: "string list" where
  "retention_source_names = map source_str DELETE_ADAPTER_SOURCES @ [''agy'', ''minimax'']"

definition change_files :: "host \<Rightarrow> (files \<Rightarrow> rerror + files) \<Rightarrow> (rerror, unit) act" where
  "change_files h f = change h (\<lambda>w. case f (w_files w) of
     Inl e \<Rightarrow> (Inl e, w) | Inr fs \<Rightarrow> (Inr (), w\<lparr>w_files := fs\<rparr>))"

definition run_delete :: "host \<Rightarrow> string \<Rightarrow> string list \<Rightarrow> (rerror, unit) act" where
  "run_delete h program args =
     bindA (mapErrA (\<lambda>e. RPurge (program @ '': '' @ e)) (command h program args)) (\<lambda>r.
     if out_ok r then okA ()
     else
       (let detail = trim (chars_take 512 (h_lossy h (out_stderr r))) in
        failA (RPurge (if detail = [] then program @ '' exited '' @ out_status r
                       else program @ '' exited '' @ out_status r @ '': '' @ detail))))"

definition opencode_delete_args :: "string \<Rightarrow> string list" where
  "opencode_delete_args session_id = [''session'', ''delete'', session_id, ''--standalone'']"

definition SQLITE_MUTATION_ATTEMPTS :: nat where
  "SQLITE_MUTATION_ATTEMPTS = 6"

text \<open>Rebuilding the index of the database between two tries; its outcome is ignored.\<close>

definition wal_checkpoint :: "host \<Rightarrow> string list \<Rightarrow> (rerror, unit) act" where
  "wal_checkpoint h db =
     bindA (attempt (command h ''sqlite3'' [shown db, ''PRAGMA wal_checkpoint(TRUNCATE);''])) (\<lambda>_. okA ())"

fun read_retry :: "host \<Rightarrow> string list \<Rightarrow> string \<Rightarrow> nat \<Rightarrow> string \<Rightarrow> (rerror, json list) act" where
  "read_retry h db sql 0 last_error =
     failA (RPurge (''sqlite3 read failed after '' @ nat_digits SQLITE_MUTATION_ATTEMPTS @ '' attempts: '' @ last_error))"
| "read_retry h db sql (Suc n) last_error =
     bindA (attempt (sqlite h db sql)) (\<lambda>r.
     case r of
       Inr rows \<Rightarrow> okA rows
     | Inl e \<Rightarrow> bindA (wal_checkpoint h db) (\<lambda>_. read_retry h db sql n e))"

definition read_shared_store :: "host \<Rightarrow> string list \<Rightarrow> string \<Rightarrow> (rerror, json list) act" where
  "read_shared_store h db sql = read_retry h db sql SQLITE_MUTATION_ATTEMPTS []"

fun mutation_retry :: "host \<Rightarrow> string list \<Rightarrow> string \<Rightarrow> nat \<Rightarrow> string \<Rightarrow> (rerror, unit) act" where
  "mutation_retry h db sql 0 last_error =
     failA (RPurge (''sqlite3 mutation failed after '' @ nat_digits SQLITE_MUTATION_ATTEMPTS @ '' attempts: '' @ last_error))"
| "mutation_retry h db sql (Suc n) last_error =
     bindA (mapErrA (\<lambda>e. RPurge (''sqlite3: '' @ e)) (command h ''sqlite3'' [shown db, sql])) (\<lambda>r.
     if out_ok r then okA ()
     else bindA (wal_checkpoint h db) (\<lambda>_.
       mutation_retry h db sql n (trim (chars_take 512 (h_lossy h (out_stderr r))))))"

definition run_sqlite_mutation :: "host \<Rightarrow> string list \<Rightarrow> string \<Rightarrow> (rerror, unit) act" where
  "run_sqlite_mutation h db sql = mutation_retry h db sql SQLITE_MUTATION_ATTEMPTS []"

text \<open>The index database of a store with one directory per session.\<close>

record indexed_layout =
  il_index_db :: "string list"
  il_statements :: "string list"

definition delete_rows :: "string \<Rightarrow> string \<Rightarrow> string \<Rightarrow> string \<times> string" where
  "delete_rows table key sid = (table, ''DELETE FROM '' @ table @ '' WHERE '' @ key @ ''='' @ quoted sid @ '';'')"

definition index_tables :: "candidate \<Rightarrow> rerror + string list \<times> (string \<times> string) list" where
  "index_tables c =
     (case cd_source c of
        Mcode \<Rightarrow> Inr ([''sqlite'', ''runtime-state.sqlite''],
          map (\<lambda>t. delete_rows t ''session_id'' (cd_id c))
            [''local_runtime_message_rows'', ''local_runtime_messages'', ''local_runtime_session_assets'',
             ''local_runtime_session_locks'', ''local_runtime_session_projection_watermarks'',
             ''local_runtime_sessions''])
      | Copilot \<Rightarrow> Inr ([''session-store.db''],
          map (\<lambda>t. delete_rows t ''session_id'' (cd_id c))
            [''search_index'', ''session_refs'', ''session_files'', ''checkpoints'', ''turns''] @
          [delete_rows ''sessions'' ''id'' (cd_id c)])
      | Grok \<Rightarrow> Inr ([''session_search.sqlite''], [delete_rows ''session_docs'' ''session_id'' (cd_id c)])
      | _ \<Rightarrow> Inl (RPurge ''source has no indexed session store layout''))"

definition existing_tables :: "host \<Rightarrow> string list \<Rightarrow> (rerror, string list) act" where
  "existing_tables h db =
     bindA (attempt (command h ''sqlite3''
       [shown db, ''SELECT name FROM sqlite_master WHERE type='' @ quoted ''table'' @ '';''])) (\<lambda>r.
     okA (case r of
         Inr out \<Rightarrow>
           if out_ok out then filter (\<lambda>l. l \<noteq> []) (map trim (lines (h_lossy h (out_stdout out)))) else []
       | Inl e \<Rightarrow> []))"

text \<open>The directory of a session; the root has no parent.\<close>

definition session_directory :: "candidate \<Rightarrow> string list" where
  "session_directory c = butlast (cd_path c)"

definition indexed_store_layout :: "host \<Rightarrow> candidate \<Rightarrow> (rerror, indexed_layout) act" where
  "indexed_store_layout h c =
     (case index_tables c of
        Inl e \<Rightarrow> failA e
      | Inr (relative_db, statements) \<Rightarrow>
          bindA (observe h (\<lambda>w.
            case find (path_exists h (w_files w)) (map (\<lambda>dir. dir @ relative_db) (ancestors (session_directory c))) of
              None \<Rightarrow> Inl (RPurge (''session index database not found for '' @ source_str (cd_source c) @ '': '' @
                       join_with ''/'' relative_db))
            | Some db \<Rightarrow> Inr db)) (\<lambda>db.
          bindA (existing_tables h db) (\<lambda>present.
          okA \<lparr>il_index_db = db,
               il_statements = map snd (filter (\<lambda>(table, _). table \<in> set present) statements)\<rparr>)))"

definition any_exists :: "host \<Rightarrow> string list list \<Rightarrow> world \<Rightarrow> bool" where
  "any_exists h targets w = list_ex (path_exists h (w_files w)) targets"

definition delete_indexed_session :: "host \<Rightarrow> candidate \<Rightarrow> assessment \<Rightarrow> (rerror, unit) act" where
  "delete_indexed_session h c a =
     bindA (indexed_store_layout h c) (\<lambda>layout.
     bindA (mapA (run_sqlite_mutation h (il_index_db layout)) (il_statements layout)) (\<lambda>_.
     let directory = session_directory c in
     bindA (observe h (\<lambda>w. Inr (path_is_dir h (w_files w) directory))) (\<lambda>is_dir.
     bindA (if is_dir then change_files h (remove_dir_all directory)
            else bindA (observe h (\<lambda>w. Inr (path_exists h (w_files w) directory))) (\<lambda>there.
              if there then change_files h (remove_file directory) else okA ())) (\<lambda>_.
     bindA (observe h (\<lambda>w. Inr (any_exists h (sa_targets a) w))) (\<lambda>remains.
     if remains then failA (RPurge ''indexed session targets still exist after deletion'') else okA ())))))"

definition antigravity_store_root :: "string list list \<Rightarrow> string list option" where
  "antigravity_store_root targets =
     (case List.map_filter (\<lambda>t. find (\<lambda>a.
        case file_name a of None \<Rightarrow> False
        | Some n \<Rightarrow> n = ''antigravity-cli'' \<or> n = ''antigravity'' \<or> n = ''antigravity-ide'') (ancestors t)) targets of
        [] \<Rightarrow> None | r # _ \<Rightarrow> Some r)"

definition remove_target :: "string list \<Rightarrow> files \<Rightarrow> rerror + files" where
  "remove_target p fs =
     (case map_of fs p of
        None \<Rightarrow> Inl (RIo (shown p) ENOENT)
      | Some i \<Rightarrow> if in_kind i = Folder then remove_dir_all p fs else remove_file p fs)"

definition delete_antigravity :: "host \<Rightarrow> candidate \<Rightarrow> assessment \<Rightarrow> (rerror, unit) act" where
  "delete_antigravity h c a =
     (case antigravity_store_root (sa_targets a) of
        None \<Rightarrow> failA (RPurge ''Antigravity store root is not canonical'')
      | Some store_root \<Rightarrow>
          (let summary_db = store_root @ [''conversation_summaries.db''] in
           bindA (observe h (\<lambda>w. Inr (path_exists h (w_files w) summary_db))) (\<lambda>has_summary.
           bindA (if \<not> has_summary then okA ()
             else
               bindA (read_shared_store h summary_db
                 (''SELECT json_object('' @ quoted ''not_fully_idle'' @ '',not_fully_idle,'' @ quoted ''killed'' @
                  '',killed) FROM conversation_summaries WHERE conversation_id='' @ quoted (cd_id c))) (\<lambda>rows.
               if list_ex (\<lambda>row. case Option.bind (jget row ''not_fully_idle'') as_i64 of
                    None \<Rightarrow> False | Some v \<Rightarrow> v \<noteq> 0) rows
               then failA (RPurge ''Antigravity marks the session as not fully idle'')
               else run_sqlite_mutation h summary_db
                 (''PRAGMA busy_timeout=5000; BEGIN IMMEDIATE; DELETE FROM conversation_summaries WHERE conversation_id='' @
                  quoted (cd_id c) @ ''; COMMIT;''))) (\<lambda>_.
           bindA (mapA (\<lambda>t. change_files h (remove_target t)) (sa_targets a)) (\<lambda>_.
           bindA (observe h (\<lambda>w. Inr (any_exists h (sa_targets a) w))) (\<lambda>remains.
           if remains then failA (RPurge ''Antigravity native targets still exist after deletion'')
           else okA ()))))))"

text \<open>The adapter of each source.\<close>

definition delete_by_source :: "host \<Rightarrow> candidate \<Rightarrow> assessment \<Rightarrow> (rerror, unit) act" where
  "delete_by_source h c a =
     (case cd_source c of
        Codex \<Rightarrow> run_delete h ''codex'' [''delete'', ''--force'', cd_id c]
      | Opencode \<Rightarrow> run_delete h ''opencode'' (opencode_delete_args (cd_id c))
      | Claude \<Rightarrow> change_files h (remove_file (cd_path c))
      | Qwen \<Rightarrow> change_files h (remove_file (cd_path c))
      | Antigravity \<Rightarrow> delete_antigravity h c a
      | Mcode \<Rightarrow> delete_indexed_session h c a
      | Copilot \<Rightarrow> delete_indexed_session h c a
      | Grok \<Rightarrow> delete_indexed_session h c a
      | s \<Rightarrow> failA (RPurge (''source has no supported delete adapter: '' @ source_str s)))"

text \<open>The checks between the assessment and the deletion.\<close>

definition recheck :: "host \<Rightarrow> candidate \<Rightarrow> assessment \<Rightarrow> string list option \<Rightarrow> (rerror, unit) act" where
  "recheck h c a source_root =
     (if source_root \<noteq> None \<and> (cd_source c = Codex \<or> cd_source c = Opencode)
      then failA (RPurge (source_str (cd_source c) @
        '' deletes through its own CLI and its canonical store; refusing with --source-root''))
      else
        bindA (observe h (snapshot_target_identities (sa_targets a))) (\<lambda>identities.
        bindA (bundle_of h c) (\<lambda>current.
        if b_sha256 current \<noteq> sa_source_sha256 a \<or> b_bytes current \<noteq> sa_source_bytes a
        then failA (RPurge ''source changed after eligibility check'')
        else
          bindA (observe h (verify_target_identities identities)) (\<lambda>_.
          bindA (require_idle h (cd_source c) (sa_targets a)
            (RPurge ''native session became active after eligibility check'') RPurge) (\<lambda>_.
          observe h (verify_target_identities identities))))))"

definition delete_candidate ::
  "host \<Rightarrow> candidate \<Rightarrow> assessment \<Rightarrow> string list option \<Rightarrow> (rerror, string list list) act" where
  "delete_candidate h c a source_root =
     bindA (recheck h c a source_root) (\<lambda>_.
     bindA (delete_by_source h c a) (\<lambda>_.
     bindA (if cd_source c = Opencode then okA []
            else observe h (\<lambda>w. Inr (filter (path_exists h (w_files w)) (sa_targets a)))) (\<lambda>remaining.
     if remaining \<noteq> [] then
       failA (RPurge (''native targets still exist after deletion: '' @ join_with '', '' (map shown remaining)))
     else okA (sa_targets a))))"

section \<open>Purging\<close>

text \<open>\<open>purge.rs\<close>.\<close>

definition live_children :: "host \<Rightarrow> candidate \<Rightarrow> candidate list \<Rightarrow> world \<Rightarrow> string list" where
  "live_children h c store w =
     map cd_id (filter (\<lambda>child. cd_parent_id child = Some (cd_id c) \<and>
       path_exists h (w_files w) (cd_path child)) store)"

definition receipt_payload :: "candidate \<Rightarrow> assessment \<Rightarrow> string option \<Rightarrow> string list list \<Rightarrow> string \<Rightarrow> json" where
  "receipt_payload c a attempt_id deleted now = jobj
     [(''id'', JStr (''session-purge:'' @ source_str (cd_source c) @ '':'' @ cd_id c @ '':'' @ take 16 (sa_source_sha256 a))),
      (''type'', JStr ''SessionPurgeReceipt''),
      (''label'', JStr (''purged '' @ source_str (cd_source c) @ '':'' @ cd_id c)),
      (''provenance'', JStr ''innen retention purge --execute''), (''schema'', JStr SCHEMA),
      (''session_id'', JStr (cd_id c)), (''source'', JStr (source_str (cd_source c))),
      (''source_sha256'', JStr (sa_source_sha256 a)),
      (''attempt_id'', case attempt_id of None \<Rightarrow> JNull | Some i \<Rightarrow> JStr i),
      (''deleted_targets'', JArr (map (\<lambda>p. JStr (shown p)) deleted)), (''observed_utc'', JStr now)]"

definition purge_receipt_of ::
  "candidate \<Rightarrow> assessment \<Rightarrow> bool \<Rightarrow> string list list \<Rightarrow> nat \<times> nat \<Rightarrow> purge_receipt" where
  "purge_receipt_of c a executed deleted links =
     \<lparr>pr_session_id = cd_id c, pr_source = source_str (cd_source c), pr_executed = executed,
      pr_deleted_targets = deleted, pr_source_sha256 = sa_source_sha256 a,
      pr_other_hard_links = fst links, pr_hard_linked_bytes = snd links\<rparr>"

text \<open>An error on the way is journaled when the purge executes, then returned.\<close>

definition note_failure :: "host \<Rightarrow> string option \<Rightarrow> candidate \<Rightarrow> (rerror, 'a) act \<Rightarrow> (rerror, 'a) act" where
  "note_failure h attempt_id c m =
     bindA (attempt m) (\<lambda>r.
     case r of
       Inr a \<Rightarrow> okA a
     | Inl e \<Rightarrow>
         bindA (case attempt_id of None \<Rightarrow> okA () | Some i \<Rightarrow> record_purge_failure h i c (rerror_text e)) (\<lambda>_.
         failA e))"

definition guard_children :: "host \<Rightarrow> candidate \<Rightarrow> candidate list \<Rightarrow> (rerror, unit) act" where
  "guard_children h c store =
     (if cd_source c = Codex then
        observe h (\<lambda>w. let ids = live_children h c store w in
          if ids = [] then Inr ()
          else Inl (RProof (''codex delete would also remove child sessions; purge them first: '' @ join_with '','' ids)))
      else okA ())"

definition require_eligible :: "assessment \<Rightarrow> (rerror, unit) act" where
  "require_eligible a =
     (if sa_eligible a then okA () else failA (RProof (join_with ''; '' (sa_blockers a))))"

definition finish_purge ::
  "host \<Rightarrow> candidate \<Rightarrow> string list option \<Rightarrow> string option \<Rightarrow> assessment \<Rightarrow> nat \<times> nat \<Rightarrow> (rerror, purge_receipt) act" where
  "finish_purge h c source_root attempt_id a links =
     bindA (note_failure h attempt_id c (delete_candidate h c a source_root)) (\<lambda>deleted.
     bindA (observed_utc_now h) (\<lambda>now.
     bindA (append_retention_node h (receipt_payload c a attempt_id deleted now)) (\<lambda>_.
     okA (purge_receipt_of c a True deleted links))))"

definition purge_attempted ::
  "host \<Rightarrow> candidate \<Rightarrow> string list option \<Rightarrow> nat \<Rightarrow> string option \<Rightarrow> (rerror, purge_receipt) act" where
  "purge_attempted h c source_root days attempt_id =
     bindA (note_failure h attempt_id c (assess_candidate h c days)) (\<lambda>a.
     bindA (note_failure h attempt_id c (require_eligible a)) (\<lambda>_.
     bindA (observe h (\<lambda>w. Inr (hard_links (sa_targets a) w))) (\<lambda>links.
     if attempt_id = None then okA (purge_receipt_of c a False [] links)
     else finish_purge h c source_root attempt_id a links)))"

text \<open>The attempt is recorded exactly when the purge executes.\<close>

definition purge_candidate ::
  "host \<Rightarrow> candidate \<Rightarrow> candidate list \<Rightarrow> string list option \<Rightarrow> nat \<Rightarrow> bool \<Rightarrow> (rerror, purge_receipt) act" where
  "purge_candidate h c store source_root days execute =
     bindA (guard_children h c store) (\<lambda>_.
     bindA (if execute then bindA (record_purge_attempt h c days) (\<lambda>i. okA (Some i)) else okA None)
       (purge_attempted h c source_root days))"

definition purge ::
  "host \<Rightarrow> string \<Rightarrow> string \<Rightarrow> string list option \<Rightarrow> nat \<Rightarrow> bool \<Rightarrow> (rerror, purge_receipt) act" where
  "purge h source_name session_id source_root days execute =
     (case source_parse source_name of
        Inl e \<Rightarrow> failA (RProof e)
      | Inr s \<Rightarrow>
          (case validate_id session_id of
             Inl e \<Rightarrow> failA (RProof e)
           | Inr sid \<Rightarrow>
               bindA (find_all_candidates h (Some s) source_root) (\<lambda>store.
               case find (\<lambda>c. cd_id c = sid) store of
                 None \<Rightarrow> failA (RProof (''session not found: '' @ source_str s @ '':'' @ sid))
               | Some c \<Rightarrow> purge_candidate h c store source_root days execute)))"

section \<open>What a purge may change\<close>

lemma map_of_filter_key: "map_of (filter (\<lambda>(q, _). P q) fs) p = (if P p then map_of fs p else None)"
  by (induction fs) auto

lemma keeps_change_files:
  assumes "left_alone h p" and "\<And>fs fs'. f fs = Inr fs' \<Longrightarrow> map_of fs' p = map_of fs p"
  shows "keeps (same_file p) (change_files h f)"
  unfolding change_files_def
  using assms by (intro same_file.keeps_change left_alone_interfere) (auto simp: same_file_def split: sum.split)

lemma remove_elsewhere:
  "remove_file q fs = Inr fs' \<Longrightarrow> p \<noteq> q \<Longrightarrow> map_of fs' p = map_of fs p"
  "remove_dir_all q fs = Inr fs' \<Longrightarrow> \<not> prefix q p \<Longrightarrow> map_of fs' p = map_of fs p"
  "remove_target q fs = Inr fs' \<Longrightarrow> \<not> prefix q p \<Longrightarrow> map_of fs' p = map_of fs p"
  by (auto simp: remove_file_def remove_dir_all_def remove_target_def map_of_filter_key
      split: option.splits inode_kind.splits if_splits)

text \<open>What a deletion may touch: a file, the targets and what is below them, or the directory of the
  session; the programs of Codex and OpenCode are not bound.\<close>

definition deletion_scope :: "candidate \<Rightarrow> assessment \<Rightarrow> string list \<Rightarrow> bool" where
  "deletion_scope c a p \<longleftrightarrow>
     (case cd_source c of
        Codex \<Rightarrow> True | Opencode \<Rightarrow> True
      | Claude \<Rightarrow> p = cd_path c | Qwen \<Rightarrow> p = cd_path c
      | Antigravity \<Rightarrow> (\<exists>t \<in> set (sa_targets a). prefix t p)
      | Mcode \<Rightarrow> prefix (session_directory c) p
      | Copilot \<Rightarrow> prefix (session_directory c) p
      | Grok \<Rightarrow> prefix (session_directory c) p
      | _ \<Rightarrow> False)"

lemma keeps_retries:
  assumes "left_alone h p"
  shows "keeps (same_file p) (mutation_retry h db sql n e)" "keeps (same_file p) (read_retry h db sql n e)"
proof -
  show "keeps (same_file p) (mutation_retry h db sql n e)"
    by (induction n arbitrary: e)
      (auto simp: wal_checkpoint_def intro!: same_file_rules assms)
  show "keeps (same_file p) (read_retry h db sql n e)"
    by (induction n arbitrary: e)
      (auto simp: wal_checkpoint_def sqlite_def intro!: same_file_rules assms)
qed

lemma keeps_layout: "left_alone h p \<Longrightarrow> keeps (same_file p) (indexed_store_layout h c)"
  unfolding indexed_store_layout_def existing_tables_def
  by (intro same_file_rules) assumption+

lemma keeps_indexed:
  assumes "left_alone h p" and "\<not> prefix (session_directory c) p"
  shows "keeps (same_file p) (delete_indexed_session h c a)"
  unfolding delete_indexed_session_def run_sqlite_mutation_def Let_def
  using assms
  by (intro same_file_rules keeps_layout keeps_retries keeps_change_files)
    (auto intro: remove_elsewhere)

lemma keeps_antigravity:
  assumes "left_alone h p" and "\<And>t. t \<in> set (sa_targets a) \<Longrightarrow> \<not> prefix t p"
  shows "keeps (same_file p) (delete_antigravity h c a)"
  unfolding delete_antigravity_def run_sqlite_mutation_def read_shared_store_def Let_def
  using assms
  by (intro same_file_rules keeps_retries keeps_change_files)
    (auto intro: remove_elsewhere)

lemma keeps_delete_by_source:
  assumes "left_alone h p" and "\<not> deletion_scope c a p"
  shows "keeps (same_file p) (delete_by_source h c a)"
  using assms
  by (cases "cd_source c")
    (auto simp: delete_by_source_def deletion_scope_def
      intro!: same_file.keeps_ok keeps_indexed keeps_antigravity keeps_change_files intro: remove_elsewhere)

lemma keeps_recheck: "left_alone h p \<Longrightarrow> keeps (same_file p) (recheck h c a root)"
  unfolding recheck_def require_idle_def
  by (intro same_file_rules keeps_bundle_of) assumption+

lemma keeps_receipts:
  assumes "left_alone h p"
  shows "keeps (same_file p) (append_retention_node h pl)"
    "keeps (same_file p) (record_purge_attempt h c days)"
    "keeps (same_file p) (record_purge_failure h i c reason)"
    "keeps (same_file p) (observed_utc_now h)"
  unfolding append_retention_node_def record_purge_attempt_def record_purge_failure_def observed_utc_now_def Let_def
  by (intro same_file_rules keeps_journal assms)+

lemma keeps_note_failure:
  "left_alone h p \<Longrightarrow> keeps (same_file p) m \<Longrightarrow> keeps (same_file p) (note_failure h i c m)"
  unfolding note_failure_def by (intro same_file_rules keeps_receipts) assumption+

lemma note_failure_Inr: "note_failure h i c m w = (Inr a, w') \<longleftrightarrow> m w = (Inr a, w')"
  by (auto simp: note_failure_def bindA_def attempt_def split: prod.splits sum.splits)

section \<open>Nothing goes without proof\<close>

text \<open>The last checks before the deletion: no target is a symbolic link, the digest and the size are
  those of the assessment, the targets stay the same objects of the file system, and no process has
  them open.\<close>

definition same_objects :: "string list list \<Rightarrow> world \<Rightarrow> world \<Rightarrow> bool" where
  "same_objects targets w w' \<longleftrightarrow>
     (\<forall>p \<in> set targets. \<exists>i j.
        map_of (w_files w) p = Some i \<and> map_of (w_files w') p = Some j \<and>
        (\<forall>t. in_kind i \<noteq> Symlink t) \<and> (\<forall>t. in_kind j \<noteq> Symlink t) \<and>
        in_dev j = in_dev i \<and> in_num j = in_num i)"

definition rechecked :: "host \<Rightarrow> candidate \<Rightarrow> assessment \<Rightarrow> string list option \<Rightarrow> world \<Rightarrow> world \<Rightarrow> bool" where
  "rechecked h c a root w w' \<longleftrightarrow>
     (root = None \<or> cd_source c \<noteq> Codex \<and> cd_source c \<noteq> Opencode) \<and>
     (\<exists>b w1.
        bundle_of h c (interfere h w) = (Inr b, w1) \<and>
        b_sha256 b = sa_source_sha256 a \<and> b_bytes b = sa_source_bytes a \<and>
        same_objects (sa_targets a) (interfere h w) (interfere h w1) \<and>
        session_activity h (liveness_targets (cd_source c) (sa_targets a)) (interfere h (interfere h w1)) = Idle \<and>
        w' = interfere h (interfere h (interfere h w1)) \<and>
        same_objects (sa_targets a) (interfere h w) w')"

lemma verify_same_objects:
  "snapshot_target_identities ts w = Inr ids \<Longrightarrow> verify_target_identities ids w' = Inr () \<Longrightarrow> same_objects ts w w'"
  unfolding snapshot_target_identities_def same_objects_def
  by (induction ts arbitrary: ids)
    (auto split: option.splits inode_kind.splits if_splits)

lemma require_idle_Inr: "require_idle h s ts busy unsure w = (Inr u, w') \<longleftrightarrow>
    session_activity h (liveness_targets s ts) (interfere h w) = Idle \<and> w' = interfere h w"
  by (auto simp: require_idle_def split: activity.splits)

lemma recheck_ok: "recheck h c a root w = (Inr u, w') \<Longrightarrow> rechecked h c a root w w'"
  by (auto simp: recheck_def rechecked_def require_idle_Inr bindA_Inr verify_same_objects split: if_splits)

lemma snd_attempt: "snd (attempt m w) = snd (m w)"
  by (simp add: attempt_def split: prod.split)

lemma finish_purge_breaks:
  assumes left: "left_alone h p"
    and changed: "\<not> same_file p w (snd (finish_purge h c root i a links w))"
  obtains w' where "recheck h c a root w = (Inr (), w')" "same_file p w w'"
    "\<not> same_file p w' (snd (delete_by_source h c a w'))"
proof -
  have "\<not> same_file p w (snd (note_failure h i c (delete_candidate h c a root) w))"
    using changed unfolding finish_purge_def
    by (rule same_file.bind_breaks_first) (intro same_file_rules keeps_receipts left)
  then have "\<not> same_file p w (snd ((attempt (delete_candidate h c a root) :: (rerror, _) act) w))"
    unfolding note_failure_def
    by (rule same_file.bind_breaks_first) (intro same_file_rules keeps_receipts left)
  then have "\<not> same_file p w (snd (delete_candidate h c a root w))" by (simp add: snd_attempt)
  then obtain u w' where w': "recheck h c a root w = (Inr u, w')" "same_file p w w'"
    and d: "\<not> same_file p w' (snd (bindA (delete_by_source h c a) (\<lambda>_.
     bindA (if cd_source c = Opencode then okA []
            else observe h (\<lambda>w. Inr (filter (path_exists h (w_files w)) (sa_targets a)))) (\<lambda>remaining.
     if remaining \<noteq> [] then
       failA (RPurge (''native targets still exist after deletion: '' @ join_with '', '' (map shown remaining)))
     else okA (sa_targets a))) w'))"
    unfolding delete_candidate_def by (rule same_file.bind_breaks) (rule keeps_recheck [OF left], blast)
  from d have "\<not> same_file p w' (snd (delete_by_source h c a w'))"
    by (rule same_file.bind_breaks_first) (intro same_file_rules left)
  with w' that show thesis by simp
qed

lemma purge_attempted_breaks:
  assumes left: "left_alone h p"
    and changed: "\<not> same_file p w (snd (purge_attempted h c root days i w))"
  obtains a w1 links where "i \<noteq> None" "assess_candidate h c days w = (Inr a, w1)" "sa_eligible a"
    "same_file p w (interfere h w1)"
    "\<not> same_file p (interfere h w1) (snd (finish_purge h c root i a links (interfere h w1)))"
proof -
  have k: "keeps (same_file p) (require_eligible a)" for a
    unfolding require_eligible_def by (intro same_file_rules)
  from changed obtain a w1 where a: "note_failure h i c (assess_candidate h c days) w = (Inr a, w1)" "same_file p w w1"
    and c1: "\<not> same_file p w1 (snd (bindA (note_failure h i c (require_eligible a)) (\<lambda>_.
     bindA (observe h (\<lambda>w. Inr (hard_links (sa_targets a) w))) (\<lambda>links.
     if i = None then okA (purge_receipt_of c a False [] links)
     else finish_purge h c root i a links)) w1))"
    unfolding purge_attempted_def by (rule same_file.bind_breaks) (intro keeps_note_failure keeps_assess left, blast)
  from c1 obtain u w2 where e: "note_failure h i c (require_eligible a) w1 = (Inr u, w2)"
    and c2: "\<not> same_file p w2 (snd (bindA (observe h (\<lambda>w. Inr (hard_links (sa_targets a) w))) (\<lambda>links.
     if i = None then okA (purge_receipt_of c a False [] links)
     else finish_purge h c root i a links) w2))"
    by (rule same_file.bind_breaks) (intro keeps_note_failure k left, blast)
  from e have el: "sa_eligible a" "w2 = w1"
    by (auto simp: note_failure_Inr require_eligible_def split: if_splits)
  from c2 obtain links w3 where l: "(observe h (\<lambda>w. Inr (hard_links (sa_targets a) w)) :: (rerror, _) act) w2 = (Inr links, w3)"
    "same_file p w2 w3" and c3: "\<not> same_file p w3 (snd ((if i = None then okA (purge_receipt_of c a False [] links)
     else finish_purge h c root i a links) w3))"
    by (rule same_file.bind_breaks) (intro same_file_rules left, blast)
  have "i \<noteq> None"
  proof
    assume "i = None"
    with c3 show False by (simp add: same_file.refl)
  qed
  moreover have "same_file p w (interfere h w1)" using a(2) l el by (auto intro: same_file.trans)
  ultimately show thesis
    using that [of a w1 links] a(1) el c3 l by (auto simp: note_failure_Inr)
qed

lemma purge_breaks:
  assumes left: "left_alone h p"
    and changed: "\<not> same_file p w (snd (purge_candidate h c store root days execute w))"
  obtains w0 i w1 cutoff b w2 w3 where
    "execute" "guard_children h c store w = (Inr (), w0)" "record_purge_attempt h c days w0 = (Inr i, w1)"
    "justified h c days w1 cutoff b w2" "rechecked h c (eligible_assessment c cutoff b) root (interfere h w2) w3"
    "same_file p w w3" "deletion_scope c (eligible_assessment c cutoff b) p"
proof -
  have k: "keeps (same_file p) (guard_children h c store)"
    unfolding guard_children_def by (intro same_file_rules left)
  from changed obtain u w0 where g: "guard_children h c store w = (Inr u, w0)" "same_file p w w0"
    and c1: "\<not> same_file p w0 (snd (bindA (if execute then bindA (record_purge_attempt h c days) (\<lambda>i. okA (Some i)) else okA None)
       (purge_attempted h c root days) w0))"
    unfolding purge_candidate_def by (rule same_file.bind_breaks) (rule k, blast)
  from c1 obtain x w1 where x: "(if execute then bindA (record_purge_attempt h c days) (\<lambda>i. okA (Some i)) else okA None) w0 = (Inr x, w1)"
    "same_file p w0 w1" and c2: "\<not> same_file p w1 (snd (purge_attempted h c root days x w1))"
    by (rule same_file.bind_breaks) (intro same_file_rules keeps_receipts left, blast)
  from c2 obtain a w2 links where a: "x \<noteq> None" "assess_candidate h c days w1 = (Inr a, w2)" "sa_eligible a"
    "same_file p w1 (interfere h w2)"
    "\<not> same_file p (interfere h w2) (snd (finish_purge h c root x a links (interfere h w2)))"
    by (rule purge_attempted_breaks [OF left])
  from a(2,3) obtain cutoff b where b: "justified h c days w1 cutoff b w2" "a = eligible_assessment c cutoff b"
    by (rule assess_eligible)
  from a(5) obtain w3 where w3: "recheck h c a root (interfere h w2) = (Inr (), w3)" "same_file p (interfere h w2) w3"
    "\<not> same_file p w3 (snd (delete_by_source h c a w3))"
    by (rule finish_purge_breaks [OF left])
  have "deletion_scope c a p" using w3(3) keeps_delete_by_source [OF left] by (auto simp: keeps_def)
  moreover obtain i where i: "execute" "record_purge_attempt h c days w0 = (Inr i, w1)"
    using x(1) a(1) by (auto simp: bindA_Inr split: if_splits)
  moreover have "same_file p w w3"
    using g(2) x(2) a(4) w3(2) by (blast intro: same_file.trans)
  ultimately show thesis
    using g(1) b recheck_ok [OF w3(1)] by (intro that [OF i(1) _ i(2), of cutoff b w2 w3]) simp_all
qed

section \<open>An example\<close>

text \<open>A session with one hashed file and another file in its directory, attested in the journal, on a host
  where nothing else happens.\<close>

definition ex_session :: "source \<Rightarrow> candidate" where
  "ex_session s = \<lparr>cd_id = ''s'', cd_source = s, cd_modified = Some ''1970-01-01T00:00:00Z'', cd_path = [''d'', ''s''],
     cd_project = None, cd_parent_id = None\<rparr>"

definition zero_digest :: string where
  "zero_digest = replicate 64 (CHR ''0'')"

definition ex_proof :: "source \<Rightarrow> json" where
  "ex_proof s = jobj [(''id'', JStr ''p''), (''schema'', JStr SCHEMA), (''session_id'', JStr ''s''),
     (''source'', JStr (source_str s)), (''source_sha256'', JStr zero_digest),
     (''knowledge_node_ids'', JArr [JStr ''k'']), (''extraction_complete'', JBool True), (''session_closed'', JBool True)]"

definition ex_entries :: "source \<Rightarrow> journal_entry list" where
  "ex_entries s =
     [\<lparr>entry_id = [], observed_utc = [], entry_op = ''node.upsert'', payload = jobj [(''id'', JStr ''k'')]\<rparr>,
      \<lparr>entry_id = [], observed_utc = [], entry_op = ''node.upsert'', payload = ex_proof s\<rparr>,
      \<lparr>entry_id = [], observed_utc = [], entry_op = ''edge.assert'', payload = jobj [(''from'', JStr ''k''), (''type'', JStr ''DERIVED_FROM''), (''to'', JStr (conversation_id (ex_session s)))]\<rparr>]"

definition ex_lib :: "source \<Rightarrow> lib" where
  "ex_lib s = \<lparr>x_sha = (\<lambda>_. replicate 32 0), x_ser = (\<lambda>_. ''x''),
     x_parse = (\<lambda>_. Some (jobj [(''id'', JStr []), (''op'', JStr [])])),
     x_entry = map_of (zip [''1'', ''2'', ''3''] (ex_entries s))\<rparr>"

definition ex_host :: "source \<Rightarrow> host" where
  "ex_host s = \<lparr>h_lib = ex_lib s, h_root = [''r''], h_qdir = ''q'', h_now = (\<lambda>w. 10 ^ 9), h_fresh = (\<lambda>w. (0, 9)),
     h_others = (\<lambda>n w. w), h_canon = (\<lambda>fs p. map_option (\<lambda>_. p) (map_of fs p)), h_proc = (\<lambda>w. Inr []),
     h_run = (\<lambda>program args w. (Inr \<lparr>out_ok = True, out_status = [], out_stdout = [], out_stderr = []\<rparr>, w)),
     h_lossy = (\<lambda>t. t), h_values = (\<lambda>t. Inr []), h_candidates = (\<lambda>w s r. Inr []), h_dialogue = (\<lambda>w s p i. ([], [], None)),
     h_order = (\<lambda>w i. 0)\<rparr>"

definition ex_files :: files where
  "ex_files =
     [([''d''], \<lparr>in_dev = 0, in_num = 1, in_links = 2, in_kind = Folder\<rparr>),
      ([''d'', ''notes''], \<lparr>in_dev = 0, in_num = 2, in_links = 1, in_kind = Regular ''never hashed''\<rparr>),
      ([''d'', ''s''], \<lparr>in_dev = 0, in_num = 3, in_links = 1, in_kind = Regular ''text''\<rparr>),
      ([''session-store.db''], \<lparr>in_dev = 0, in_num = 4, in_links = 1, in_kind = Regular []\<rparr>)]"

definition ex_line :: string where
  "ex_line = ''{'' @ [CHR 0x22] @ ''id'' @ [CHR 0x22] @ '':x,'' @ [CHR 0x22] @ ''observed_utc'' @ [CHR 0x22] @ '':x,'' @
     [CHR 0x22] @ ''op'' @ [CHR 0x22] @ '':x,'' @ [CHR 0x22] @ ''payload'' @ [CHR 0x22] @ '':x}''"

text \<open>The journal with \<open>n\<close> more entries.\<close>

definition ex_text :: "nat \<Rightarrow> string" where
  "ex_text n = unlines ([''1'', ''2'', ''3''] @ replicate n ex_line)"

definition ex_store :: "nat \<Rightarrow> store" where
  "ex_store n = \<lparr>innen_dir = True, journal_file = Some (ex_text n),
     quarantine_files = [], reports = []\<rparr>"

definition ex_world :: world where
  "ex_world = \<lparr>w_files = ex_files, w_store = ex_store 0, w_step = 0\<rparr>"

lemma ex_line: "stored_line (ex_lib s) e = ex_line" "one_line ex_line" "plain ex_line" "trim ex_line = ex_line"
  "ex_line \<notin> {''1'', ''2'', ''3'', []}"
  by (simp add: stored_line_def field_text_def ex_lib_def ex_line_def) code_simp+

lemma ex_keep [simp]: "keep_line (ex_lib s) l"
  by (simp add: keep_line_def ex_lib_def obj_of_def)

lemma ex_lines: "lines (ex_text n) = [''1'', ''2'', ''3''] @ replicate n ex_line"
  unfolding ex_text_def by (rule lines_unlines) (use ex_line(2) in \<open>auto simp: one_line_def\<close>)

lemma ex_valid: "valid_utf8 (ex_text n)"
  unfolding ex_text_def by (rule valid_utf8_unlines) (auto simp: ex_line intro!: plain_valid, code_simp+)

lemma ex_open: "journal_open (ex_lib s) q secs (ex_store n) = (Inr (), ex_store n)"
  using open_clean [of "ex_store n" _ "ex_lib s" q secs, OF _ ex_valid]
  by (simp add: ex_store_def bad_lines_def)

lemma ex_append:
  assumes "validate op pl = Inr ()"
  shows "\<exists>i. journal_append (ex_lib s) secs op pl (ex_store n) = (Inr i, ex_store (Suc n))"
proof -
  have "ex_text n @ ex_line @ [CHR 0x0A] = ex_text (Suc n)"
    using replicate_append_same [of n ex_line] by (simp add: ex_text_def unlines_def flip: replicate_append_same)
  then show ?thesis
    using append_ok [OF assms, of "ex_store n" "ex_lib s" secs]
    by (simp add: ex_store_def append_bytes_def ex_line)
qed

lemma ex_read: "read_all (ex_lib s) (ex_store n) = Inr (ex_entries s)"
proof -
  have t: "trim ''1'' = ''1''" "trim ''2'' = ''2''" "trim ''3'' = ''3''" by code_simp+
  have n: "entries_of (ex_lib s) (replicate n ex_line) = []"
    using ex_line(5) by (induction n) (auto simp: entries_of_def List.map_filter_def ex_line ex_lib_def ex_entries_def)
  have "entries_of (ex_lib s) [''1'', ''2'', ''3''] = ex_entries s"
    by (simp add: entries_of_def List.map_filter_def t ex_lib_def ex_entries_def)
  then have "entries_of (ex_lib s) (lines (ex_text n)) = ex_entries s"
    using n unfolding ex_lines entries_of_simps(2) by simp
  moreover have "read_all (ex_lib s) (ex_store n) = Inr (entries_of (ex_lib s) (lines (ex_text n)))"
    by (rule read_all_content [OF _ ex_valid]) (simp add: ex_store_def)
  ultimately show ?thesis by simp
qed

definition ex_at :: "files \<Rightarrow> nat \<Rightarrow> nat \<Rightarrow> world" where
  "ex_at fs n k = \<lparr>w_files = fs, w_store = ex_store n, w_step = k\<rparr>"

lemma ex_at [simp]:
  "interfere (ex_host s) (ex_at fs n k) = ex_at fs n (Suc k)" "w_files (ex_at fs n k) = fs"
  "w_store (ex_at fs n k) = ex_store n" "ex_world = ex_at ex_files 0 0"
  "(ex_at fs n k)\<lparr>w_files := fs'\<rparr> = ex_at fs' n k" "(ex_at fs n k)\<lparr>w_store := ex_store n'\<rparr> = ex_at fs n' k"
  by (simp_all add: interfere_def ex_host_def ex_at_def ex_world_def)

lemma ex_host [simp]:
  "h_lib (ex_host s) = ex_lib s" "h_now (ex_host s) w = 10 ^ 9" "x_sha (ex_lib s) = (\<lambda>_. replicate 32 0)"
  "h_canon (ex_host s) fs p = map_option (\<lambda>_. p) (map_of fs p)" "h_proc (ex_host s) w = Inr []"
  by (simp_all add: ex_host_def ex_lib_def)

lemma ex_left_alone: "left_alone (ex_host s) p"
  by (simp add: left_alone_def ex_host_def same_file_def)

lemma ex_journal:
  "open_journal (ex_host s) (ex_at fs n k) = (Inr (), ex_at fs n (Suc k))"
  "validate op pl = Inr () \<Longrightarrow> append_journal (ex_host s) op pl (ex_at fs n k) = (Inr (), ex_at fs (Suc n) (Suc k))"
proof -
  show "open_journal (ex_host s) (ex_at fs n k) = (Inr (), ex_at fs n (Suc k))"
    by (simp add: open_journal_def ex_open)
  assume v: "validate op pl = Inr ()"
  obtain i where "journal_append (ex_lib s) 1 op pl (ex_store n) = (Inr i, ex_store (Suc n))"
    using ex_append [OF v, of s 1 n] by blast
  then show "append_journal (ex_host s) op pl (ex_at fs n k) = (Inr (), ex_at fs (Suc n) (Suc k))"
    by (simp add: append_journal_def)
qed

definition ex_graph :: "source \<Rightarrow> materialized" where
  "ex_graph s = \<lparr>nodes = [(''k'', jobj [(''id'', JStr ''k''), (''observed_utc'', JStr [])]),
       (''p'', jobj [(''id'', JStr ''p''), (''observed_utc'', JStr []), (''schema'', JStr SCHEMA), (''session_id'', JStr ''s''),
     (''source'', JStr (source_str s)), (''source_sha256'', JStr zero_digest),
     (''knowledge_node_ids'', JArr [JStr ''k'']), (''extraction_complete'', JBool True), (''session_closed'', JBool True)])],
     edges = [\<lparr>e_from = ''k'', e_edge = edge_of_str ''DERIVED_FROM'', e_to = conversation_id (ex_session s), e_weight = None,
       e_valid_from = [], e_valid_until = None, e_retracted = False, e_observed_utc = [], e_provenance = None\<rparr>]\<rparr>"

lemma ex_graph: "materialize secs (map event_value (ex_entries s)) None False = ex_graph s"
  by (simp add: materialize_def ex_entries_def ex_proof_def event_value_def apply_event_def event_parts_def jget_str_def
      obj_of_def upsert_node_def merge_env_def merge_field_def empty_graph_def ex_graph_def assert_row_def edge_ends_def
      Materialize.or_else_def row_valid_def Let_def)

lemma ex_load: "load_graph (ex_host s) (ex_at fs n k) = (Inr (ex_graph s), ex_at fs n (Suc (Suc k)))"
proof -
  have "in_map_order (h_order (ex_host s) w) g = g" for w g
    by (simp add: in_map_order_def ex_host_def sort_key_const)
  then show ?thesis
    by (simp add: load_graph_def bindA_run [where m = "open_journal (ex_host s)", OF ex_journal(1)] read_graph_def ex_read ex_graph)
qed

lemma zero_digest: "sha256_hex (\<lambda>_. replicate 32 0) t = zero_digest"
  by code_simp

lemma ex_entitled: "entitled (ex_graph s) (ex_session s) zero_digest"
proof -
  have "edge_name (edge_of_str ''DERIVED_FROM'') = ''DERIVED_FROM''" by code_simp
  then show ?thesis
    by (simp add: entitled_def proves_def is_proof_candidate_def knowledge_of_def linked_def ex_graph_def ex_session_def
        jget_str_def obj_of_def is_provenance_edge_def List.map_filter_simps)
qed

lemma ex_decided: "decided (ex_host s) (ex_session s) (ex_at fs n k) zero_digest"
proof (rule sound_attestations_decide [OF ex_load ex_entitled])
  obtain x where x: "proves (ex_graph s) (ex_session s) zero_digest x" "x \<in> snd ` set (nodes (ex_graph s))"
    using ex_entitled [of s] by (auto simp: entitled_def)
  fix y assume "y \<in> snd ` set (nodes (ex_graph s))" "attests (ex_session s) zero_digest y"
  then have "y = x"
    using x by (auto simp: proves_def ex_graph_def attests_def is_proof_candidate_def jget_str_def obj_of_def)
  then show "proves (ex_graph s) (ex_session s) zero_digest y" using x(1) by simp
qed

lemma ex_times: "format_utc 1 = ''1970-01-01T00:00:01Z''" "is_trustworthy_modified (Some ''1970-01-01T00:00:00Z'')"
proof -
  have "civil_date 0 = (1970, 1, 1)" by code_simp
  moreover have "nat_digits 1970 = ''1970''" "nat_digits 1 = ''1''" "nat_digits 0 = ''0''" by code_simp+
  ultimately show "format_utc 1 = ''1970-01-01T00:00:01Z''"
    by (simp add: format_utc_def format_date_def format_time_def pad_digits_def)
  show "is_trustworthy_modified (Some ''1970-01-01T00:00:00Z'')"
    by (simp add: is_trustworthy_modified_def parse_u16_def is_ascii_digit_def byte_def)
qed

definition ex_bundle :: "string \<Rightarrow> session_bundle" where
  "ex_bundle c = \<lparr>b_sha256 = zero_digest, b_bytes = length c, b_targets = [[''d'', ''s'']]\<rparr>"

lemma ex_bundle:
  assumes "s \<notin> {Opencode, Antigravity}" and "map_of fs [''d'', ''s''] = Some i" and "in_kind i = Regular c"
  shows "bundle_of (ex_host s) (ex_session s) (ex_at fs n k) = (Inr (ex_bundle c), ex_at fs n (Suc k))"
  using assms by (simp add: bundle_of_def file_bundle_def hash_session_file_def read_file_def ex_session_def ex_bundle_def zero_digest)

lemma ex_idle: "session_activity (ex_host s) ts w = Idle"
  by (simp add: session_activity_def)

lemma ex_assess:
  assumes "s \<notin> {Opencode, Antigravity}" and "map_of fs [''d'', ''s''] = Some i" and "in_kind i = Regular c"
  shows "assess_candidate (ex_host s) (ex_session s) 0 (ex_at fs n k) =
    (Inr (eligible_assessment (ex_session s) ''1970-01-01T00:00:01Z'' (ex_bundle c)), ex_at fs n (k + 6))"
proof (rule assess_justified)
  let ?h = "ex_host s" and ?c = "ex_session s"
  show "justified ?h ?c 0 (ex_at fs n k) ''1970-01-01T00:00:01Z'' (ex_bundle c) (ex_at fs n (k + 6))"
    unfolding justified_def
  proof (intro exI conjI)
    show "load_graph ?h (ex_at fs n k) = (Inr (ex_graph s), ex_at fs n (Suc (Suc k)))" by (rule ex_load)
    show "''1970-01-01T00:00:01Z'' = cutoff_utc ?h 0 (interfere ?h (ex_at fs n (Suc (Suc k))))"
      using ex_times(1) by (simp add: cutoff_utc_def u64_sat_def)
    show "bundle_of ?h ?c (interfere ?h (interfere ?h (ex_at fs n (Suc (Suc k))))) = (Inr (ex_bundle c), ex_at fs n (k + 5))"
      using ex_bundle [OF assms, of n "k + 4"] by (simp add: numeral_eq_Suc)
    show "child_blockers ?h ?c (ex_at fs n (k + 5)) = (Inr [], ex_at fs n (k + 5))"
      using assms(1) by (simp add: child_blockers_def ex_session_def)
    show "cd_modified ?c = Some ''1970-01-01T00:00:00Z''" "is_trustworthy_modified (Some ''1970-01-01T00:00:00Z'')"
      by (simp_all add: ex_session_def ex_times)
    show "list_ex (path_exists ?h (w_files (interfere ?h (interfere ?h (ex_at fs n (Suc (Suc k)))))))
       (candidate_targets ?h (w_files (interfere ?h (interfere ?h (ex_at fs n (Suc (Suc k)))))) ?c)"
      using assms(1,2) by (simp add: candidate_targets_def ex_session_def path_exists_def)
    show "entitled (ex_graph s) ?c (b_sha256 (ex_bundle c))" by (simp add: ex_bundle_def ex_entitled)
  qed (simp_all add: ex_idle numeral_eq_Suc)
  show "decided ?h ?c (ex_at fs n k) (b_sha256 (ex_bundle c))" by (simp add: ex_bundle_def ex_decided)
qed

lemma ex_recheck:
  assumes "s \<notin> {Opencode, Antigravity}" and "map_of fs [''d'', ''s''] = Some i" and "in_kind i = Regular c"
  shows "recheck (ex_host s) (ex_session s) (eligible_assessment (ex_session s) cutoff (ex_bundle c)) None (ex_at fs n k) =
    (Inr (), ex_at fs n (k + 5))"
proof -
  have r: "require_idle (ex_host s) s' ts e f (ex_at fs n k) = (Inr (), ex_at fs n (Suc k))" for s' ts e f k
    by (simp add: require_idle_Inr ex_idle)
  show ?thesis
    using assms
    by (simp add: recheck_def bindA_observe eligible_assessment_def ex_bundle_def snapshot_target_identities_def
        bindA_run [where m = "bundle_of (ex_host s) (ex_session s)", OF ex_bundle [OF assms, unfolded ex_bundle_def]]
        bindA_run [where m = "require_idle (ex_host s) _ _ _ _", OF r] numeral_eq_Suc)
qed

lemma ex_payloads:
  "validate ''node.upsert'' (attempt_payload c i days now) = Inr ()"
  "validate ''node.upsert'' (receipt_payload c a x ts now) = Inr ()"
  by (simp_all add: validate_iff acceptable_def required_fields_def jget_str_def attempt_payload_def receipt_payload_def obj_of_map_of)

lemma ex_append_node:
  "validate ''node.upsert'' pl = Inr () \<Longrightarrow>
     append_retention_node (ex_host s) pl (ex_at fs n k) = (Inr (), ex_at fs (Suc n) (Suc (Suc k)))"
  by (simp add: append_retention_node_def bindA_run [where m = "open_journal (ex_host s)", OF ex_journal(1)] ex_journal(2))

lemma ex_attempt:
  "\<exists>i. record_purge_attempt (ex_host s) c days (ex_at fs n k) = (Inr i, ex_at fs (Suc n) (Suc (Suc (Suc (Suc k)))))"
  by (simp add: record_purge_attempt_def observed_utc_now_def bindA_observe Let_def
      bindA_run [where m = "append_retention_node (ex_host s) _", OF ex_append_node [OF ex_payloads(1)]])

text \<open>The purge of the example, for the sources whose deletion leaves the files \<open>fs'\<close>.\<close>

lemma ex_purge:
  assumes s: "s \<notin> {Opencode, Antigravity, Codex}" "map_of fs [''d'', ''s''] = Some i" "in_kind i = Regular c"
    and d: "\<And>a n k. sa_targets a = [[''d'', ''s'']] \<Longrightarrow>
      \<exists>k'. delete_by_source (ex_host s) (ex_session s) a (ex_at fs n k) = (Inr (), ex_at fs' n k')"
    and gone: "map_of fs' [''d'', ''s''] = None"
  shows "\<exists>r n k. purge_candidate (ex_host s) (ex_session s) store None 0 True (ex_at fs 0 0) = (Inr r, ex_at fs' n k) \<and>
    pr_executed r \<and> pr_deleted_targets r = [[''d'', ''s'']]"
proof -
  let ?h = "ex_host s" and ?c = "ex_session s"
  have s': "s \<notin> {Opencode, Antigravity}" using s(1) by simp
  obtain i where at: "record_purge_attempt ?h ?c 0 (ex_at fs 0 0) = (Inr i, ex_at fs (Suc 0) 4)"
    using ex_attempt [of s ?c 0 fs 0 0] by (auto simp: numeral_eq_Suc)
  let ?a = "eligible_assessment ?c ''1970-01-01T00:00:01Z'' (ex_bundle c)"
  have ts: "sa_targets ?a = [[''d'', ''s'']]" by (simp add: eligible_assessment_def ex_bundle_def)
  have as: "note_failure ?h (Some i) ?c (assess_candidate ?h ?c 0) (ex_at fs (Suc 0) 4) = (Inr ?a, ex_at fs (Suc 0) 10)"
    using ex_assess [OF s' s(2,3), of "Suc 0" 4] by (simp add: note_failure_Inr)
  have el: "note_failure ?h (Some i) ?c (require_eligible ?a) w = (Inr (), w)" for w
    by (simp add: note_failure_Inr require_eligible_def eligible_assessment_def)
  obtain k' where d: "delete_by_source ?h ?c ?a (ex_at fs (Suc 0) 16) = (Inr (), ex_at fs' (Suc 0) k')"
    using d [OF ts] by blast
  have "delete_candidate ?h ?c ?a None (ex_at fs (Suc 0) 11) = (Inr [[''d'', ''s'']], ex_at fs' (Suc 0) (Suc k'))"
  proof -
    have rc: "recheck ?h ?c ?a None (ex_at fs (Suc 0) 11) = (Inr (), ex_at fs (Suc 0) 16)"
      using ex_recheck [OF s' s(2,3), of "''1970-01-01T00:00:01Z''" "Suc 0" 11] by simp
    have ns: "cd_source ?c \<noteq> Opencode" using s(1) by (simp add: ex_session_def)
    show ?thesis
      unfolding delete_candidate_def
      by (subst bindA_run [where m = "recheck ?h ?c ?a None", OF rc],
          subst bindA_run [where m = "delete_by_source ?h ?c ?a", OF d])
        (simp add: ns bindA_observe ts path_exists_def gone)
  qed
  then have dc: "note_failure ?h (Some i) ?c (delete_candidate ?h ?c ?a None) (ex_at fs (Suc 0) 11) =
      (Inr [[''d'', ''s'']], ex_at fs' (Suc 0) (Suc k'))"
    by (simp add: note_failure_Inr)
  have fin: "finish_purge ?h ?c None (Some i) ?a links (ex_at fs (Suc 0) 11) =
      (Inr (purge_receipt_of ?c ?a True [[''d'', ''s'']] links), ex_at fs' (Suc (Suc 0)) (Suc (Suc (Suc (Suc k')))))" for links
    by (simp add: finish_purge_def bindA_run [where m = "note_failure ?h _ ?c (delete_candidate ?h ?c ?a None)", OF dc]
        observed_utc_now_def bindA_observe
        bindA_run [where m = "append_retention_node ?h _", OF ex_append_node [OF ex_payloads(2)]])
  have "purge_attempted ?h ?c None 0 (Some i) (ex_at fs (Suc 0) 4) =
      (Inr (purge_receipt_of ?c ?a True [[''d'', ''s'']] (hard_links (sa_targets ?a) (ex_at fs (Suc 0) 11))), ex_at fs' (Suc (Suc 0)) (Suc (Suc (Suc (Suc k')))))"
    by (simp add: purge_attempted_def bindA_run [where m = "note_failure ?h _ ?c (assess_candidate ?h ?c 0)", OF as]
        bindA_run [where m = "note_failure ?h _ ?c (require_eligible ?a)", OF el] bindA_observe fin)
  note run = this
  have e: "bindA (record_purge_attempt ?h ?c 0) (\<lambda>i. okA (Some i)) (ex_at fs 0 0) = (Inr (Some i), ex_at fs (Suc 0) 4)"
    by (simp add: bindA_run [where m = "record_purge_attempt ?h ?c 0", OF at])
  have "cd_source ?c \<noteq> Codex" using s(1) by (simp add: ex_session_def)
  then have "purge_candidate ?h ?c store None 0 True (ex_at fs 0 0) = purge_attempted ?h ?c None 0 (Some i) (ex_at fs (Suc 0) 4)"
    unfolding purge_candidate_def guard_children_def by (simp add: bindA_run [where m = "bindA _ _", OF e])
  with run show ?thesis by (auto simp: purge_receipt_of_def)
qed

text \<open>The two deletions of the example.\<close>

lemma ex_delete_file:
  assumes "sa_targets a = [[''d'', ''s'']]"
  shows "\<exists>k'. delete_by_source (ex_host Claude) (ex_session Claude) a (ex_at ex_files n k) =
    (Inr (), ex_at (filter (\<lambda>(q, _). q \<noteq> [''d'', ''s'']) ex_files) n k')"
  by (intro exI [of _ "Suc k"]) (simp add: delete_by_source_def ex_session_def change_files_def remove_file_def ex_files_def)

lemma ex_delete_directory:
  assumes "sa_targets a = [[''d'', ''s'']]"
  shows "\<exists>k'. delete_by_source (ex_host Copilot) (ex_session Copilot) a (ex_at ex_files n k) =
    (Inr (), ex_at (filter (\<lambda>(q, _). \<not> prefix [''d''] q) ex_files) n k')"
proof -
  let ?h = "ex_host Copilot" and ?c = "ex_session Copilot"
  let ?dir = "[''d'']" and ?db = "[''session-store.db'']" and ?l = "\<lparr>il_index_db = [''session-store.db''], il_statements = []\<rparr>"
  have t: "existing_tables ?h db (ex_at ex_files n k) = (Inr [], ex_at ex_files n (Suc k))" for db k
    by (simp add: existing_tables_def command_def bindA_def attempt_def ex_host_def lines_def interfere_def ex_at_def)
  have "ancestors ?dir = [[''d''], []]" by (simp add: ancestors_def)
  then have "find (path_exists ?h ex_files) (map (\<lambda>d. d @ ?db) (ancestors ?dir)) = Some ?db"
    by (simp add: path_exists_def) (simp add: ex_files_def)
  then have l: "indexed_store_layout ?h ?c (ex_at ex_files n k) = (Inr ?l, ex_at ex_files n (Suc (Suc k)))"
    by (simp add: indexed_store_layout_def index_tables_def ex_session_def bindA_observe session_directory_def
        bindA_run [where m = "existing_tables ?h ?db", OF t])
  have d: "path_is_dir ?h ex_files ?dir" "remove_dir_all ?dir ex_files = Inr (filter (\<lambda>(q, _). \<not> prefix ?dir q) ex_files)"
    by (simp_all add: path_is_dir_def remove_dir_all_def ex_files_def)
  have g: "\<not> path_exists ?h (filter (\<lambda>(q, _). \<not> prefix ?dir q) ex_files) [''d'', ''s'']"
    by (simp add: path_exists_def map_of_filter_key)
  have "change_files ?h (remove_dir_all ?dir) (ex_at ex_files n k) =
      (Inr (), ex_at (filter (\<lambda>(q, _). \<not> prefix ?dir q) ex_files) n (Suc k))" for k
    by (simp add: change_files_def d)
  note c = bindA_run [where m = "change_files ?h (remove_dir_all ?dir)", OF this]
  have s: "session_directory ?c = ?dir" "cd_source ?c = Copilot" by (simp_all add: session_directory_def ex_session_def)
  show ?thesis
    by (simp add: delete_by_source_def s delete_indexed_session_def bindA_run [where m = "indexed_store_layout ?h ?c", OF l]
        bindA_observe d c any_exists_def assms g Let_def) blast
qed

section \<open>Properties\<close>

text \<open>C11. An assessment finds a session eligible exactly when the specification justifies its removal: its
  journal opens, its files are there, it was last modified before the cutoff, the graph holds a complete
  attestation of a closed session for the digest of the bytes as they are, with knowledge that still
  exists and is linked to the conversation by a live edge, it has no child sessions where the deletion
  would take them along, and nothing has its files open; and when, of the attestations of that digest, the
  one that the enumeration of the graph meets first is such a sound one (\<open>decided\<close>: where several
  attest one digest, the first decides, and the others are not asked).  The result then carries that digest,
  size and targets.\<close>

theorem eligible_exactly_when_justified:
  "(assess_candidate h c days w = (Inr a, w') \<and> sa_eligible a) \<longleftrightarrow>
    (\<exists>cutoff b. justified h c days w cutoff b w' \<and> decided h c w (b_sha256 b) \<and> a = eligible_assessment c cutoff b)"
proof
  assume "assess_candidate h c days w = (Inr a, w') \<and> sa_eligible a"
  then show "\<exists>cutoff b. justified h c days w cutoff b w' \<and> decided h c w (b_sha256 b) \<and> a = eligible_assessment c cutoff b"
    by (blast elim: assess_eligible)
next
  assume "\<exists>cutoff b. justified h c days w cutoff b w' \<and> decided h c w (b_sha256 b) \<and> a = eligible_assessment c cutoff b"
  then show "assess_candidate h c days w = (Inr a, w') \<and> sa_eligible a"
    using assess_justified by (auto simp: eligible_assessment_def)
qed

theorem eligible_exactly_when_justified_witness:
  "\<exists>a w' cutoff b. sa_eligible a \<and> justified (ex_host Claude) (ex_session Claude) 0 ex_world cutoff b w' \<and>
     decided (ex_host Claude) (ex_session Claude) ex_world (b_sha256 b) \<and>
     a = eligible_assessment (ex_session Claude) cutoff b"
proof -
  have "map_of ex_files [''d'', ''s''] = Some \<lparr>in_dev = 0, in_num = 3, in_links = 1, in_kind = Regular ''text''\<rparr>"
    by (simp add: ex_files_def)
  then obtain a where "assess_candidate (ex_host Claude) (ex_session Claude) 0 ex_world = (Inr a, ex_at ex_files 0 6)" "sa_eligible a"
    using ex_assess [of Claude ex_files _ "''text''" 0 0] by (simp add: eligible_assessment_def)
  with eligible_exactly_when_justified show ?thesis by metis
qed

text \<open>Where the graph holds two attestations of the same bytes, a broken one (it names knowledge that is not
  there) and a sound one, the answer depends on the order in which the map yields them: the digest has a
  sound attestation either way, and one order accepts it while the other reports missing knowledge.\<close>

definition rival_node :: "string \<Rightarrow> json \<Rightarrow> json" where
  "rival_node i k = jobj [(''id'', JStr i), (''schema'', JStr SCHEMA), (''session_id'', JStr ''s''),
     (''source'', JStr ''claude''), (''source_sha256'', JStr zero_digest), (''knowledge_node_ids'', JArr [k]),
     (''extraction_complete'', JBool True), (''session_closed'', JBool True)]"

definition rival_graph :: materialized where
  "rival_graph = (ex_graph Claude)\<lparr>nodes := [(''a'', rival_node ''a'' (JStr ''gone'')),
     (''k'', jobj [(''id'', JStr ''k'')]), (''p'', rival_node ''p'' (JStr ''k''))]\<rparr>"

theorem eligibility_depends_on_map_order:
  "entitled rival_graph (ex_session Claude) zero_digest \<and>
   proof_blockers (in_map_order (\<lambda>i. 0) rival_graph) (ex_session Claude) zero_digest =
     [(''knowledge node disappeared: gone'', BLOCKER_KNOWLEDGE_MISSING)] \<and>
   proof_blockers (in_map_order (\<lambda>i. if i = ''a'' then 1 else 0) rival_graph) (ex_session Claude) zero_digest = []"
proof -
  have e: "edge_name (edge_of_str ''DERIVED_FROM'') = ''DERIVED_FROM''" by code_simp
  have c: "is_proof_candidate (ex_session Claude) (rival_node i k)" "knowledge_of (rival_node i (JStr s)) = [s]"
      "jget_str (rival_node i k) ''source_sha256'' = Some zero_digest"
      "\<not> is_proof_candidate (ex_session Claude) (jobj [(''id'', JStr ''k'')])" for i k s
    by (simp_all add: rival_node_def is_proof_candidate_def knowledge_of_def jget_str_def obj_of_def ex_session_def
        List.map_filter_simps)
  have l: "linked rival_graph (conversation_id (ex_session Claude)) ''k''"
    using e by (simp add: linked_def rival_graph_def ex_graph_def is_provenance_edge_def)
  have b: "proof_blockers (in_map_order (\<lambda>i. if i = ''a'' then 1 else 0) rival_graph) (ex_session Claude) zero_digest = []"
    using l c by (simp add: proof_blockers_def in_map_order_def rival_graph_def knowledge_blocker_Nil)
      (simp add: linked_def)
  then have "entitled rival_graph (ex_session Claude) zero_digest"
    using proof_blockers_entitled [OF b] by (simp add: entitled_in_map_order rival_graph_def)
  moreover have "proof_blockers (in_map_order (\<lambda>i. 0) rival_graph) (ex_session Claude) zero_digest =
     [(''knowledge node disappeared: gone'', BLOCKER_KNOWLEDGE_MISSING)]"
    using c by (simp add: proof_blockers_def in_map_order_def rival_graph_def knowledge_blocker_def sort_key_const)
  ultimately show ?thesis using b by blast
qed

text \<open>C2. No file of the host is changed by a purge, unless the purge executes, a recorded attempt was followed by an
  assessment that justified the removal, the last checks found the same digest, size and file objects and no open
  handle, and the file lies in what the source's deletion covers; until the deletion the file was what it was at the
  start.  For every file that other processes and \<open>sqlite3\<close> leave alone, whatever else they do meanwhile.\<close>

theorem purge_removes_only_the_proven:
  assumes "left_alone h p" and "map_of (w_files (snd (purge_candidate h c store root days execute w))) p \<noteq> map_of (w_files w) p"
  shows "execute \<and> (\<exists>w0 i w1 cutoff b w2 w3.
    guard_children h c store w = (Inr (), w0) \<and> record_purge_attempt h c days w0 = (Inr i, w1) \<and>
    justified h c days w1 cutoff b w2 \<and>
    rechecked h c (eligible_assessment c cutoff b) root (interfere h w2) w3 \<and>
    map_of (w_files w3) p = map_of (w_files w) p \<and>
    deletion_scope c (eligible_assessment c cutoff b) p)"
proof -
  have "\<not> same_file p w (snd (purge_candidate h c store root days execute w))"
    using assms(2) by (simp add: same_file_def)
  then obtain w0 i w1 cutoff b w2 w3 where
    "execute" "guard_children h c store w = (Inr (), w0)" "record_purge_attempt h c days w0 = (Inr i, w1)"
    "justified h c days w1 cutoff b w2" "rechecked h c (eligible_assessment c cutoff b) root (interfere h w2) w3"
    "same_file p w w3" "deletion_scope c (eligible_assessment c cutoff b) p"
    by (rule purge_breaks [OF assms(1)])
  then show ?thesis unfolding same_file_def by blast
qed

theorem purge_removes_only_the_proven_witness:
  "\<exists>w1 cutoff b w2. justified (ex_host Claude) (ex_session Claude) 0 w1 cutoff b w2 \<and>
     map_of (w_files (snd (purge_candidate (ex_host Claude) (ex_session Claude) [] None 0 True ex_world))) [''d'', ''s''] \<noteq>
     map_of (w_files ex_world) [''d'', ''s'']"
proof -
  let ?fs = "filter (\<lambda>(q, _). q \<noteq> [''d'', ''s'']) ex_files"
  obtain r n k where "purge_candidate (ex_host Claude) (ex_session Claude) [] None 0 True (ex_at ex_files 0 0) = (Inr r, ex_at ?fs n k)"
    using ex_purge [of Claude ex_files _ "''text''" ?fs "[]", OF _ _ _ ex_delete_file]
    by (auto simp: ex_files_def)
  then have "map_of (w_files (snd (purge_candidate (ex_host Claude) (ex_session Claude) [] None 0 True ex_world))) [''d'', ''s''] \<noteq>
     map_of (w_files ex_world) [''d'', ''s'']"
    by (simp add: map_of_filter_key) (simp add: ex_files_def)
  from purge_removes_only_the_proven [OF ex_left_alone this] this show ?thesis by blast
qed

text \<open>C34. A store that keeps one directory per session loses files that were never hashed: a purge of such a session
  succeeds and reports one deleted target, the transcript, but the notes beside it are gone too, although the
  digest of the attestation does not depend on them.\<close>

theorem indexed_purge_takes_unhashed_files:
  "(\<exists>r n k fs. purge_candidate (ex_host Copilot) (ex_session Copilot) [] None 0 True ex_world = (Inr r, ex_at fs n k) \<and>
     pr_executed r \<and> pr_deleted_targets r = [[''d'', ''s'']] \<and>
     map_of ex_files [''d'', ''notes''] \<noteq> None \<and> map_of fs [''d'', ''notes''] = None) \<and>
   (\<forall>i. file_bundle (ex_host Copilot) (([''d'', ''notes''], i) # filter (\<lambda>(q, _). q \<noteq> [''d'', ''notes'']) ex_files) (ex_session Copilot) =
     file_bundle (ex_host Copilot) ex_files (ex_session Copilot))"
proof
  let ?fs = "filter (\<lambda>(q, _). \<not> prefix [''d''] q) ex_files"
  have g: "map_of ?fs [''d'', x] = None" for x by (simp add: map_of_filter_key)
  have "\<exists>r n k. purge_candidate (ex_host Copilot) (ex_session Copilot) [] None 0 True (ex_at ex_files 0 0) = (Inr r, ex_at ?fs n k) \<and>
    pr_executed r \<and> pr_deleted_targets r = [[''d'', ''s'']]"
    using ex_purge [of Copilot ex_files _ "''text''" ?fs "[]", OF _ _ _ ex_delete_directory g]
    by (simp add: ex_files_def)
  moreover have "map_of ex_files [''d'', ''notes''] \<noteq> None" by (simp add: ex_files_def)
  ultimately show "\<exists>r n k fs. purge_candidate (ex_host Copilot) (ex_session Copilot) [] None 0 True ex_world = (Inr r, ex_at fs n k) \<and>
     pr_executed r \<and> pr_deleted_targets r = [[''d'', ''s'']] \<and>
     map_of ex_files [''d'', ''notes''] \<noteq> None \<and> map_of fs [''d'', ''notes''] = None"
    using g [of "''notes''"] unfolding ex_at(4) by blast
  show "\<forall>i. file_bundle (ex_host Copilot) (([''d'', ''notes''], i) # filter (\<lambda>(q, _). q \<noteq> [''d'', ''notes'']) ex_files) (ex_session Copilot) =
     file_bundle (ex_host Copilot) ex_files (ex_session Copilot)"
    by (simp add: file_bundle_def ex_session_def hash_session_file_def read_file_def ex_files_def)
qed

text \<open>C35. The digest of a session with several files does not determine them: names and contents are
  concatenated with no lengths, so under any hash function a directory with two files and a directory with
  one file, whose content holds the second file's name and content, have the same digest and only differ in size.
  The policy compares the digest alone: whatever attests the one session entitles the removal of the other.\<close>

definition demo_brain :: "(string \<times> string) list \<Rightarrow> files" where
  "demo_brain contents =
     map (\<lambda>p. (p, \<lparr>in_dev = 0, in_num = length p, in_links = 2, in_kind = Folder\<rparr>)) [[], [''brain''], [''brain'', ''s'']] @
     map (\<lambda>(name, c). ([''brain'', ''s'', name], \<lparr>in_dev = 0, in_num = 9, in_links = 1, in_kind = Regular c\<rparr>)) contents"

definition demo_brain_session :: candidate where
  "demo_brain_session = \<lparr>cd_id = ''s'', cd_source = Antigravity, cd_modified = None, cd_path = [''brain'', ''s''],
     cd_project = None, cd_parent_id = None\<rparr>"

definition demo_hash_host :: "(string \<Rightarrow> 8 word list) \<Rightarrow> host" where
  "demo_hash_host sha = (ex_host Antigravity)\<lparr>h_lib := (ex_lib Antigravity)\<lparr>x_sha := sha\<rparr>\<rparr>"

theorem bundle_digest_ambiguous:
  "\<exists>one two. file_bundle (demo_hash_host sha) (demo_brain [(''a'', x @ ''s/b'' @ [CHR 0x00] @ y)]) demo_brain_session = Inr one \<and>
     file_bundle (demo_hash_host sha) (demo_brain [(''a'', x), (''b'', y)]) demo_brain_session = Inr two \<and>
     b_sha256 one = b_sha256 two \<and> b_bytes one = b_bytes two + 4 \<and>
     entitled g demo_brain_session (b_sha256 one) = entitled g demo_brain_session (b_sha256 two)"
proof -
  let ?h = "demo_hash_host sha" and ?one = "demo_brain [(''a'', x @ ''s/b'' @ [CHR 0x00] @ y)]"
    and ?two = "demo_brain [(''a'', x), (''b'', y)]" and ?t = "[''brain'', ''s'']"
  have c: "h_canon ?h fs p = map_option (\<lambda>_. p) (map_of fs p)" for fs p by (simp add: demo_hash_host_def)
  have t: "antigravity_targets ?h fs ?t ''s'' = [?t]" if "fs = ?one \<or> fs = ?two" for fs
    using that by (auto simp: antigravity_targets_def Let_def ancestors_def file_name_def path_exists_def c demo_brain_def)
  have f: "bundle_files ?h fs ?t (?t @ [n]) = Inr [(''s/'' @ n, ?t @ [n])]"
    if "map_of fs (?t @ [n]) = Some \<lparr>in_dev = 0, in_num = 9, in_links = 1, in_kind = Regular d\<rparr>" for fs n d
    using that by (simp add: bundle_files.simps bundle_name_def join_with_def)
  have b: "bundle_files ?h ?one ?t ?t = Inr [(''s/a'', ?t @ [''a''])]"
      "bundle_files ?h ?two ?t ?t = Inr [(''s/a'', ?t @ [''a'']), (''s/b'', ?t @ [''b''])]"
    using f [of ?one "''a''"] f [of ?two "''a''"] f [of ?two "''b''"]
    by (simp_all add: bundle_files.simps [of _ _ _ ?t] children_def demo_brain_def)
  show ?thesis
    using t [of ?one] t [of ?two] b
    by (simp add: file_bundle_def demo_brain_session_def hash_targets_def read_file_def c demo_brain_def)
qed

end
