(* ===== verification/Sweep.thy ===== *)
theory Sweep
  imports Retention
begin

text \<open>
  Compaction, inventory and sweeps (\<open>session_retention/compact.rs\<close>, \<open>inventory.rs\<close>, \<open>sweep.rs\<close>).  A closed
  session is reduced to its dialogue, which becomes the knowledge that authorizes the removal of
  the native files.
\<close>

section \<open>Compaction\<close>

definition COMPACT_DIR :: "string list" where
  "COMPACT_DIR = [''00-inbox'', ''harvest'', ''compact'']"

record compact_record =
  cr_node_id :: string
  cr_path :: "string list"
  cr_sha256 :: string
  cr_bytes :: nat
  cr_messages :: nat
  cr_source_sha256 :: string
  cr_source_bytes :: nat

definition dialogue_row :: "nat \<Rightarrow> json \<Rightarrow> json list" where
  "dialogue_row line event =
     (let role = (case jget_str event ''role'' of None \<Rightarrow> [] | Some r \<Rightarrow> r);
          content = (case jget_str event ''content'' of None \<Rightarrow> [] | Some c \<Rightarrow> c);
          row = obj_of [(''line'', jnat line), (''role'', JStr role), (''content'', JStr content)]
      in if (role = ''user'' \<or> role = ''assistant'') \<and> trim content \<noteq> [] then
           [JObj (case jget event ''timestamp'' of
              None \<Rightarrow> row
            | Some t \<Rightarrow> if t = JNull then row else omap_insert ''timestamp'' t row)]
         else [])"

lemma jnodes_list_mem: "v \<in> set xs \<Longrightarrow> jnodes v \<le> jnodes_list xs"
  by (induction xs) auto

lemma jget_array_size: "Option.bind (jget event k) as_array = Some ms \<Longrightarrow> m \<in> set ms \<Longrightarrow> jnodes m < jnodes event"
proof -
  assume a: "Option.bind (jget event k) as_array = Some ms" and m: "m \<in> set ms"
  then obtain v where v: "jget event k = Some v" "as_array v = Some ms" by (cases "jget event k") auto
  then have "v = JArr ms" by (cases v) auto
  then have "jnodes m < jnodes v" using jnodes_list_mem [OF m] by simp
  with jget_jnodes [OF v(1)] show ?thesis by simp
qed

function dialogue_lines :: "nat \<Rightarrow> json \<Rightarrow> json list" where
  "dialogue_lines line event =
     (case Option.bind (jget event ''messages'') as_array of
        Some messages \<Rightarrow> concat (map (dialogue_lines line) messages)
      | None \<Rightarrow> dialogue_row line event)"
  by pat_completeness auto
termination by (relation "measure (\<lambda>(line, event). jnodes event)") (auto dest: jget_array_size)

declare dialogue_lines.simps [simp del]

text \<open>Directories and files of the knowledge base.\<close>

definition EEXIST :: string where "EEXIST = ''File exists (os error 17)''"

definition put_entry :: "string list \<Rightarrow> inode \<Rightarrow> files \<Rightarrow> files" where
  "put_entry p i fs = omap_insert p i fs"

definition ensure_dir :: "host \<Rightarrow> string list \<Rightarrow> string list \<Rightarrow> world \<Rightarrow> rerror + world" where
  "ensure_dir h dir p w =
     (if path_is_dir h (w_files w) p then Inr w
      else if map_of (w_files w) p \<noteq> None then Inl (RIo (shown dir) (if p = dir then EEXIST else ENOTDIR))
      else Inr (w\<lparr>w_files := put_entry p
        \<lparr>in_dev = fst (h_fresh h w), in_num = snd (h_fresh h w), in_links = 2, in_kind = Folder\<rparr> (w_files w)\<rparr>))"

definition create_dir_all :: "host \<Rightarrow> string list \<Rightarrow> world \<Rightarrow> (rerror + unit) \<times> world" where
  "create_dir_all h dir w =
     (case foldE (ensure_dir h dir) (prefixes dir) w of
        Inl e \<Rightarrow> (Inl e, w)
      | Inr w' \<Rightarrow> (Inr (), w'))"

definition create_file :: "host \<Rightarrow> string list \<Rightarrow> world \<Rightarrow> (rerror + unit) \<times> world" where
  "create_file h p w =
     (case map_of (w_files w) p of
        Some i \<Rightarrow>
          (case in_kind i of
             Folder \<Rightarrow> (Inl (RIo (shown p) EISDIR), w)
           | _ \<Rightarrow> (Inr (), w\<lparr>w_files := put_entry p (i\<lparr>in_kind := Regular []\<rparr>) (w_files w)\<rparr>))
      | None \<Rightarrow> (Inr (), w\<lparr>w_files := put_entry p
          \<lparr>in_dev = fst (h_fresh h w), in_num = snd (h_fresh h w), in_links = 1, in_kind = Regular []\<rparr> (w_files w)\<rparr>))"

definition write_all :: "string list \<Rightarrow> string \<Rightarrow> files \<Rightarrow> rerror + files" where
  "write_all p content fs =
     (case map_of fs p of
        None \<Rightarrow> Inr fs
      | Some i \<Rightarrow> Inr (put_entry p (i\<lparr>in_kind := Regular content\<rparr>) fs))"

definition rename_file :: "string list \<Rightarrow> string list \<Rightarrow> files \<Rightarrow> rerror + files" where
  "rename_file src dst fs =
     (case map_of fs src of
        None \<Rightarrow> Inl (RIo (shown dst) ENOENT)
      | Some i \<Rightarrow>
          if (case map_of fs dst of None \<Rightarrow> False | Some d \<Rightarrow> in_kind d = Folder) then Inl (RIo (shown dst) EISDIR)
          else Inr (put_entry dst i (filter (\<lambda>(q, _). q \<noteq> src) fs)))"

definition compact_path :: "host \<Rightarrow> candidate \<Rightarrow> string list" where
  "compact_path h c = h_root h @ COMPACT_DIR @ [source_str (cd_source c), cd_id c @ ''.jsonl'']"

definition partial_path :: "host \<Rightarrow> candidate \<Rightarrow> string list" where
  "partial_path h c = h_root h @ COMPACT_DIR @ [source_str (cd_source c), cd_id c @ ''.jsonl.partial'']"

text \<open>The transcript and its rows, written to the partial file; an error removes it.\<close>

definition write_dialogue :: "host \<Rightarrow> candidate \<Rightarrow> (rerror, string \<times> nat \<times> string list) act" where
  "write_dialogue h c =
     (let partial = partial_path h c in
      bindA (change h (create_file h partial)) (\<lambda>_.
      bindA (observe h (\<lambda>w. Inr (h_dialogue h w (cd_source c) (cd_path c) (cd_id c)))) (\<lambda>(events, warnings, failure).
      let rows = concat (map (\<lambda>(line, event). dialogue_lines line event) events);
          content = concat (map (\<lambda>row. x_ser (h_lib h) row @ [CHR 0x0A]) rows) in
      bindA (change_files h (write_all partial content)) (\<lambda>_.
      case failure of
        Some e \<Rightarrow> failA (RConversation e)
      | None \<Rightarrow> okA (content, length rows, warnings)))))"

definition conversation_payload :: "candidate \<Rightarrow> json" where
  "conversation_payload c = jobj
     [(''id'', JStr (conversation_id c)), (''type'', JStr ''Conversation''),
      (''label'', JStr (source_str (cd_source c) @ '' session '' @ cd_id c)),
      (''provenance'', JStr ''innen retention sweep''),
      (''project'', case cd_project c of None \<Rightarrow> JNull | Some p \<Rightarrow> JStr p),
      (''modified'', case cd_modified c of None \<Rightarrow> JNull | Some m \<Rightarrow> JStr m)]"

definition transcript_payload ::
  "candidate \<Rightarrow> string \<Rightarrow> string list \<Rightarrow> string \<Rightarrow> nat \<Rightarrow> nat \<Rightarrow> session_bundle \<Rightarrow> string list \<Rightarrow> string \<Rightarrow> json" where
  "transcript_payload c nid relative sha bytes messages before warnings now = jobj
     [(''id'', JStr nid), (''type'', JStr ''CompactTranscript''),
      (''label'', JStr (''compact transcript '' @ source_str (cd_source c) @ '':'' @ cd_id c)),
      (''provenance'', JStr ''innen retention sweep''), (''path'', JStr (join_with ''/'' relative)),
      (''sha256'', JStr sha), (''bytes'', jnat bytes), (''messages'', jnat messages),
      (''source_sha256'', JStr (b_sha256 before)), (''source_bytes'', jnat (b_bytes before)),
      (''observed_utc'', JStr now), (''warnings'', JArr (map JStr warnings))]"

definition provenance_payload :: "string \<Rightarrow> string \<Rightarrow> json" where
  "provenance_payload nid conversation =
     jobj [(''from'', JStr nid), (''type'', JStr ''DERIVED_FROM''), (''to'', JStr conversation)]"

definition transcript_id :: "host \<Rightarrow> candidate \<Rightarrow> string \<Rightarrow> string" where
  "transcript_id h c content =
     ''compact-transcript:'' @ source_str (cd_source c) @ '':'' @ cd_id c @ '':'' @ take 16 (sha256_hex (x_sha (h_lib h)) content)"

definition transcript_node ::
  "host \<Rightarrow> candidate \<Rightarrow> session_bundle \<Rightarrow> string \<Rightarrow> nat \<Rightarrow> string list \<Rightarrow> string \<Rightarrow> json" where
  "transcript_node h c before content messages warnings now =
     transcript_payload c (transcript_id h c content) (drop (length (h_root h)) (compact_path h c))
       (sha256_hex (x_sha (h_lib h)) content) (length content) messages before warnings now"

definition compact_proof :: "host \<Rightarrow> candidate \<Rightarrow> session_bundle \<Rightarrow> string \<Rightarrow> string \<Rightarrow> json" where
  "compact_proof h c before content now =
     attestation_payload
       (''session-retention:'' @ source_str (cd_source c) @ '':'' @ cd_id c @ '':'' @ take 16 (b_sha256 before))
       (''compact retention proof '' @ source_str (cd_source c) @ '':'' @ cd_id c)
       ''innen retention sweep (compact)'' (source_str (cd_source c)) (cd_id c) (b_sha256 before) now
       (b_bytes before) [transcript_id h c content] SCHEMA"

text \<open>The entries that make the transcript the proof of the session.\<close>

definition record_compaction ::
  "host \<Rightarrow> candidate \<Rightarrow> session_bundle \<Rightarrow> string \<Rightarrow> nat \<Rightarrow> string list \<Rightarrow> (rerror, compact_record) act" where
  "record_compaction h c before content messages warnings =
     bindA (open_journal h) (\<lambda>_.
     bindA (load_graph h) (\<lambda>g.
     bindA (if map_of (nodes g) (conversation_id c) = None
            then append_journal h ''node.upsert'' (conversation_payload c) else okA ()) (\<lambda>_.
     bindA (observed_utc_now h) (\<lambda>now.
     bindA (append_journal h ''node.upsert'' (transcript_node h c before content messages warnings now)) (\<lambda>_.
     bindA (append_journal h ''edge.assert''
       (provenance_payload (transcript_id h c content) (conversation_id c))) (\<lambda>_.
     bindA (observed_utc_now h) (\<lambda>now'.
     bindA (append_journal h ''node.upsert'' (compact_proof h c before content now')) (\<lambda>_.
     okA \<lparr>cr_node_id = transcript_id h c content, cr_path = drop (length (h_root h)) (compact_path h c),
          cr_sha256 = sha256_hex (x_sha (h_lib h)) content, cr_bytes = length content,
          cr_messages = messages, cr_source_sha256 = b_sha256 before,
          cr_source_bytes = b_bytes before\<rparr>))))))))"

definition compact_and_attest :: "host \<Rightarrow> candidate \<Rightarrow> (rerror, compact_record) act" where
  "compact_and_attest h c =
     bindA (bundle_of h c) (\<lambda>before.
     bindA (require_idle h (cd_source c) (b_targets before)
       (RProof ''native session has an open file handle'') RProof) (\<lambda>_.
     bindA (change h (create_dir_all h (butlast (compact_path h c)))) (\<lambda>_.
     bindA (attempt (write_dialogue h c)) (\<lambda>result.
     case result of
       Inl e \<Rightarrow> bindA (attempt (change_files h (remove_file (partial_path h c)))) (\<lambda>_. failA e)
     | Inr (content, messages, warnings) \<Rightarrow>
         bindA (bundle_of h c) (\<lambda>after.
         if b_sha256 after \<noteq> b_sha256 before then
           bindA (attempt (change_files h (remove_file (partial_path h c)))) (\<lambda>_.
           failA (RProof ''native session changed while compacting''))
         else
           bindA (change_files h (rename_file (partial_path h c) (compact_path h c))) (\<lambda>_.
           record_compaction h c before content messages warnings))))))"

section \<open>Inventory\<close>

definition assess_or_report :: "host \<Rightarrow> materialized \<Rightarrow> nat \<Rightarrow> candidate \<Rightarrow> (rerror, assessment) act" where
  "assess_or_report h g days c =
     bindA (attempt (assess_candidate_with_graph h g c days)) (\<lambda>r.
     case r of
       Inr a \<Rightarrow> okA a
     | Inl e \<Rightarrow> observe h (\<lambda>w. Inr (early_assessment c (cutoff_utc h days w) 0
         (''assessment failed: '' @ rerror_text e) BLOCKER_ASSESSMENT_ERROR
         (candidate_targets h (w_files w) c))))"

definition inventory_of :: "host \<Rightarrow> candidate list \<Rightarrow> nat \<Rightarrow> (rerror, assessment list) act" where
  "inventory_of h candidates days =
     bindA (load_graph h) (\<lambda>g. mapA (assess_or_report h g days) candidates)"

definition inventory :: "host \<Rightarrow> source option \<Rightarrow> string list option \<Rightarrow> nat \<Rightarrow> (rerror, assessment list) act" where
  "inventory h s source_root days =
     bindA (find_all_candidates h s source_root) (\<lambda>candidates. inventory_of h candidates days)"

record inventory_source_summary =
  is_total :: nat
  is_eligible :: nat
  is_bytes :: nat

record inventory_summary =
  iv_total :: nat
  iv_eligible :: nat
  iv_eligible_bytes :: nat
  iv_by_source :: "(string \<times> inventory_source_summary) list"
  iv_blocker_codes :: "(string \<times> nat) list"

definition summarize_one :: "assessment \<Rightarrow> inventory_summary \<Rightarrow> inventory_summary" where
  "summarize_one a s =
     s\<lparr>iv_by_source := omap_upd (sa_source a) \<lparr>is_total = 0, is_eligible = 0, is_bytes = 0\<rparr>
         (\<lambda>x. x\<lparr>is_total := is_total x + 1, is_bytes := u64_sat (is_bytes x + sa_source_bytes a),
                is_eligible := (if sa_eligible a then is_eligible x + 1 else is_eligible x)\<rparr>) (iv_by_source s),
       iv_eligible := (if sa_eligible a then iv_eligible s + 1 else iv_eligible s),
       iv_eligible_bytes := (if sa_eligible a then u64_sat (iv_eligible_bytes s + sa_source_bytes a)
                             else iv_eligible_bytes s),
       iv_blocker_codes := fold (\<lambda>code. omap_upd code 0 (\<lambda>n. n + 1)) (sa_blocker_codes a) (iv_blocker_codes s)\<rparr>"

definition summarize_inventory :: "assessment list \<Rightarrow> inventory_summary" where
  "summarize_inventory assessments =
     fold summarize_one assessments
       \<lparr>iv_total = length assessments, iv_eligible = 0, iv_eligible_bytes = 0, iv_by_source = [],
        iv_blocker_codes = []\<rparr>"

section \<open>Sweeps\<close>

record sweep_item =
  si_session_id :: string
  si_source :: string
  si_status :: string
  si_source_bytes :: nat
  si_compact_bytes :: "nat option"
  si_detail :: "string option"

record sweep_receipt =
  sw_total :: nat
  sw_eligible :: nat
  sw_compactable :: nat
  sw_blocked :: nat
  sw_compacted :: nat
  sw_removed :: nat
  sw_failed :: nat
  sw_native_bytes_removed :: nat
  sw_compact_bytes_written :: nat
  sw_hard_linked :: nat
  sw_hard_linked_bytes :: nat
  sw_executed :: bool
  sw_items :: "sweep_item list"

definition only_missing_extraction :: "assessment \<Rightarrow> bool" where
  "only_missing_extraction a \<longleftrightarrow> sa_blocker_codes a = [BLOCKER_ATTESTATION_MISSING]"

text \<open>The parent of each session; of two rows with one id the later counts.\<close>

definition parents_of :: "candidate list \<Rightarrow> (string \<times> string) list" where
  "parents_of store =
     fold (\<lambda>c m. case cd_parent_id c of None \<Rightarrow> m | Some p \<Rightarrow> omap_insert (cd_id c) p m) store []"

function climb :: "(string \<times> string) list \<Rightarrow> string \<Rightarrow> nat \<Rightarrow> nat" where
  "climb parents current depth =
     (case map_of parents current of
        None \<Rightarrow> depth
      | Some parent \<Rightarrow> if depth + 1 > 64 then depth + 1 else climb parents parent (depth + 1))"
  by pat_completeness auto
termination by (relation "measure (\<lambda>(parents, current, depth). 64 - depth)") auto

declare climb.simps [simp del]

definition depth_of :: "candidate list \<Rightarrow> string \<Rightarrow> nat" where
  "depth_of store sid = climb (parents_of store) sid 0"

definition sweep_work :: "candidate list \<Rightarrow> assessment list \<Rightarrow> assessment list" where
  "sweep_work store assessments =
     sort_key (\<lambda>a. - int (depth_of store (sa_session_id a)))
       (filter (\<lambda>a. sa_eligible a \<or> only_missing_extraction a) assessments)"

definition link_note :: "nat \<times> nat \<Rightarrow> string option" where
  "link_note links =
     (if fst links > 0 then Some (nat_digits (fst links) @ '' other hard link(s) keep '' @ nat_digits (snd links) @
        '' bytes on disk; removing this path frees no space'') else None)"

text \<open>One session: compacted first where it needs to be, then purged.  The bytes of the transcript, the
  native bytes, and the outcome.\<close>

definition sweep_session ::
  "host \<Rightarrow> candidate list \<Rightarrow> string list option \<Rightarrow> nat \<Rightarrow> assessment \<Rightarrow> (rerror, nat option \<times> nat \<times> (rerror + unit)) act" where
  "sweep_session h store source_root days a =
     (case find (\<lambda>c. cd_id c = sa_session_id a \<and> source_str (cd_source c) = sa_source a) store of
        None \<Rightarrow> okA (None, sa_source_bytes a,
          Inl (RProof (''session not found: '' @ sa_source a @ '':'' @ sa_session_id a)))
      | Some c \<Rightarrow>
          bindA (if sa_eligible a then okA (Inr None)
                 else attempt (bindA (compact_and_attest h c) (\<lambda>r. okA (Some r)))) (\<lambda>compacted.
          case compacted of
            Inl e \<Rightarrow> okA (None, sa_source_bytes a, Inl e)
          | Inr record \<Rightarrow>
              bindA (attempt (purge_candidate h c store source_root days True)) (\<lambda>purged.
              okA (map_option cr_bytes record,
                   (case record of None \<Rightarrow> sa_source_bytes a | Some r \<Rightarrow> cr_source_bytes r),
                   (case purged of Inl e \<Rightarrow> Inl e | Inr _ \<Rightarrow> Inr ())))))"

definition note_links :: "nat \<times> nat \<Rightarrow> sweep_receipt \<Rightarrow> sweep_receipt" where
  "note_links links r =
     (if fst links > 0 then
        r\<lparr>sw_hard_linked := sw_hard_linked r + 1,
          sw_hard_linked_bytes := u64_sat (sw_hard_linked_bytes r + snd links)\<rparr>
      else r)"

definition note_outcome ::
  "assessment \<Rightarrow> string option \<Rightarrow> nat option \<times> nat \<times> (rerror + unit) \<Rightarrow> sweep_receipt \<Rightarrow> sweep_receipt" where
  "note_outcome a note = (\<lambda>(compact_bytes, native_bytes, outcome) r.
     (let r1 = (case compact_bytes of
           None \<Rightarrow> r
         | Some bytes \<Rightarrow> r\<lparr>sw_compacted := sw_compacted r + 1,
             sw_compact_bytes_written := u64_sat (sw_compact_bytes_written r + bytes)\<rparr>);
         (status, detail, r2) = (case outcome of
           Inr _ \<Rightarrow> (''removed'', note, r1\<lparr>sw_removed := sw_removed r1 + 1,
             sw_native_bytes_removed := u64_sat (sw_native_bytes_removed r1 + native_bytes)\<rparr>)
         | Inl e \<Rightarrow> (''failed'', Some (rerror_text e), r1\<lparr>sw_failed := sw_failed r1 + 1\<rparr>))
      in r2\<lparr>sw_items := sw_items r2 @ [\<lparr>si_session_id = sa_session_id a, si_source = sa_source a,
            si_status = status, si_source_bytes = native_bytes, si_compact_bytes = compact_bytes,
            si_detail = detail\<rparr>]\<rparr>))"

definition sweep_item_step ::
  "host \<Rightarrow> candidate list \<Rightarrow> string list option \<Rightarrow> nat \<Rightarrow> bool \<Rightarrow> assessment \<Rightarrow> sweep_receipt \<Rightarrow> (rerror, sweep_receipt) act" where
  "sweep_item_step h store source_root days execute a r =
     bindA (observe h (\<lambda>w. Inr (hard_links (sa_targets a) w))) (\<lambda>links.
     let r1 = note_links links r in
     if \<not> execute then
       okA (r1\<lparr>sw_items := sw_items r1 @ [\<lparr>si_session_id = sa_session_id a, si_source = sa_source a,
         si_status = (if \<not> sa_eligible a then ''compactable'' else ''eligible''),
         si_source_bytes = sa_source_bytes a, si_compact_bytes = None, si_detail = link_note links\<rparr>]\<rparr>)
     else
       bindA (sweep_session h store source_root days a) (\<lambda>outcome.
       okA (note_outcome a (link_note links) outcome r1)))"

fun foldA :: "('a \<Rightarrow> 's \<Rightarrow> ('e, 's) act) \<Rightarrow> 'a list \<Rightarrow> 's \<Rightarrow> ('e, 's) act" where
  "foldA f [] s = okA s"
| "foldA f (x # xs) s = bindA (f x s) (foldA f xs)"

definition sweep_start :: "assessment list \<Rightarrow> bool \<Rightarrow> sweep_receipt" where
  "sweep_start assessments execute =
     (let eligible = length (filter sa_eligible assessments);
          compactable = length (filter only_missing_extraction assessments)
      in \<lparr>sw_total = length assessments, sw_eligible = eligible, sw_compactable = compactable,
          sw_blocked = length assessments - eligible - compactable, sw_compacted = 0, sw_removed = 0,
          sw_failed = 0, sw_native_bytes_removed = 0, sw_compact_bytes_written = 0, sw_hard_linked = 0,
          sw_hard_linked_bytes = 0, sw_executed = execute, sw_items = []\<rparr>)"

definition sweep ::
  "host \<Rightarrow> source option \<Rightarrow> string list option \<Rightarrow> nat \<Rightarrow> bool \<Rightarrow> (rerror, sweep_receipt) act" where
  "sweep h s source_root days execute =
     bindA (find_all_candidates h s source_root) (\<lambda>store.
     bindA (inventory_of h store days) (\<lambda>assessments.
     foldA (sweep_item_step h store source_root days execute) (sweep_work store assessments)
       (sweep_start assessments execute)))"

section \<open>Dry runs\<close>

context frame_relation
begin

lemma keeps_foldA: "(\<And>x s. x \<in> set xs \<Longrightarrow> keeps R (f x s)) \<Longrightarrow> keeps R (foldA f xs s)"
  by (induction xs arbitrary: s) (simp_all add: keeps_ok keeps_bind)

end

lemma keeps_assess_with_graph: "left_alone h p \<Longrightarrow> keeps (same_file p) (assess_candidate_with_graph h g c days)"
  unfolding assess_candidate_with_graph_def assess_proof_def activity_blockers_def Let_def
  by (intro same_file_rules keeps_bundle_of keeps_child_blockers) assumption+

lemma keeps_inventory: "left_alone h p \<Longrightarrow> keeps (same_file p) (inventory_of h store days)"
  unfolding inventory_of_def assess_or_report_def
  by (intro same_file_rules keeps_journal keeps_assess_with_graph) assumption+

text \<open>A sweep that is not to execute, and a purge that is not, change no file, whatever they find: they only read,
  apart from the journal's own repair of damaged lines.\<close>

theorem dry_runs_keep_files:
  assumes "left_alone h p"
  shows "map_of (w_files (snd (sweep h s root days False w))) p = map_of (w_files w) p"
    and "map_of (w_files (snd (purge_candidate h c store root days False w))) p = map_of (w_files w) p"
proof -
  have "keeps (same_file p) (sweep h s root days False)"
    unfolding sweep_def find_all_candidates_def sweep_item_step_def Let_def
    by (intro same_file_rules same_file.keeps_foldA keeps_inventory assms) (simp add: same_file.keeps_ok)
  then show "map_of (w_files (snd (sweep h s root days False w))) p = map_of (w_files w) p"
    by (auto simp: keeps_def same_file_def)
  show "map_of (w_files (snd (purge_candidate h c store root days False w))) p = map_of (w_files w) p"
    using purge_breaks [OF assms, of w c store root days False] unfolding same_file_def by blast
qed

section \<open>The order of a sweep\<close>

text \<open>A child is one deeper than its parent, until the walk gives up after 64 steps.\<close>

lemma climb_Suc: "depth \<le> 64 \<Longrightarrow> climb m x depth \<le> 64 \<Longrightarrow> climb m x (Suc depth) = Suc (climb m x depth)"
proof (induction m x depth rule: climb.induct)
  case (1 m x depth)
  show ?case
  proof (cases "map_of m x")
    case None
    then show ?thesis by (simp add: climb.simps)
  next
    case (Some y)
    have d: "depth + 1 \<le> 64" using 1(3) Some by (subst (asm) climb.simps) (simp split: if_splits)
    have c: "climb m x depth = climb m y (depth + 1)" using Some d by (subst climb.simps) simp
    have ih: "climb m y (Suc (depth + 1)) = Suc (climb m y (depth + 1))"
      using 1(1) [OF Some] d 1(3) c by simp
    show ?thesis
    proof (cases "depth + 1 = 64")
      case True
      then have d64: "Suc depth = 64" by simp
      have "climb m y 64 = 64"
      proof (cases "map_of m y")
        case None
        then show ?thesis by (subst climb.simps) simp
      next
        case (Some z)
        then have "climb m y 64 = 65" by (subst climb.simps) simp
        then show ?thesis using 1(3) c d64 by simp
      qed
      then have "climb m x depth = 64" using c d64 by simp
      moreover have "climb m x (Suc depth) = 65" using d64 Some by (subst climb.simps) simp
      ultimately show ?thesis by simp
    next
      case False
      then have "climb m x (Suc depth) = climb m y (Suc (depth + 1))"
        using Some d by (subst climb.simps) simp
      then show ?thesis using ih c by simp
    qed
  qed
qed

lemma depth_child:
  assumes "map_of (parents_of store) child = Some parent" and "depth_of store parent \<le> 64"
  shows "depth_of store child = Suc (depth_of store parent)"
  using assms climb_Suc [of 0 "parents_of store" parent]
  by (subst depth_of_def, subst climb.simps) (simp add: depth_of_def)

text \<open>C16. A sweep works through exactly the sessions that are eligible or only lack an extraction, each once, and no
  session comes before one of its children, as long as its own depth is at most 64.\<close>

theorem sweep_children_first:
  "mset (sweep_work store assessments) = mset (filter (\<lambda>a. sa_eligible a \<or> only_missing_extraction a) assessments) \<and>
   sorted_wrt (\<lambda>a b. \<not> (map_of (parents_of store) (sa_session_id b) = Some (sa_session_id a) \<and>
      depth_of store (sa_session_id a) \<le> 64)) (sweep_work store assessments)"
proof
  show "mset (sweep_work store assessments) = mset (filter (\<lambda>a. sa_eligible a \<or> only_missing_extraction a) assessments)"
    by (simp add: sweep_work_def)
  have "sorted (map (\<lambda>a. - int (depth_of store (sa_session_id a))) (sweep_work store assessments))"
    by (simp add: sweep_work_def)
  then have "sorted_wrt (\<lambda>a b. - int (depth_of store (sa_session_id a)) \<le> - int (depth_of store (sa_session_id b)))
      (sweep_work store assessments)"
    by (simp add: sorted_wrt_map)
  then show "sorted_wrt (\<lambda>a b. \<not> (map_of (parents_of store) (sa_session_id b) = Some (sa_session_id a) \<and>
      depth_of store (sa_session_id a) \<le> 64)) (sweep_work store assessments)"
    by (rule sorted_wrt_mono_rel [rotated]) (auto dest: depth_child)
qed

section \<open>The account of a sweep\<close>

text \<open>An eligible assessment has no blocker, so the two groups of work are disjoint.\<close>

definition sound_codes :: "assessment \<Rightarrow> bool" where
  "sound_codes a \<longleftrightarrow> \<not> sa_eligible a \<or> sa_blocker_codes a = []"

lemma assess_sound: "assess_candidate_with_graph h g c days w = (Inr a, w') \<Longrightarrow> sound_codes a"
proof -
  assume a: "assess_candidate_with_graph h g c days w = (Inr a, w')"
  have "sa_blocker_codes a = []" if "sa_eligible a"
    using a that assess_with_graph_eligible [of h g c days w a w']
      assess_proof_eligible [of h g c "cutoff_utc h days (interfere h w)" "interfere h (interfere h w)" a w']
    by (auto simp: Let_def eligible_assessment_def)
  then show ?thesis by (auto simp: sound_codes_def)
qed

lemma mapA_all:
  assumes "mapA f xs w = (Inr ys, w')" and "\<And>x y v v'. f x v = (Inr y, v') \<Longrightarrow> P y"
  shows "list_all P ys"
  using assms(1) by (induction xs arbitrary: w ys) (auto simp: bindA_Inr intro: assms(2))

lemma inventory_sound:
  assumes "inventory_of h store days w = (Inr as, w')"
  shows "list_all sound_codes as"
proof -
  from assms obtain g w1 where g: "mapA (assess_or_report h g days) store w1 = (Inr as, w')"
    by (auto simp: inventory_of_def bindA_Inr)
  have early: "sound_codes (early_assessment c x n m k ts)" for c x n m k ts by (simp add: sound_codes_def)
  show ?thesis
  proof (rule mapA_all [OF g])
    fix c a v v'
    assume r: "assess_or_report h g days c v = (Inr a, v')"
    obtain x u where x: "assess_candidate_with_graph h g c days v = (x, u)" by fastforce
    then show "sound_codes a"
      using r by (cases x) (auto simp: assess_or_report_def bindA_def attempt_def early dest: assess_sound)
  qed
qed

lemma sweep_work_length:
  assumes "list_all sound_codes as"
  shows "length (sweep_work store as) = length (filter sa_eligible as) + length (filter only_missing_extraction as)"
    and "length (filter sa_eligible as) + length (filter only_missing_extraction as) \<le> length as"
  using assms by (induction as) (auto simp: sweep_work_def sound_codes_def only_missing_extraction_def)

text \<open>What the receipt says of the items so far.\<close>

definition accounted :: "bool \<Rightarrow> sweep_receipt \<Rightarrow> bool" where
  "accounted execute r \<longleftrightarrow>
     sw_removed r = length (filter (\<lambda>i. si_status i = ''removed'') (sw_items r)) \<and>
     sw_failed r = length (filter (\<lambda>i. si_status i = ''failed'') (sw_items r)) \<and>
     sw_compacted r = length (filter (\<lambda>i. si_compact_bytes i \<noteq> None) (sw_items r)) \<and>
     list_all (\<lambda>i. if execute then si_status i = ''removed'' \<or> si_status i = ''failed''
                  else si_status i = ''compactable'' \<or> si_status i = ''eligible'') (sw_items r)"

definition advanced :: "bool \<Rightarrow> assessment \<Rightarrow> sweep_receipt \<Rightarrow> sweep_receipt \<Rightarrow> bool" where
  "advanced execute a r r' \<longleftrightarrow>
     (accounted execute r \<longrightarrow> accounted execute r') \<and>
     map si_session_id (sw_items r') = map si_session_id (sw_items r) @ [sa_session_id a] \<and>
     sw_total r' = sw_total r \<and> sw_eligible r' = sw_eligible r \<and> sw_compactable r' = sw_compactable r \<and>
     sw_blocked r' = sw_blocked r \<and> sw_executed r' = sw_executed r"

lemma note_links_fields [simp]:
  "accounted execute (note_links l r) = accounted execute r" "sw_items (note_links l r) = sw_items r"
  "sw_total (note_links l r) = sw_total r" "sw_eligible (note_links l r) = sw_eligible r"
  "sw_compactable (note_links l r) = sw_compactable r" "sw_blocked (note_links l r) = sw_blocked r"
  "sw_executed (note_links l r) = sw_executed r" "sw_removed (note_links l r) = sw_removed r"
  "sw_failed (note_links l r) = sw_failed r" "sw_compacted (note_links l r) = sw_compacted r"
  by (simp_all add: note_links_def accounted_def)

lemma note_outcome_advanced: "advanced True a r (note_outcome a note (cb, nb, res) r)"
  by (cases cb; cases res) (simp_all add: advanced_def note_outcome_def Let_def accounted_def)

lemma sweep_item_step_account:
  assumes "sweep_item_step h store root days execute a r w = (Inr r', w')"
  shows "advanced execute a r r'"
proof (cases execute)
  case True
  with assms obtain cb nb res where
    "r' = note_outcome a (link_note (hard_links (sa_targets a) (interfere h w))) (cb, nb, res)
       (note_links (hard_links (sa_targets a) (interfere h w)) r)"
    by (auto simp: sweep_item_step_def bindA_Inr Let_def)
  then have "advanced True a (note_links (hard_links (sa_targets a) (interfere h w)) r) r'"
    by (simp add: note_outcome_advanced)
  then show ?thesis by (simp add: advanced_def True)
next
  case False
  with assms show ?thesis
    by (auto simp: sweep_item_step_def bindA_Inr Let_def advanced_def accounted_def)
qed

lemma foldA_account:
  assumes "foldA (sweep_item_step h store root days execute) work r w = (Inr r', w')" and "accounted execute r"
  shows "accounted execute r' \<and> map si_session_id (sw_items r') = map si_session_id (sw_items r) @ map sa_session_id work \<and>
    sw_total r' = sw_total r \<and> sw_eligible r' = sw_eligible r \<and> sw_compactable r' = sw_compactable r \<and>
    sw_blocked r' = sw_blocked r \<and> sw_executed r' = sw_executed r"
  using assms
proof (induction work arbitrary: r w)
  case (Cons a work)
  then obtain r1 w1 where s: "sweep_item_step h store root days execute a r w = (Inr r1, w1)"
    and f: "foldA (sweep_item_step h store root days execute) work r1 w1 = (Inr r', w')"
    by (auto simp: bindA_Inr)
  have a: "advanced execute a r r1" by (rule sweep_item_step_account [OF s])
  then have "accounted execute r1" using Cons.prems(2) by (simp add: advanced_def)
  from Cons.IH [OF f this] a show ?case by (simp add: advanced_def)
qed simp

text \<open>The receipt of a sweep adds up: every session is eligible, compactable or blocked, the items are the sessions
  worked on in order, each is counted once as removed or failed when the sweep executes, and the compacted
  ones are those with a transcript size.\<close>

theorem sweep_adds_up:
  assumes "sweep h s root days execute w = (Inr r, w')"
  shows "sw_total r = sw_eligible r + sw_compactable r + sw_blocked r \<and> sw_executed r = execute \<and>
    length (sw_items r) = sw_eligible r + sw_compactable r \<and>
    sw_compacted r = length (filter (\<lambda>i. si_compact_bytes i \<noteq> None) (sw_items r)) \<and>
    sw_removed r + sw_failed r = (if execute then length (sw_items r) else 0) \<and>
    (\<exists>store as. map si_session_id (sw_items r) = map sa_session_id (sweep_work store as))"
proof -
  obtain store w1 as w2 where i: "inventory_of h store days w1 = (Inr as, w2)"
    and f: "foldA (sweep_item_step h store root days execute) (sweep_work store as) (sweep_start as execute) w2 = (Inr r, w')"
    using assms by (auto simp: sweep_def bindA_Inr)
  note n = sweep_work_length [OF inventory_sound [OF i]]
  have z: "accounted execute (sweep_start as execute)" by (simp add: accounted_def sweep_start_def Let_def)
  note a = foldA_account [OF f z]
  have st: "sw_total (sweep_start as execute) = length as" "sw_eligible (sweep_start as execute) = length (filter sa_eligible as)"
    "sw_compactable (sweep_start as execute) = length (filter only_missing_extraction as)"
    "sw_blocked (sweep_start as execute) = length as - length (filter sa_eligible as) - length (filter only_missing_extraction as)"
    "sw_items (sweep_start as execute) = []" "sw_executed (sweep_start as execute) = execute"
    by (simp_all add: sweep_start_def Let_def)
  have l: "length (sw_items r) = length (sweep_work store as)" using a st(5) by (metis append_Nil length_map list.map(1))
  have c: "length (filter (\<lambda>i. si_status i = ''removed'') xs) + length (filter (\<lambda>i. si_status i = ''failed'') xs) =
      (if execute then length xs else 0)"
    if "list_all (\<lambda>i. if execute then si_status i = ''removed'' \<or> si_status i = ''failed''
                  else si_status i = ''compactable'' \<or> si_status i = ''eligible'') xs" for xs
    using that by (induction xs) (auto split: if_splits)
  show ?thesis
    using a st l n c [of "sw_items r"] unfolding accounted_def by auto
qed

end
