(* ===== verification/Compaction.thy ===== *)
theory Compaction
  imports Sweep Edge_Write
begin

text \<open>
  What compaction is for (\<open>session_retention/compact.rs\<close> with \<open>policy.rs\<close>): on a host where nothing else
  interferes, a session that was compacted is justified to go at the next assessment.  The theory connects
  the journal entries that compaction writes with the graph that the policy reads.
\<close>

section \<open>The entries of a compaction\<close>

lemma obj_of_distinct: "distinct (map fst (obj_of kvs))"
  by (rule omap_ok_distinct) simp

lemma node_object_last:
  assumes "distinct (map fst m)" and "map_of m k = Some v" and "k \<noteq> ''observed_utc''"
  shows "map_of (node_object i (h @ [(m, env)])) k = Some v"
proof -
  have "map_of (rev m) k = Some v"
    using assms(1,2) by (simp add: map_of_eq_Some_iff [of "rev m"] map_of_eq_Some_iff rev_map [symmetric])
  then show ?thesis using assms(2,3) by (simp add: node_object_other map_add_Some_iff)
qed

lemma upsert_new_entry:
  "upsert_of i (event_value (new_entry L secs ''node.upsert'' (JObj m))) =
     (if Option.bind (map_of m ''id'') as_str = Some i then Some (m, Some (format_utc secs)) else None)"
  by (simp add: upsert_of_def event_value_parts new_entry_def)

lemma node_of_entry:
  assumes "e \<in> set es" and "e = new_entry L secs ''node.upsert'' (JObj m)" and "map_of m ''id'' = Some (JStr i)"
  shows "map_of (nodes (graph_of es)) i \<noteq> None"
proof -
  have "upsert_of i (event_value e) \<noteq> None" using assms(2,3) by (simp add: upsert_new_entry)
  then have "history i (map event_value es) \<noteq> []"
    using assms(1) by (auto simp: history_def List.map_filter_def filter_empty_conv)
  then show ?thesis by (simp add: node_history)
qed

definition proof_entries :: "lib \<Rightarrow> candidate \<Rightarrow> string \<Rightarrow> json \<Rightarrow> json \<Rightarrow> nat \<Rightarrow> nat \<Rightarrow> nat \<Rightarrow> journal_entry list" where
  "proof_entries L c nid transcript attestation s1 s2 s3 =
     [new_entry L s1 ''node.upsert'' transcript,
      new_entry L s2 ''edge.assert'' (provenance_payload nid (conversation_id c)),
      new_entry L s3 ''node.upsert'' attestation]"

lemma provenance_row:
  assumes "s < 253402300800"
  shows "\<exists>row. asserted (event_value (new_entry L s ''edge.assert'' (provenance_payload nid conv))) = Some row \<and>
    e_from row = nid \<and> e_to row = conv \<and> e_edge row = edge_of_str ''DERIVED_FROM'' \<and> \<not> e_retracted row \<and>
    e_valid_from row = format_utc s \<and> e_valid_until row = None"
  using format_utc_canonical [OF assms]
  by (simp add: asserted_def provenance_payload_def event_value_parts new_entry_def assert_row_def edge_ends_def
      obj_of_map_of Materialize.or_else_def Let_def)

lemma proof_entries_row:
  assumes "s2 < 253402300800" and "secs < 253402300800" and "s2 \<le> secs"
  shows "\<exists>e \<in> set (edges (materialize secs (map event_value (es @ proof_entries L c nid (JObj m) (JObj m') s1 s2 s3)) None False)).
    \<not> e_retracted e \<and> e_from e = nid \<and> e_to e = conversation_id c \<and> is_provenance_edge e"
proof -
  obtain row where row: "asserted (event_value (new_entry L s2 ''edge.assert'' (provenance_payload nid (conversation_id c)))) = Some row"
    "e_from row = nid" "e_to row = conversation_id c" "e_edge row = edge_of_str ''DERIVED_FROM''" "\<not> e_retracted row"
    "e_valid_from row = format_utc s2" "e_valid_until row = None"
    using provenance_row [OF assms(1)] by blast
  have "\<not> retracts row (event_value (new_entry L s ''node.upsert'' (JObj m)))" for s m
    by (simp add: retracts_def event_value_parts new_entry_def)
  then have "row \<in> set (rows_of (map event_value (proof_entries L c nid (JObj m) (JObj m') s1 s2 s3)))"
    using row(1) by (simp add: proof_entries_def mark_def)
  then have "row \<in> set (rows_of (map event_value (es @ proof_entries L c nid (JObj m) (JObj m') s1 s2 s3)))"
    by (simp add: rows_of_append)
  moreover have "format_utc s2 \<le> format_utc secs"
    using format_utc_less [of s2 secs] assms by (cases "s2 = secs") auto
  ultimately have "row \<in> set (edges (materialize secs (map event_value (es @ proof_entries L c nid (JObj m) (JObj m') s1 s2 s3)) None False))"
    by (simp add: edges_materialize row_valid_def row(6,7))
  moreover have "edge_name (edge_of_str ''DERIVED_FROM'') = ''DERIVED_FROM''" by code_simp
  ultimately show ?thesis using row(2-5) unfolding is_provenance_edge_def by fastforce
qed

lemma proof_entries_entitle:
  assumes t: "map_of m ''id'' = Some (JStr nid)"
    and times: "s2 < 253402300800" "secs < 253402300800" "s2 \<le> secs"
  shows "entitled (materialize secs (map event_value (es @ proof_entries L c nid (JObj m)
     (attestation_payload pid label prov (source_str (cd_source c)) (cd_id c) sha now n [nid] SCHEMA) s1 s2 s3)) None False) c sha"
proof -
  define m' where "m' = obj_of [(''id'', JStr pid), (''type'', JStr ''SessionRetentionReceipt''), (''label'', JStr label),
      (''provenance'', JStr prov), (''schema'', JStr SCHEMA), (''session_id'', JStr (cd_id c)),
      (''source'', JStr (source_str (cd_source c))), (''source_sha256'', JStr sha), (''source_bytes'', jnat n),
      (''knowledge_node_ids'', JArr (map JStr [nid])), (''extraction_complete'', JBool True),
      (''session_closed'', JBool True), (''observed_utc'', JStr now)]"
  have a: "attestation_payload pid label prov (source_str (cd_source c)) (cd_id c) sha now n [nid] SCHEMA = JObj m'"
    by (simp add: attestation_payload_def m'_def)
  define es' where "es' = es @ proof_entries L c nid (JObj m) (JObj m') s1 s2 s3"
  define g where "g = materialize secs (map event_value es') None False"
  have nodes_g: "nodes g = nodes (graph_of es')" by (simp add: g_def edges_materialize)
  have "map_of (nodes (graph_of es')) nid \<noteq> None"
    using t by (intro node_of_entry [where e = "new_entry L s1 ''node.upsert'' (JObj m)"]) (simp_all add: es'_def proof_entries_def)
  then have k: "linked g (conversation_id c) nid"
    using proof_entries_row [OF times, of es L c nid m m' s1 s3]
    unfolding linked_def nodes_g by (simp add: g_def es'_def)
  let ?h = "history pid (map event_value (es @ butlast (proof_entries L c nid (JObj m) (JObj m') s1 s2 s3)))"
  have id: "map_of m' ''id'' = Some (JStr pid)" by (simp add: m'_def obj_of_map_of)
  have hist: "history pid (map event_value es') = ?h @ [(m', Some (format_utc s3))]"
    by (simp add: es'_def proof_entries_def history_def List.map_filter_def upsert_new_entry id)
  let ?o = "node_object pid (?h @ [(m', Some (format_utc s3))])"
  have f: "map_of ?o k = Some v" if "map_of m' k = Some v" "k \<noteq> ''observed_utc''" for k v
    using that by (intro node_object_last) (simp_all add: m'_def obj_of_distinct)
  have "map_of (nodes g) pid = Some (JObj ?o)"
    unfolding nodes_g using hist by (simp add: node_history)
  then have "JObj ?o \<in> snd ` set (nodes g)" by (force dest: map_of_SomeD)
  moreover have "proves g c sha (JObj ?o)"
  proof -
    have "map_of ?o ''schema'' = Some (JStr SCHEMA)" "map_of ?o ''session_id'' = Some (JStr (cd_id c))"
      "map_of ?o ''source'' = Some (JStr (source_str (cd_source c)))" "map_of ?o ''source_sha256'' = Some (JStr sha)"
      "map_of ?o ''knowledge_node_ids'' = Some (JArr [JStr nid])" "map_of ?o ''extraction_complete'' = Some (JBool True)"
      "map_of ?o ''session_closed'' = Some (JBool True)"
      by (intro f; simp add: m'_def obj_of_map_of)+
    then show ?thesis
      using k by (simp add: proves_def is_proof_candidate_def knowledge_of_def jget_str_def List.map_filter_simps)
  qed
  ultimately have "entitled g c sha" unfolding entitled_def by (rule bexI [rotated])
  then show ?thesis by (simp add: g_def es'_def a)
qed

lemma materialize_distinct: "distinct (map fst (nodes (materialize secs (map event_value es) None b)))"
proof -
  have "omap_ok (nodes (fold apply_event (map event_value es) empty_graph))"
    by (rule nodes_fold_ok) (simp add: empty_graph_def)
  then show ?thesis by (simp add: edges_materialize omap_ok_def strict_sorted_iff)
qed

section \<open>Compaction on a steady host\<close>

text \<open>Nothing else happens, and the clock does not run backwards.\<close>

definition steady :: "host \<Rightarrow> bool" where
  "steady h \<longleftrightarrow>
     (\<forall>n w. h_others h n w = w) \<and> (\<forall>v w. w_step v \<le> w_step w \<longrightarrow> h_now h v \<le> h_now h w) \<and>
     (\<forall>w. h_now h w div 10 ^ 9 < 253402300800)"

lemma steady_interfere [simp]:
  assumes "steady h"
  shows "w_files (interfere h w) = w_files w" "w_store (interfere h w) = w_store w"
    "w_step (interfere h w) = Suc (w_step w)"
  using assms by (simp_all add: steady_def interfere_def)

text \<open>The library reads back each entry that the compaction may write, at every reading of the clock.\<close>

definition compaction_reads ::
  "host \<Rightarrow> candidate \<Rightarrow> session_bundle \<Rightarrow> string \<Rightarrow> nat \<Rightarrow> string list \<Rightarrow> bool" where
  "compaction_reads h c b content messages warnings \<longleftrightarrow>
     (\<forall>v u. let s = h_now h v div 10 ^ 9; now = format_utc (h_now h u div 10 ^ 9) in
        reads_back (h_lib h) (new_entry (h_lib h) s ''node.upsert'' (conversation_payload c)) \<and>
        reads_back (h_lib h) (new_entry (h_lib h) s ''node.upsert'' (transcript_node h c b content messages warnings now)) \<and>
        reads_back (h_lib h) (new_entry (h_lib h) s ''edge.assert''
          (provenance_payload (transcript_id h c content) (conversation_id c))) \<and>
        reads_back (h_lib h) (new_entry (h_lib h) s ''node.upsert'' (compact_proof h c b content now)))"

text \<open>The store holds the entries, and the files and the step are as given.\<close>

definition holds :: "host \<Rightarrow> journal_entry list \<Rightarrow> files \<Rightarrow> nat \<Rightarrow> world \<Rightarrow> bool" where
  "holds h es fs n w \<longleftrightarrow> journal_is (h_lib h) es (w_store w) \<and> w_files w = fs \<and> n \<le> w_step w"

lemma holds_later:
  "steady h \<Longrightarrow> holds h es fs n w \<Longrightarrow> holds h es fs n (interfere h w)"
  "holds h es fs n w \<Longrightarrow> m \<le> n \<Longrightarrow> holds h es fs m w"
  by (simp_all add: holds_def)

lemma open_holds:
  assumes "steady h" and "holds h es fs n w" and "open_journal h w = (r, w')"
  shows "holds h es fs n w'"
  using assms journal_is_open [of "h_lib h" es "w_store w" "h_qdir h" "h_now h (interfere h w) div 10 ^ 9"]
  by (auto simp: open_journal_def holds_def)

lemma load_holds:
  assumes "steady h" and "holds h es fs n w" and "load_graph h w = (r, w')"
  shows "holds h es fs n w'" and "\<exists>v. n \<le> w_step v \<and>
    r = Inr (in_map_order (h_order h v) (materialize (h_now h v div 10 ^ 9) (map event_value es) None False))"
proof -
  obtain r1 w1 where o: "open_journal h w = (r1, w1)" by (cases "open_journal h w")
  have h1: "holds h es fs n w1" by (rule open_holds [OF assms(1,2) o])
  have "r1 = Inr ()"
    using o assms(1,2) journal_is_open [of "h_lib h" es "w_store w" "h_qdir h" "h_now h (interfere h w) div 10 ^ 9"]
    by (auto simp: open_journal_def holds_def)
  then have l: "load_graph h w = read_graph h w1" using o by (simp add: load_graph_def bindA_def)
  have "read_all (h_lib h) (w_store w1) = Inr es" using h1 by (simp add: holds_def journal_is_read)
  then have "r = Inr (in_map_order (h_order h (interfere h w1))
      (materialize (h_now h (interfere h w1) div 10 ^ 9) (map event_value es) None False))" "w' = interfere h w1"
    using l assms(1,3) by (auto simp: read_graph_def)
  then show "holds h es fs n w'" "\<exists>v. n \<le> w_step v \<and>
      r = Inr (in_map_order (h_order h v) (materialize (h_now h v div 10 ^ 9) (map event_value es) None False))"
    using h1 assms(1) holds_later by (auto simp: holds_def intro!: exI [of _ "interfere h w1"])
qed

lemma append_holds:
  assumes "steady h" and "holds h es fs n w" and "append_journal h op pl w = (Inr u, w')"
    and "\<And>v. reads_back (h_lib h) (new_entry (h_lib h) (h_now h v div 10 ^ 9) op pl)"
  shows "\<exists>v. n \<le> w_step v \<and> holds h (es @ [new_entry (h_lib h) (h_now h v div 10 ^ 9) op pl]) fs (w_step v) w'"
proof -
  let ?v = "interfere h w"
  obtain x st where a: "journal_append (h_lib h) (h_now h ?v div 10 ^ 9) op pl (w_store w) = (x, st)"
    by (cases "journal_append (h_lib h) (h_now h ?v div 10 ^ 9) op pl (w_store w)")
  with assms(1,3) obtain i where "x = Inr i" "w' = ?v\<lparr>w_store := st\<rparr>"
    by (auto simp: append_journal_def split: sum.splits)
  moreover from a this(1) have "journal_is (h_lib h) (es @ [new_entry (h_lib h) (h_now h ?v div 10 ^ 9) op pl]) st"
    using assms(2,4) by (intro journal_is_append) (auto simp: holds_def)
  ultimately show ?thesis using assms(1,2) by (intro exI [of _ ?v]) (simp add: holds_def)
qed

lemma record_compaction_holds:
  assumes st: "steady h" and w: "holds h es fs n w" and rd: "compaction_reads h c b content messages warnings"
    and run: "record_compaction h c b content messages warnings w = (Inr r, w')"
  shows "\<exists>pre now1 now2 v1 v2 v3.
    holds h (es @ pre @ proof_entries (h_lib h) c (transcript_id h c content)
      (transcript_node h c b content messages warnings now1) (compact_proof h c b content now2)
      (h_now h v1 div 10 ^ 9) (h_now h v2 div 10 ^ 9) (h_now h v3 div 10 ^ 9)) fs (w_step v2) w'"
proof -
  from run obtain u1 w1 g w2 u3 w3 now1 w4 u5 w5 u6 w6 now2 w7 u8 w8 where s:
    "open_journal h w = (Inr u1, w1)" "load_graph h w1 = (Inr g, w2)"
    "(if map_of (nodes g) (conversation_id c) = None then append_journal h ''node.upsert'' (conversation_payload c)
      else okA ()) w2 = (Inr u3, w3)"
    "observed_utc_now h w3 = (Inr now1, w4)"
    "append_journal h ''node.upsert'' (transcript_node h c b content messages warnings now1) w4 = (Inr u5, w5)"
    "append_journal h ''edge.assert'' (provenance_payload (transcript_id h c content) (conversation_id c)) w5 = (Inr u6, w6)"
    "observed_utc_now h w6 = (Inr now2, w7)"
    "append_journal h ''node.upsert'' (compact_proof h c b content now2) w7 = (Inr u8, w8)" "w' = w8"
    unfolding record_compaction_def bindA_Inr by auto
  have now: "now1 = format_utc (h_now h w4 div 10 ^ 9)" "w4 = interfere h w3"
      "now2 = format_utc (h_now h w7 div 10 ^ 9)" "w7 = interfere h w6"
    using s(4,7) by (auto simp: observed_utc_now_def)
  have rb: "reads_back (h_lib h) (new_entry (h_lib h) (h_now h v div 10 ^ 9) ''node.upsert'' (conversation_payload c))"
      "reads_back (h_lib h) (new_entry (h_lib h) (h_now h v div 10 ^ 9) ''node.upsert'' (transcript_node h c b content messages warnings now1))"
      "reads_back (h_lib h) (new_entry (h_lib h) (h_now h v div 10 ^ 9) ''edge.assert''
          (provenance_payload (transcript_id h c content) (conversation_id c)))"
      "reads_back (h_lib h) (new_entry (h_lib h) (h_now h v div 10 ^ 9) ''node.upsert'' (compact_proof h c b content now2))" for v
    using rd unfolding compaction_reads_def Let_def now(1,3) by blast+
  have h2: "holds h es fs n w2" by (rule load_holds(1) [OF st open_holds [OF st w s(1)] s(2)])
  obtain pre where h3: "holds h (es @ pre) fs n w3"
  proof (cases "map_of (nodes g) (conversation_id c) = None")
    case True
    then have "append_journal h ''node.upsert'' (conversation_payload c) w2 = (Inr u3, w3)" using s(3) by simp
    from append_holds [OF st h2 this rb(1)] show thesis using that by (blast intro: holds_later(2))
  next
    case False
    have "(okA () :: (rerror, unit) act) w2 = (Inr u3, w3)" using s(3) unfolding if_not_P [OF False] .
    then show thesis using h2 that [of "[]"] by simp
  qed
  have h4: "holds h (es @ pre) fs n w4" using holds_later(1) [OF st h3] now(2) by simp
  from append_holds [OF st h4 s(5) rb(2)] obtain v1 where v1: "n \<le> w_step v1"
    "holds h ((es @ pre) @ [new_entry (h_lib h) (h_now h v1 div 10 ^ 9) ''node.upsert'' (transcript_node h c b content messages warnings now1)])
      fs (w_step v1) w5" by blast
  from append_holds [OF st v1(2) s(6) rb(3)] obtain v2 where v2: "w_step v1 \<le> w_step v2"
    "holds h (((es @ pre) @ [new_entry (h_lib h) (h_now h v1 div 10 ^ 9) ''node.upsert'' (transcript_node h c b content messages warnings now1)]) @
      [new_entry (h_lib h) (h_now h v2 div 10 ^ 9) ''edge.assert'' (provenance_payload (transcript_id h c content) (conversation_id c))])
      fs (w_step v2) w6" by blast
  have h7: "holds h (((es @ pre) @ [new_entry (h_lib h) (h_now h v1 div 10 ^ 9) ''node.upsert'' (transcript_node h c b content messages warnings now1)]) @
      [new_entry (h_lib h) (h_now h v2 div 10 ^ 9) ''edge.assert'' (provenance_payload (transcript_id h c content) (conversation_id c))])
      fs (w_step v2) w7" using holds_later(1) [OF st v2(2)] now(4) by simp
  from append_holds [OF st h7 s(8) rb(4)] obtain v3 where v3: "w_step v2 \<le> w_step v3"
    "holds h ((((es @ pre) @ [new_entry (h_lib h) (h_now h v1 div 10 ^ 9) ''node.upsert'' (transcript_node h c b content messages warnings now1)]) @
      [new_entry (h_lib h) (h_now h v2 div 10 ^ 9) ''edge.assert'' (provenance_payload (transcript_id h c content) (conversation_id c))]) @
      [new_entry (h_lib h) (h_now h v3 div 10 ^ 9) ''node.upsert'' (compact_proof h c b content now2)]) fs (w_step v3) w8" by blast
  then show ?thesis
    using s(9) holds_later(2) [OF v3(2,1)]
    by (intro exI [of _ pre] exI [of _ now1] exI [of _ now2] exI [of _ v1] exI [of _ v2] exI [of _ v3])
      (simp add: proof_entries_def)
qed

section \<open>The session's own file\<close>

text \<open>A file that is there stays as it is, and so does the journal.\<close>

definition kept :: "string list \<Rightarrow> world \<Rightarrow> world \<Rightarrow> bool" where
  "kept p w w' \<longleftrightarrow>
     (map_of (w_files w) p = None \<or> map_of (w_files w') p = map_of (w_files w) p) \<and>
     w_store w' = w_store w \<and> w_step w \<le> w_step w'"

interpretation kept: frame_relation "kept p"
  by unfold_locales (auto simp: kept_def)

lemma keeps_kept_files:
  assumes "steady h" and "\<And>fs fs'. f fs = Inr fs' \<Longrightarrow> map_of fs p = None \<or> map_of fs' p = map_of fs p"
  shows "keeps (kept p) (change_files h f)"
  using assms by (auto simp: keeps_def change_files_def kept_def split: sum.split)

lemma keeps_kept_observe: "steady h \<Longrightarrow> keeps (kept p) (observe h f)"
  by (simp add: keeps_def kept_def)

lemma create_dir_kept: "kept p w (snd (create_dir_all h dir w))"
proof -
  have "kept p w v" if "foldE (ensure_dir h dir) (prefixes dir) w = Inr v" for v
    using that kept.refl
    by (rule foldE_invariant) (auto simp: ensure_dir_def kept_def put_entry_def split: if_splits)
  then show ?thesis by (auto simp: create_dir_all_def kept.refl split: sum.split)
qed

lemma keeps_create_dir: "steady h \<Longrightarrow> keeps (kept p) (change h (create_dir_all h dir))"
  by (rule kept.keeps_change) (simp_all add: create_dir_kept, simp add: kept_def)

lemma keeps_write_dialogue:
  assumes "steady h" and "p \<noteq> partial_path h c"
  shows "keeps (kept p) (write_dialogue h c)"
proof -
  have c: "keeps (kept p) (change h (create_file h (partial_path h c)))"
    using assms by (auto simp: keeps_def create_file_def kept_def put_entry_def split: option.split inode_kind.split)
  show ?thesis
    unfolding write_dialogue_def Let_def
    using assms(2)
    by (intro kept.keeps_bind kept.keeps_ok keeps_split keeps_prod c keeps_kept_observe keeps_kept_files assms(1))
      (auto simp: write_all_def put_entry_def split: option.splits)
qed

lemma bundle_of_file:
  "cd_source c \<noteq> Opencode \<Longrightarrow> bundle_of h c w = (file_bundle h (w_files (interfere h w)) c, interfere h w)"
  by (simp add: bundle_of_def)

lemma keeps_run: "keeps R m \<Longrightarrow> m w = (x, w') \<Longrightarrow> R w w'"
  by (auto simp: keeps_def dest: spec [of _ w])

text \<open>A compaction that succeeds found the file of the session as it was, wrote its dialogue, and recorded it.\<close>

lemma compaction_steps:
  assumes st: "steady h" and src: "cd_source c \<noteq> Opencode" and p: "p \<noteq> partial_path h c" "p \<noteq> compact_path h c"
    and run: "compact_and_attest h c w = (Inr r, w')"
  obtains b content messages warnings u v u' where
    "file_bundle h (w_files w) c = Inr b" "kept p w v"
    "write_dialogue h c u = (Inr (content, messages, warnings), u')"
    "record_compaction h c b content messages warnings v = (Inr r, w')"
proof -
  from run obtain b w1 x1 w2 x2 w3 x3 w4 where s: "bundle_of h c w = (Inr b, w1)"
    "require_idle h (cd_source c) (b_targets b) (RProof ''native session has an open file handle'') RProof w1 = (Inr x1, w2)"
    "change h (create_dir_all h (butlast (compact_path h c))) w2 = (Inr x2, w3)"
    "write_dialogue h c w3 = (x3, w4)"
    and rest: "(case x3 of
       Inl e \<Rightarrow> bindA (attempt (change_files h (remove_file (partial_path h c)))) (\<lambda>_. failA e)
     | Inr (content, messages, warnings) \<Rightarrow>
         bindA (bundle_of h c) (\<lambda>after.
         if b_sha256 after \<noteq> b_sha256 b then
           bindA (attempt (change_files h (remove_file (partial_path h c)))) (\<lambda>_.
           failA (RProof ''native session changed while compacting''))
         else
           bindA (change_files h (rename_file (partial_path h c) (compact_path h c))) (\<lambda>_.
           record_compaction h c b content messages warnings))) w4 = (Inr r, w')"
    unfolding compact_and_attest_def bindA_Inr attempt_eq by (auto simp del: act_simps)
  from rest obtain content messages warnings where x3: "x3 = Inr (content, messages, warnings)"
    by (cases x3) (auto simp: bindA_Inr)
  with rest obtain b' w5 x6 w6 where t: "bundle_of h c w4 = (Inr b', w5)"
    "change_files h (rename_file (partial_path h c) (compact_path h c)) w5 = (Inr x6, w6)"
    "record_compaction h c b content messages warnings w6 = (Inr r, w')"
    by (auto simp: bindA_Inr split: if_splits)
  have ren: "map_of fs p = None \<or> map_of fs' p = map_of fs p"
    if "rename_file (partial_path h c) (compact_path h c) fs = Inr fs'" for fs fs'
    using that p by (auto simp: rename_file_def put_entry_def map_of_filter_key split: option.splits if_splits)
  have "kept p w w1" "kept p w4 w5" using s(1) t(1) st by (auto simp: bundle_of_file [OF src] kept_def)
  moreover have "kept p w1 w2" using s(2) st by (auto simp: require_idle_Inr kept_def)
  moreover have "kept p w2 w3" by (rule keeps_run [OF keeps_create_dir [OF st] s(3)])
  moreover have "kept p w3 w4" by (rule keeps_run [OF keeps_write_dialogue [OF st p(1)] s(4)])
  moreover have "kept p w5 w6" by (rule keeps_run [OF keeps_kept_files [OF st ren] t(2)])
  ultimately have "kept p w w6" by (blast intro: kept.trans)
  moreover have "file_bundle h (w_files w) c = Inr b" using s(1) st by (simp add: bundle_of_file [OF src])
  ultimately show thesis using that s(4) x3 t(3) by blast
qed

definition physical :: "host \<Rightarrow> string list \<Rightarrow> bool" where
  "physical h p \<longleftrightarrow> (\<forall>fs. h_canon h fs p = map_option (\<lambda>_. p) (map_of fs p))"

lemma file_bundle_physical:
  assumes "physical h (cd_path c)" and "cd_source c \<noteq> Antigravity"
  shows "file_bundle h fs c = Inr b \<Longrightarrow> map_of fs (cd_path c) \<noteq> None \<and> b_targets b = [cd_path c]"
    and "map_of fs' (cd_path c) = map_of fs (cd_path c) \<Longrightarrow> file_bundle h fs' c = file_bundle h fs c"
  using assms
  by (auto simp: file_bundle_def hash_session_file_def read_file_def physical_def split: option.splits)
    (cases "map_of fs (cd_path c)"; simp)+

lemma transcript_node_object:
  "\<exists>m. transcript_node h c b content messages warnings now = JObj m \<and> map_of m ''id'' = Some (JStr (transcript_id h c content))"
  by (simp add: transcript_node_def transcript_payload_def obj_of_map_of)

section \<open>Property\<close>

text \<open>C10. Compaction makes progress: on a host where nothing else interferes, once a session that keeps its bytes in one
  file and is old and idle has been compacted, the next assessment is justified to let it go, with the very digest
  that the compaction recorded.  The journal must consist of whole entries and the library read back the
  entries that are written.\<close>

theorem compaction_proves_the_session:
  assumes st: "steady h" and src: "cd_source c \<notin> {Opencode, Antigravity}" and phys: "physical h (cd_path c)"
    and path: "cd_path c \<notin> {partial_path h c, compact_path h c}"
    and idle: "\<And>v. session_activity h [cd_path c] v = Idle"
    and old: "cd_modified c = Some m" "is_trustworthy_modified (Some m)" "\<And>v. m < cutoff_utc h days v"
    and journal: "journal_is (h_lib h) es (w_store w)"
    and reads: "\<And>b content messages warnings u u'. file_bundle h (w_files w) c = Inr b \<Longrightarrow>
      write_dialogue h c u = (Inr (content, messages, warnings), u') \<Longrightarrow> compaction_reads h c b content messages warnings"
    and run: "compact_and_attest h c w = (Inr r, w')"
  shows "\<exists>cutoff b w''. justified h c days w' cutoff b w'' \<and> b_sha256 b = cr_source_sha256 r"
proof -
  have src': "cd_source c \<noteq> Opencode" "cd_source c \<noteq> Antigravity" using src by auto
  have p: "cd_path c \<noteq> partial_path h c" "cd_path c \<noteq> compact_path h c" using path by auto
  obtain b content messages warnings u v u' where s: "file_bundle h (w_files w) c = Inr b" "kept (cd_path c) w v"
    "write_dialogue h c u = (Inr (content, messages, warnings), u')"
    "record_compaction h c b content messages warnings v = (Inr r, w')"
    by (rule compaction_steps [OF st src'(1) p run])
  note fb = file_bundle_physical [OF phys src'(2)]
  have v: "map_of (w_files v) (cd_path c) = map_of (w_files w) (cd_path c)" "w_store v = w_store w"
    using s(2) fb(1) [OF s(1)] by (auto simp: kept_def)
  have "holds h es (w_files v) (w_step v) v" using journal v by (simp add: holds_def)
  from record_compaction_holds [OF st this reads [OF s(1,3)] s(4)] obtain pre now1 now2 v1 v2 v3 where
    h: "holds h (es @ pre @ proof_entries (h_lib h) c (transcript_id h c content)
      (transcript_node h c b content messages warnings now1) (compact_proof h c b content now2)
      (h_now h v1 div 10 ^ 9) (h_now h v2 div 10 ^ 9) (h_now h v3 div 10 ^ 9)) (w_files v) (w_step v2) w'"
    by blast
  obtain x w1 where l: "load_graph h w' = (x, w1)" by (cases "load_graph h w'")
  from load_holds [OF st h l] obtain t where w1: "w_files w1 = w_files v" and t: "w_step v2 \<le> w_step t"
    and x: "x = Inr (in_map_order (h_order h t) (materialize (h_now h t div 10 ^ 9) (map event_value (es @ pre @ proof_entries (h_lib h) c (transcript_id h c content)
      (transcript_node h c b content messages warnings now1) (compact_proof h c b content now2)
      (h_now h v1 div 10 ^ 9) (h_now h v2 div 10 ^ 9) (h_now h v3 div 10 ^ 9))) None False))" (is "x = Inr (in_map_order _ ?m)")
    by (auto simp: holds_def)
  have times: "h_now h v2 div 10 ^ 9 < 253402300800" "h_now h t div 10 ^ 9 < 253402300800"
      "h_now h v2 div 10 ^ 9 \<le> h_now h t div 10 ^ 9"
    using st t by (auto simp: steady_def intro: div_le_mono)
  let ?g = "in_map_order (h_order h t) ?m"
  have ent: "entitled ?m c (b_sha256 b)"
    using transcript_node_object [of h c b content messages warnings now1]
      proof_entries_entitle [OF _ times, of _ "transcript_id h c content" "es @ pre" "h_lib h" c]
    by (auto simp: compact_proof_def)
  let ?w3 = "interfere h (interfere h (interfere h w1))"
  have f: "w_files ?w3 = w_files v" using st w1 by simp
  have b': "bundle_of h c (interfere h (interfere h w1)) = (Inr b, ?w3)"
    using s(1) fb(2) [OF v(1)] f by (simp add: bundle_of_file [OF src'(1)])
  have "justified h c days w' (cutoff_utc h days (interfere h w1)) b (interfere h ?w3)"
    unfolding justified_def
  proof (intro exI conjI)
    show "load_graph h w' = (Inr ?g, w1)" using l x by simp
    show "list_ex (path_exists h (w_files (interfere h (interfere h w1))))
       (candidate_targets h (w_files (interfere h (interfere h w1))) c)"
      using fb(1) [OF s(1)] v(1) phys w1 st src'(2) by (simp add: candidate_targets_def path_exists_def physical_def)
    show "child_blockers h c ?w3 = (Inr [], ?w3)" using src'(1) by (simp add: child_blockers_def)
    show "session_activity h (liveness_targets (cd_source c) (b_targets b)) (interfere h ?w3) = Idle"
      using idle fb(1) [OF s(1)] src'(1) by (simp add: liveness_targets_def)
    show "cd_modified c = Some m" "is_trustworthy_modified (Some m)" "m < cutoff_utc h days (interfere h w1)"
      by (rule old)+
    show "bundle_of h c (interfere h (interfere h w1)) = (Inr b, ?w3)" by (rule b')
    show "entitled ?g c (b_sha256 b)" by (rule iffD2 [OF entitled_in_map_order [OF materialize_distinct] ent])
  qed (rule refl)+
  moreover have "cr_source_sha256 r = b_sha256 b"
    using s(4) by (auto simp: record_compaction_def bindA_Inr)
  ultimately show ?thesis by auto
qed

section \<open>An example\<close>

text \<open>The session of \<open>ex_session\<close>, without an attestation, on a host whose library prints a value as its type
  and reads back what a compaction writes.\<close>

definition ly_ser :: "json \<Rightarrow> string" where
  "ly_ser v = (case jget_str v ''type'' of None \<Rightarrow> ''x'' | Some t \<Rightarrow> t)"

definition ly_base :: lib where
  "ly_base = \<lparr>x_sha = (\<lambda>_. replicate 32 0), x_ser = ly_ser,
     x_parse = (\<lambda>_. Some (jobj [(''id'', JStr []), (''op'', JStr [])])), x_entry = (\<lambda>_. None)\<rparr>"

definition ly_node :: string where
  "ly_node = ''compact-transcript:claude:s:0000000000000000''"

definition ly_bundle :: session_bundle where
  "ly_bundle = \<lparr>b_sha256 = zero_digest, b_bytes = 4, b_targets = [[''d'', ''s'']]\<rparr>"

definition ly_payloads :: "(string \<times> json) list" where
  "ly_payloads =
     [(''node.upsert'', conversation_payload (ex_session Claude)),
      (''node.upsert'', transcript_payload (ex_session Claude) ly_node (COMPACT_DIR @ [''claude'', ''s.jsonl'']) zero_digest 0 0
         ly_bundle [] (format_utc 1)),
      (''edge.assert'', provenance_payload ly_node (conversation_id (ex_session Claude))),
      (''node.upsert'', attestation_payload (''session-retention:claude:s:'' @ take 16 zero_digest)
         ''compact retention proof claude:s'' ''innen retention sweep (compact)'' ''claude'' ''s'' zero_digest (format_utc 1) 4 [ly_node] SCHEMA)]"

definition ly_line :: "string \<Rightarrow> string" where
  "ly_line t = ''{'' @ [CHR 0x22] @ ''id'' @ [CHR 0x22] @ '':x,'' @ [CHR 0x22] @ ''observed_utc'' @ [CHR 0x22] @ '':x,'' @
     [CHR 0x22] @ ''op'' @ [CHR 0x22] @ '':x,'' @ [CHR 0x22] @ ''payload'' @ [CHR 0x22] @ '':'' @ t @ ''}''"

definition ly_lib :: lib where
  "ly_lib = ly_base\<lparr>x_entry := map_of (map (\<lambda>(op, pl). (ly_line (ly_ser pl), new_entry ly_base 1 op pl)) ly_payloads)\<rparr>"

definition ly_host :: host where
  "ly_host = (ex_host Claude)\<lparr>h_lib := ly_lib\<rparr>"

lemma ly_types: "map (\<lambda>(op, pl). ly_ser pl) ly_payloads =
    [''Conversation'', ''CompactTranscript'', ''DERIVED_FROM'', ''SessionRetentionReceipt'']"
  by (simp add: ly_payloads_def ly_ser_def jget_str_def obj_of_map_of conversation_payload_def transcript_payload_def
      provenance_payload_def attestation_payload_def)

lemma ly_plain: "t \<in> {''Conversation'', ''CompactTranscript'', ''DERIVED_FROM'', ''SessionRetentionReceipt''} \<Longrightarrow> plain (ly_line t)"
proof -
  have "list_all (\<lambda>t. plain (ly_line t)) [''Conversation'', ''CompactTranscript'', ''DERIVED_FROM'', ''SessionRetentionReceipt'']"
    by code_simp
  then show "t \<in> {''Conversation'', ''CompactTranscript'', ''DERIVED_FROM'', ''SessionRetentionReceipt''} \<Longrightarrow> plain (ly_line t)"
    by auto
qed

lemma ly_new_entry: "new_entry ly_lib secs op pl = new_entry ly_base secs op pl"
  by (simp add: new_entry_def ly_lib_def)

lemma ly_stored_line: "stored_line ly_lib (new_entry ly_base secs op pl) = ly_line (ly_ser pl)"
  by (simp add: stored_line_def field_text_def ly_lib_def ly_base_def new_entry_def ly_line_def ly_ser_def jget_str_def)

lemma ly_reads_back:
  assumes "(op, pl) \<in> set ly_payloads"
  shows "reads_back ly_lib (new_entry ly_lib 1 op pl)"
proof -
  have t: "ly_ser pl \<in> set (map (\<lambda>(op, pl). ly_ser pl) ly_payloads)" using assms by force
  then have p: "plain (ly_line (ly_ser pl))" unfolding ly_types by (intro ly_plain) auto
  have "distinct (map (\<lambda>(op, pl). ly_ser pl) ly_payloads)" unfolding ly_types by simp
  then have "distinct (map ly_line (map (\<lambda>(op, pl). ly_ser pl) ly_payloads))"
    by (subst distinct_map) (simp add: inj_on_def ly_line_def)
  then have "distinct (map fst (map (\<lambda>(op, pl). (ly_line (ly_ser pl), new_entry ly_base 1 op pl)) ly_payloads))"
    by (simp add: o_def case_prod_beta)
  moreover have "(ly_line (ly_ser pl), new_entry ly_base 1 op pl) \<in>
      set (map (\<lambda>(op, pl). (ly_line (ly_ser pl), new_entry ly_base 1 op pl)) ly_payloads)"
    using assms by force
  ultimately have "x_entry ly_lib (ly_line (ly_ser pl)) = Some (new_entry ly_base 1 op pl)"
    unfolding ly_lib_def by (simp add: map_of_eq_Some_iff del: set_map)
  moreover have "keep_line ly_lib l" for l by (simp add: keep_line_def ly_lib_def ly_base_def obj_of_def)
  ultimately show ?thesis
    unfolding reads_back_def ly_new_entry ly_stored_line using plain_one_line [OF p] plain_valid [OF p] by blast
qed

text \<open>The run of the example.\<close>

definition ly_world :: world where
  "ly_world = \<lparr>w_files = ex_files, w_store = empty_store, w_step = 0\<rparr>"

lemma ly_steady: "steady ly_host"
  by (simp add: steady_def ly_host_def ex_host_def)

lemma ly_physical: "physical ly_host p"
  by (simp add: physical_def ly_host_def ex_host_def)

lemma ly_host [simp]: "h_lib ly_host = ly_lib" "h_now ly_host w = 10 ^ 9" "h_root ly_host = [''r'']"
  "h_canon ly_host fs p = map_option (\<lambda>_. p) (map_of fs p)" "x_sha ly_lib = (\<lambda>_. replicate 32 0)"
  "h_proc ly_host w = Inr []" "h_dialogue ly_host w s p i = ([], [], None)"
  by (simp_all add: ly_host_def ex_host_def ly_lib_def ly_base_def)

lemma ly_paths:
  "compact_path ly_host (ex_session Claude) = [''r'', ''00-inbox'', ''harvest'', ''compact'', ''claude'', ''s.jsonl'']"
  "partial_path ly_host (ex_session Claude) = [''r'', ''00-inbox'', ''harvest'', ''compact'', ''claude'', ''s.jsonl.partial'']"
  by (simp_all add: compact_path_def partial_path_def COMPACT_DIR_def ex_session_def)

lemma ly_file_bundle: "map_of fs [''d'', ''s''] = map_of ex_files [''d'', ''s''] \<Longrightarrow>
    file_bundle ly_host fs (ex_session Claude) = Inr ly_bundle"
  by (simp add: file_bundle_def hash_session_file_def read_file_def ex_session_def ly_bundle_def zero_digest)
    (simp add: ex_files_def)

lemma ly_node_id: "transcript_id ly_host (ex_session Claude) content = ly_node"
  by (simp add: transcript_id_def zero_digest ex_session_def ly_node_def) (simp add: zero_digest_def eval_nat_numeral)

lemma ly_reads: "compaction_reads ly_host (ex_session Claude) ly_bundle [] 0 []"
proof -
  have t: "transcript_node ly_host (ex_session Claude) ly_bundle [] 0 [] (format_utc 1) = snd (ly_payloads ! 1)"
    by (simp add: transcript_node_def ly_node_id ly_paths zero_digest ly_payloads_def COMPACT_DIR_def)
  have p: "compact_proof ly_host (ex_session Claude) ly_bundle [] (format_utc 1) = snd (ly_payloads ! 3)"
    unfolding compact_proof_def ly_node_id by (simp add: ly_payloads_def ly_bundle_def ex_session_def)
  have m: "(''node.upsert'', conversation_payload (ex_session Claude)) \<in> set ly_payloads"
    "(''node.upsert'', snd (ly_payloads ! 1)) \<in> set ly_payloads"
    "(''edge.assert'', provenance_payload ly_node (conversation_id (ex_session Claude))) \<in> set ly_payloads"
    "(''node.upsert'', snd (ly_payloads ! 3)) \<in> set ly_payloads"
    by (simp_all add: ly_payloads_def)
  have d: "(10 ^ 9 :: nat) div 10 ^ 9 = 1" by simp
  show ?thesis
    unfolding compaction_reads_def Let_def ly_host(1,2) d t p ly_node_id
    using m [THEN ly_reads_back] by blast
qed

lemma append_returns:
  assumes "steady h" and "holds h es fs n w" and "validate op pl = Inr ()"
  shows "\<exists>w'. append_journal h op pl w = (Inr (), w')"
  using assms append_ok [OF assms(3), of "w_store w" "h_lib h"]
  by (simp add: append_journal_def holds_def journal_is_def)

lemma compaction_valid:
  "validate ''node.upsert'' (conversation_payload c) = Inr ()"
  "validate ''node.upsert'' (transcript_node h c b content messages warnings now) = Inr ()"
  "validate ''edge.assert'' (provenance_payload i conv) = Inr ()"
  "validate ''node.upsert'' (compact_proof h c b content now) = Inr ()"
  by (simp_all add: validate_iff acceptable_def required_fields_def jget_str_def conversation_payload_def transcript_node_def
      transcript_payload_def provenance_payload_def compact_proof_def attestation_payload_def obj_of_map_of)

text \<open>Recording a compaction cannot fail on such a host.\<close>

lemma record_compaction_returns:
  assumes st: "steady h" and w: "holds h es fs n w" and rd: "compaction_reads h c b content messages warnings"
  shows "\<exists>r w'. record_compaction h c b content messages warnings w = (Inr r, w')"
proof -
  obtain r1 w1 where s1: "open_journal h w = (r1, w1)" by (cases "open_journal h w")
  have r1: "r1 = Inr ()"
    using s1 st w journal_is_open [of "h_lib h" es "w_store w" "h_qdir h" "h_now h (interfere h w) div 10 ^ 9"]
    by (auto simp: open_journal_def holds_def)
  have h1: "holds h es fs n w1" by (rule open_holds [OF st w s1])
  obtain x w2 where s2: "load_graph h w1 = (x, w2)" by (cases "load_graph h w1")
  obtain g where g: "x = Inr g" using load_holds(2) [OF st h1 s2] by blast
  have h2: "holds h es fs n w2" by (rule load_holds(1) [OF st h1 s2])
  have rb: "reads_back (h_lib h) (new_entry (h_lib h) (h_now h v div 10 ^ 9) ''node.upsert'' (conversation_payload c))"
      "reads_back (h_lib h) (new_entry (h_lib h) (h_now h v div 10 ^ 9) ''node.upsert''
         (transcript_node h c b content messages warnings (format_utc (h_now h u div 10 ^ 9))))"
      "reads_back (h_lib h) (new_entry (h_lib h) (h_now h v div 10 ^ 9) ''edge.assert''
          (provenance_payload (transcript_id h c content) (conversation_id c)))" for v u
    using rd unfolding compaction_reads_def Let_def by blast+
  obtain es3 n3 w3 where s3: "(if map_of (nodes g) (conversation_id c) = None then append_journal h ''node.upsert'' (conversation_payload c)
      else okA ()) w2 = (Inr (), w3)" and h3: "holds h es3 fs n3 w3"
  proof (cases "map_of (nodes g) (conversation_id c) = None")
    case True
    obtain w3 where a: "append_journal h ''node.upsert'' (conversation_payload c) w2 = (Inr (), w3)"
      using append_returns [OF st h2 compaction_valid(1)] by blast
    from append_holds [OF st h2 a rb(1)] obtain es3 n3 where "holds h es3 fs n3 w3" by blast
    then show thesis by (rule that [rotated]) (simp only: if_P [OF True] a)
  next
    case False
    show thesis by (rule that [OF _ h2]) (simp only: if_not_P [OF False] act_simps)
  qed
  have now: "observed_utc_now h v = (Inr (format_utc (h_now h (interfere h v) div 10 ^ 9)), interfere h v)" for v
    by (simp add: observed_utc_now_def)
  have h4: "holds h es3 fs n3 (interfere h w3)" by (rule holds_later(1) [OF st h3])
  obtain w5 where s5: "append_journal h ''node.upsert'' (transcript_node h c b content messages warnings
      (format_utc (h_now h (interfere h w3) div 10 ^ 9))) (interfere h w3) = (Inr (), w5)"
    using append_returns [OF st h4 compaction_valid(2)] by blast
  from append_holds [OF st h4 this rb(2)] obtain es5 n5 where h5: "holds h es5 fs n5 w5" by blast
  obtain w6 where s6: "append_journal h ''edge.assert'' (provenance_payload (transcript_id h c content) (conversation_id c)) w5 = (Inr (), w6)"
    using append_returns [OF st h5 compaction_valid(3)] by blast
  from append_holds [OF st h5 this rb(3)] obtain es6 n6 where h6: "holds h es6 fs n6 w6" by blast
  obtain w8 where s8: "append_journal h ''node.upsert'' (compact_proof h c b content
      (format_utc (h_now h (interfere h w6) div 10 ^ 9))) (interfere h w6) = (Inr (), w8)"
    using append_returns [OF st holds_later(1) [OF st h6] compaction_valid(4)] by blast
  have "\<exists>r. record_compaction h c b content messages warnings w = (Inr r, w8)"
    unfolding record_compaction_def bindA_Inr
    using s1 r1 s2 g s3 now s5 s6 s8 by (auto simp del: act_simps simp add: okA_def)
  then show ?thesis by blast
qed

text \<open>Up to the recording, the example runs on its files.\<close>

definition ly_folder :: inode where
  "ly_folder = \<lparr>in_dev = 0, in_num = 9, in_links = 2, in_kind = Folder\<rparr>"

definition ly_dirs :: "string list list" where
  "ly_dirs = prefixes [''r'', ''00-inbox'', ''harvest'', ''compact'', ''claude'']"

lemma ly_create_dirs:
  "distinct ds \<Longrightarrow> \<forall>p \<in> set ds. map_of (w_files w) p = None \<Longrightarrow>
   \<exists>w'. foldE (ensure_dir ly_host dir) ds w = Inr w' \<and> w_store w' = w_store w \<and>
        (\<forall>q. q \<notin> set ds \<longrightarrow> map_of (w_files w') q = map_of (w_files w) q)"
proof (induction ds arbitrary: w)
  case (Cons d ds)
  let ?w1 = "w\<lparr>w_files := put_entry d
          \<lparr>in_dev = fst (h_fresh ly_host w), in_num = snd (h_fresh ly_host w), in_links = 2, in_kind = Folder\<rparr> (w_files w)\<rparr>"
  have "\<forall>p \<in> set ds. map_of (w_files ?w1) p = None" using Cons.prems by (auto simp: put_entry_def)
  from Cons.IH [OF _ this] Cons.prems show ?case
    by (simp add: ensure_dir_def path_is_dir_def) (auto simp: put_entry_def)
qed simp

lemma ly_run: "\<exists>r w'. compact_and_attest ly_host (ex_session Claude) ly_world = (Inr r, w')"
proof -
  let ?h = "ly_host" and ?c = "ex_session Claude" and ?p = "[''d'', ''s'']"
  have src: "cd_source ?c \<noteq> Opencode" by (simp add: ex_session_def)
  note st = ly_steady
  let ?w1 = "interfere ?h ly_world"
  have b1: "bundle_of ?h ?c ly_world = (Inr ly_bundle, ?w1)"
    using ly_file_bundle [of ex_files] st by (simp add: bundle_of_file [OF src] ly_world_def)
  let ?w2 = "interfere ?h ?w1" and ?w3 = "interfere ?h (interfere ?h ?w1)"
  have i: "require_idle ?h (cd_source ?c) (b_targets ly_bundle) busy unsure ?w1 = (Inr (), ?w2)" for busy unsure
    by (simp add: require_idle_Inr session_activity_def)
  have fs: "w_files ?w3 = ex_files" "w_store ?w3 = empty_store" using st by (simp_all add: ly_world_def)
  have pre: "map_of ex_files p = None" if "p \<in> set ly_dirs" for p
    using that by (auto simp: ly_dirs_def ex_files_def)
  have "distinct ly_dirs" by (simp add: ly_dirs_def)
  with pre fs obtain w3 where f: "foldE (ensure_dir ?h (butlast (compact_path ?h ?c))) ly_dirs ?w3 = Inr w3"
    "w_store w3 = empty_store" "\<forall>q. q \<notin> set ly_dirs \<longrightarrow> map_of (w_files w3) q = map_of ex_files q"
    using ly_create_dirs [of ly_dirs ?w3 "butlast (compact_path ?h ?c)"] by metis
  have "prefixes (butlast (compact_path ?h ?c)) = ly_dirs" by (simp add: ly_paths ly_dirs_def)
  with f(1) have "create_dir_all ?h (butlast (compact_path ?h ?c)) ?w3 = (Inr (), w3)" by (simp add: create_dir_all_def)
  note w3 = this f(2) f(3) [rule_format]
  have part: "partial_path ?h ?c \<notin> set ly_dirs" "compact_path ?h ?c \<notin> set ly_dirs" "?p \<notin> set ly_dirs"
    by (simp_all add: ly_dirs_def ly_paths)
  have n: "map_of (w_files w3) (partial_path ?h ?c) = None" "map_of (w_files w3) (compact_path ?h ?c) = None"
    "map_of (w_files w3) ?p = map_of ex_files ?p"
    using w3(3) [OF part(1)] w3(3) [OF part(2)] w3(3) [OF part(3)] by (simp_all add: ly_paths ex_files_def)
  obtain w4 where w4: "write_dialogue ?h ?c w3 = (Inr ([], 0, []), w4)" "w_store w4 = empty_store"
    "map_of (w_files w4) (partial_path ?h ?c) \<noteq> None" "map_of (w_files w4) (compact_path ?h ?c) = None"
    "map_of (w_files w4) ?p = map_of ex_files ?p"
  proof -
    let ?i = "\<lparr>in_dev = fst (h_fresh ?h (interfere ?h w3)), in_num = snd (h_fresh ?h (interfere ?h w3)), in_links = 1, in_kind = Regular []\<rparr>"
    let ?v = "(interfere ?h w3)\<lparr>w_files := put_entry (partial_path ?h ?c) ?i (w_files w3)\<rparr>"
    let ?u = "interfere ?h (interfere ?h ?v)"
    let ?w4 = "?u\<lparr>w_files := put_entry (partial_path ?h ?c) (?i\<lparr>in_kind := Regular []\<rparr>) (w_files ?u)\<rparr>"
    have "create_file ?h (partial_path ?h ?c) (interfere ?h w3) = (Inr (), ?v)"
      using n(1) st by (simp add: create_file_def)
    then have "write_dialogue ?h ?c w3 = (Inr ([], 0, []), ?w4)"
      using st by (simp add: write_dialogue_def bindA_def Let_def change_files_def write_all_def put_entry_def)
    moreover have "map_of (w_files ?w4) q = (if q = partial_path ?h ?c then Some (?i\<lparr>in_kind := Regular []\<rparr>) else map_of (w_files w3) q)" for q
      using st by (simp add: put_entry_def)
    moreover have "w_store ?w4 = empty_store" using st w3(2) by simp
    moreover have "compact_path ?h ?c \<noteq> partial_path ?h ?c" "?p \<noteq> partial_path ?h ?c" by (simp_all add: ly_paths)
    ultimately show thesis using n by (intro that [of ?w4]) simp_all
  qed
  let ?w5 = "interfere ?h w4"
  have b2: "bundle_of ?h ?c w4 = (Inr ly_bundle, ?w5)"
    using ly_file_bundle w4(5) st by (simp add: bundle_of_file [OF src])
  obtain w6 where w6: "change_files ?h (rename_file (partial_path ?h ?c) (compact_path ?h ?c)) ?w5 = (Inr (), w6)" "w_store w6 = empty_store"
    using w4(2,3,4) st by (auto simp: change_files_def rename_file_def)
  have "holds ?h [] (w_files w6) (w_step w6) w6"
    using w6(2) by (simp add: holds_def journal_is_def empty_store_def)
  from record_compaction_returns [OF st this ly_reads] obtain r w' where
    r: "record_compaction ?h ?c ly_bundle [] 0 [] w6 = (Inr r, w')" by blast
  have "compact_and_attest ?h ?c ly_world = (Inr r, w')"
    unfolding compact_and_attest_def
    by (subst bindA_run [where m = "bundle_of ?h ?c", OF b1], subst bindA_run [where m = "require_idle ?h _ _ _ _", OF i],
        subst bindA_run [where m = "change ?h (create_dir_all ?h (butlast (compact_path ?h ?c)))" and w' = w3 and a = "()"])
      (simp_all add: w3(1) bindA_def attempt_def w4(1) b2 w6(1) r)
  then show ?thesis by blast
qed

theorem compaction_proves_the_session_witness:
  "\<exists>r w' cutoff b w''. compact_and_attest ly_host (ex_session Claude) ly_world = (Inr r, w') \<and>
     justified ly_host (ex_session Claude) 0 w' cutoff b w'' \<and> b_sha256 b = cr_source_sha256 r"
proof -
  obtain r w' where run: "compact_and_attest ly_host (ex_session Claude) ly_world = (Inr r, w')" using ly_run by blast
  have "\<exists>cutoff b w''. justified ly_host (ex_session Claude) 0 w' cutoff b w'' \<and> b_sha256 b = cr_source_sha256 r"
  proof (rule compaction_proves_the_session [OF ly_steady _ ly_physical _ _ _ _ _ _ _ run])
    show "cd_modified (ex_session Claude) = Some ''1970-01-01T00:00:00Z''" by (simp add: ex_session_def)
    show "''1970-01-01T00:00:00Z'' < cutoff_utc ly_host 0 v" for v
      using ex_times(1) by (simp add: cutoff_utc_def u64_sat_def)
    show "journal_is (h_lib ly_host) [] (w_store ly_world)"
      by (simp add: journal_is_def ly_world_def empty_store_def)
    show "compaction_reads ly_host (ex_session Claude) b content messages warnings"
      if b: "file_bundle ly_host (w_files ly_world) (ex_session Claude) = Inr b"
        and d: "write_dialogue ly_host (ex_session Claude) u = (Inr (content, messages, warnings), u')"
      for b content messages warnings u u'
    proof -
      have "b = ly_bundle" using b ly_file_bundle [of ex_files] by (simp add: ly_world_def)
      moreover have "content = [] \<and> messages = 0 \<and> warnings = []"
        using d by (auto simp: write_dialogue_def bindA_Inr Let_def)
      ultimately show ?thesis using ly_reads by simp
    qed
  qed (simp_all add: ex_session_def ly_paths [unfolded ex_session_def] ex_times session_activity_def)
  with run show ?thesis by blast
qed

end
