(* ===== verification/Context_Packet.thy ===== *)
theory Context_Packet
  imports Journal
begin

text \<open>
  The bounded context packet (\<open>crates/innen-core/src/middleware.rs\<close>): required items and, as far as a
  budget of tokens allows, optional ones.  \<open>L\<close> holds the digest, the printer and the parser;
  \<open>tok\<close> is the reference tokenizer.  A struct is printed field by field in its own order.
\<close>

section \<open>Data\<close>

definition TOKENIZER :: string where
  "TOKENIZER = ''o200k_base''"

definition MAX_ITEMS :: nat where
  "MAX_ITEMS = 256"

record packet_item =
  pi_id :: string
  pi_content :: json
  pi_required :: bool
  pi_priority :: "int option"

record packet_request =
  pq_stable_prefix :: json
  pq_task :: json
  pq_items :: "packet_item list"
  pq_budget_tokens :: nat

record expansion =
  xn_id :: string
  xn_selected :: bool
  xn_content_sha256 :: string
  xn_reference_tokens :: nat

record expanded =
  xd_id :: string
  xd_content_sha256 :: string
  xd_reference_tokens :: nat
  xd_content :: json

record expansion_result =
  xr_resolution :: string
  xr_source_sha256 :: string
  xr_reference_tokenizer :: string
  xr_items :: "expanded list"

record prepared =
  pp_resolution :: string
  pp_source_sha256 :: string
  pp_reference_tokenizer :: string
  pp_budget_tokens :: nat
  pp_before_reference_tokens :: nat
  pp_after_reference_tokens :: nat
  pp_packet :: json
  pp_selected_ids :: "string list"
  pp_omitted_ids :: "string list"
  pp_expansions :: "expansion list"
  pp_selection_policy :: string
  pp_packet_json :: string

text \<open>\<open>Unparsed\<close> is the panic of the code where the packet it printed does not parse.\<close>

datatype packet_error =
    InvalidItems
  | TooManyItems nat nat
  | RequiredDoesNotFit nat nat "string list"
  | SourceChanged string string
  | UnknownItems "string list"
  | Token string
  | Unparsed string

section \<open>Printing\<close>

definition struct_text :: "(string \<times> string) list \<Rightarrow> string" where
  "struct_text fs =
     ''{'' @ join_with '','' (map (\<lambda>(k, t). [CHR 0x22] @ k @ [CHR 0x22] @ '':'' @ t) fs) @ ''}''"

definition array_text :: "string list \<Rightarrow> string" where
  "array_text ts = ''['' @ join_with '','' ts @ '']''"

definition jint :: "int \<Rightarrow> json" where
  "jint i = JNum (if i \<ge> 0 then PosInt (nat i) else NegInt i)"

definition item_text :: "(json \<Rightarrow> string) \<Rightarrow> packet_item \<Rightarrow> string" where
  "item_text ser it = struct_text
     [(''id'', ser (JStr (pi_id it))), (''content'', ser (pi_content it)),
      (''required'', ser (JBool (pi_required it))),
      (''priority'', ser (case pi_priority it of None \<Rightarrow> JNull | Some p \<Rightarrow> jint p))]"

definition packet_source_sha256 :: "lib \<Rightarrow> packet_request \<Rightarrow> string" where
  "packet_source_sha256 L q = sha256_hex (x_sha L) (struct_text
     [(''stable_prefix'', x_ser L (pq_stable_prefix q)), (''task'', x_ser L (pq_task q)),
      (''items'', array_text (map (item_text (x_ser L)) (pq_items q))),
      (''budget_tokens'', x_ser L (jnat (pq_budget_tokens q)))])"

definition validate_items :: "packet_request \<Rightarrow> packet_error + unit" where
  "validate_items q =
     (if length (pq_items q) > MAX_ITEMS then Inl (TooManyItems (length (pq_items q)) MAX_ITEMS)
      else if list_ex (\<lambda>it. pi_id it = []) (pq_items q) \<or> \<not> distinct (map pi_id (pq_items q)) then Inl InvalidItems
      else Inr ())"

text \<open>The items whose index is selected.\<close>

definition chosen :: "packet_item list \<Rightarrow> nat list \<Rightarrow> packet_item list" where
  "chosen items selected = map snd (filter (\<lambda>(i, _). i \<in> set selected) (enumerate 0 items))"

definition packet_json :: "lib \<Rightarrow> packet_request \<Rightarrow> nat list \<Rightarrow> string" where
  "packet_json L q selected = struct_text
     [(''stable_prefix'', x_ser L (pq_stable_prefix q)), (''task'', x_ser L (pq_task q)),
      (''items'', array_text (map (\<lambda>it. struct_text
         [(''id'', x_ser L (JStr (pi_id it))), (''content'', x_ser L (pi_content it))])
         (chosen (pq_items q) selected)))]"

section \<open>Selecting\<close>

definition required_indices :: "packet_item list \<Rightarrow> nat list" where
  "required_indices items = map fst (filter (\<lambda>(_, it). pi_required it) (enumerate 0 items))"

text \<open>By descending priority; the sort is stable, so ties keep the order of the items.\<close>

definition optional_order :: "packet_item list \<Rightarrow> nat list" where
  "optional_order items = map fst
     (sort_key (\<lambda>(_, it). - (case pi_priority it of None \<Rightarrow> 0 | Some p \<Rightarrow> p))
       (filter (\<lambda>(_, it). \<not> pi_required it) (enumerate 0 items)))"

definition packet_tokens ::
  "lib \<Rightarrow> (string \<Rightarrow> string + nat) \<Rightarrow> packet_request \<Rightarrow> nat list \<Rightarrow> packet_error + nat" where
  "packet_tokens L tok q selected = mapErr Token (tok (packet_json L q selected))"

definition admit_item ::
  "lib \<Rightarrow> (string \<Rightarrow> string + nat) \<Rightarrow> packet_request \<Rightarrow> nat \<Rightarrow> nat list \<Rightarrow> packet_error + nat list" where
  "admit_item L tok q i selected =
     (let candidate = insort_insert i selected in
      bindE (packet_tokens L tok q candidate) (\<lambda>n.
      Inr (if n \<le> pq_budget_tokens q then candidate else selected)))"

definition expansion_of ::
  "lib \<Rightarrow> (string \<Rightarrow> string + nat) \<Rightarrow> nat list \<Rightarrow> nat \<times> packet_item \<Rightarrow> packet_error + expansion" where
  "expansion_of L tok selected = (\<lambda>(i, it).
     bindE (mapErr Token (tok (x_ser L (pi_content it)))) (\<lambda>n.
     Inr \<lparr>xn_id = pi_id it, xn_selected = (i \<in> set selected),
          xn_content_sha256 = sha256_hex (x_sha L) (x_ser L (pi_content it)), xn_reference_tokens = n\<rparr>))"

definition prepare_packet :: "lib \<Rightarrow> (string \<Rightarrow> string + nat) \<Rightarrow> packet_request \<Rightarrow> packet_error + prepared" where
  "prepare_packet L tok q =
     bindE (validate_items q) (\<lambda>_.
     let items = pq_items q; required = required_indices items in
     bindE (packet_tokens L tok q [0..<length items]) (\<lambda>before.
     bindE (packet_tokens L tok q required) (\<lambda>needed.
     if needed > pq_budget_tokens q then
       Inl (RequiredDoesNotFit (pq_budget_tokens q) needed (map (\<lambda>i. pi_id (items ! i)) required))
     else
       bindE (foldE (admit_item L tok q) (optional_order items) required) (\<lambda>selected.
       let text = packet_json L q selected in
       case x_parse L text of
         None \<Rightarrow> Inl (Unparsed text)
       | Some packet \<Rightarrow>
           bindE (packet_tokens L tok q selected) (\<lambda>after.
           bindE (mapE (expansion_of L tok selected) (enumerate 0 items)) (\<lambda>expansions.
           Inr \<lparr>pp_resolution = ''prepared'', pp_source_sha256 = packet_source_sha256 L q,
                pp_reference_tokenizer = TOKENIZER, pp_budget_tokens = pq_budget_tokens q,
                pp_before_reference_tokens = before, pp_after_reference_tokens = after, pp_packet = packet,
                pp_selected_ids = map (\<lambda>i. pi_id (items ! i)) selected,
                pp_omitted_ids = map (\<lambda>(i, it). pi_id it)
                  (filter (\<lambda>(i, _). i \<notin> set selected) (enumerate 0 items)),
                pp_expansions = expansions,
                pp_selection_policy = ''required_then_optional_descending_caller_priority_then_input_order'',
                pp_packet_json = text\<rparr>))))))"

definition expand_packet ::
  "lib \<Rightarrow> (string \<Rightarrow> string + nat) \<Rightarrow> packet_request \<Rightarrow> string \<Rightarrow> string list \<Rightarrow> packet_error + expansion_result" where
  "expand_packet L tok q expected ids =
     bindE (validate_items q) (\<lambda>_.
     let actual = packet_source_sha256 L q;
         unknown = filter (\<lambda>i. i \<notin> pi_id ` set (pq_items q)) ids in
     if expected \<noteq> actual then Inl (SourceChanged expected actual)
     else if unknown \<noteq> [] then Inl (UnknownItems unknown)
     else
       bindE (mapE (\<lambda>it. bindE (mapErr Token (tok (x_ser L (pi_content it)))) (\<lambda>n.
           Inr \<lparr>xd_id = pi_id it, xd_content_sha256 = sha256_hex (x_sha L) (x_ser L (pi_content it)),
                xd_reference_tokens = n, xd_content = pi_content it\<rparr>))
         (filter (\<lambda>it. pi_id it \<in> set ids) (pq_items q))) (\<lambda>items.
       Inr \<lparr>xr_resolution = ''expanded'', xr_source_sha256 = actual, xr_reference_tokenizer = TOKENIZER,
            xr_items = items\<rparr>))"

section \<open>What is selected\<close>

lemma packet_tokens_set: "set s = set t \<Longrightarrow> packet_tokens L tok q s = packet_tokens L tok q t"
  by (simp add: packet_tokens_def packet_json_def chosen_def)

lemma required_indices_set: "set (required_indices items) = {i. i < length items \<and> pi_required (items ! i)}"
  by (force simp: required_indices_def in_set_enumerate_eq image_iff)

lemma optional_order_set: "set (optional_order items) = {i. i < length items \<and> \<not> pi_required (items ! i)}"
  by (force simp: optional_order_def in_set_enumerate_eq image_iff)

lemma distinct_fst_filter: "distinct (map fst xs) \<Longrightarrow> distinct (map fst (filter P xs))"
  by (induction xs) auto

lemma optional_order_distinct: "distinct (optional_order items)"
proof -
  let ?xs = "filter (\<lambda>(_, it). \<not> pi_required it) (enumerate 0 items)"
  have "mset (optional_order items) = mset (map fst ?xs)"
    by (simp add: optional_order_def)
  moreover have "distinct (map fst ?xs)" by (rule distinct_fst_filter) simp
  ultimately show ?thesis by (metis mset_eq_imp_distinct_iff)
qed

lemma required_indices_ok: "oset_ok (required_indices items)"
proof -
  have "sorted_wrt (<) (map fst (filter P (enumerate n items)))" for P and n :: nat
    by (induction items arbitrary: n) (auto simp: in_set_enumerate_eq)
  then show ?thesis by (simp add: oset_ok_def required_indices_def)
qed

text \<open>One pass over the optional items: what it keeps, and why each item it leaves out is left out.\<close>

definition fits :: "lib \<Rightarrow> (string \<Rightarrow> string + nat) \<Rightarrow> packet_request \<Rightarrow> nat list \<Rightarrow> bool" where
  "fits L tok q s \<longleftrightarrow> (case packet_tokens L tok q s of Inl _ \<Rightarrow> False | Inr n \<Rightarrow> n \<le> pq_budget_tokens q)"

lemma admit_cases:
  assumes "admit_item L tok q i s = Inr t"
  shows "(t = insort_insert i s \<and> fits L tok q (i # s)) \<or>
    (t = s \<and> (\<exists>n. packet_tokens L tok q (i # s) = Inr n \<and> pq_budget_tokens q < n))"
  using assms packet_tokens_set [of "insort_insert i s" "i # s" L tok q]
  by (auto simp: admit_item_def Let_def fits_def split: if_splits)

lemma admit_pass:
  assumes "foldE (admit_item L tok q) xs s = Inr t" and "distinct xs" and "set xs \<inter> set s = {}"
    and "oset_ok s" and "fits L tok q s"
  shows "oset_ok t \<and> fits L tok q t \<and> set s \<subseteq> set t \<and> set t \<subseteq> set s \<union> set xs \<and>
    (\<forall>i \<in> set xs - set t. \<exists>n. packet_tokens L tok q
       (i # s @ filter (\<lambda>j. j \<in> set t) (takeWhile (\<lambda>j. j \<noteq> i) xs)) = Inr n \<and> pq_budget_tokens q < n)"
  using assms
proof (induction xs arbitrary: s)
  case (Cons x xs)
  from Cons.prems(1) obtain s1 where s1: "admit_item L tok q x s = Inr s1" "foldE (admit_item L tok q) xs s1 = Inr t"
    by auto
  have x: "x \<notin> set s" "x \<notin> set xs" using Cons.prems by auto
  have s1': "oset_ok s1" "fits L tok q s1" "set s \<subseteq> set s1" "set s1 \<subseteq> insert x (set s)"
    using admit_cases [OF s1(1)] Cons.prems(4,5) packet_tokens_set [of "insort_insert x s" "x # s" L tok q]
    by (auto simp: fits_def)
  have ih: "oset_ok t \<and> fits L tok q t \<and> set s1 \<subseteq> set t \<and> set t \<subseteq> set s1 \<union> set xs \<and>
    (\<forall>i \<in> set xs - set t. \<exists>n. packet_tokens L tok q
       (i # s1 @ filter (\<lambda>j. j \<in> set t) (takeWhile (\<lambda>j. j \<noteq> i) xs)) = Inr n \<and> pq_budget_tokens q < n)"
    using Cons.prems(2,3) s1' x by (intro Cons.IH [OF s1(2)]) auto
  have "\<exists>n. packet_tokens L tok q (i # s @ filter (\<lambda>j. j \<in> set t) (takeWhile (\<lambda>j. j \<noteq> i) (x # xs))) = Inr n \<and>
      pq_budget_tokens q < n" if i: "i \<in> set (x # xs) - set t" for i
  proof (cases "i = x")
    case True
    then have "s1 = s" using i ih admit_cases [OF s1(1)] by auto
    moreover have "insort_insert x s \<noteq> s" using x(1) by (metis insertI1 insort_insert_set)
    ultimately show ?thesis using admit_cases [OF s1(1)] True by auto
  next
    case False
    have "set s1 = set s \<union> (if x \<in> set t then {x} else {})"
      using s1'(3,4) ih x by (cases "x \<in> set s1") auto
    then have "set (i # s1 @ filter (\<lambda>j. j \<in> set t) (takeWhile (\<lambda>j. j \<noteq> i) xs)) =
        set (i # s @ filter (\<lambda>j. j \<in> set t) (takeWhile (\<lambda>j. j \<noteq> i) (x # xs)))"
      using False by auto
    note eq = packet_tokens_set [OF this, of L tok q]
    have "i \<in> set xs - set t" using i False by auto
    with ih show ?thesis unfolding eq [symmetric] by blast
  qed
  then show ?case using ih s1'(3,4) by auto
qed simp

lemma filter_enumerate_nth:
  "map snd (filter (\<lambda>(i, _). P i) (enumerate n xs)) = map (\<lambda>i. xs ! (i - n)) (filter P [n..<n + length xs])"
proof (induction xs arbitrary: n)
  case (Cons x xs)
  have "map (\<lambda>i. xs ! (i - Suc n)) (filter P [Suc n..<Suc n + length xs]) =
      map (\<lambda>i. (x # xs) ! (i - n)) (filter P [Suc n..<Suc n + length xs])"
  proof (rule map_cong [OF refl])
    fix i assume "i \<in> set (filter P [Suc n..<Suc n + length xs])"
    then have "Suc n \<le> i" by (simp del: upt_Suc)
    then show "xs ! (i - Suc n) = (x # xs) ! (i - n)" by (metis Suc_diff_Suc Suc_le_eq nth_Cons_Suc)
  qed
  moreover have "[n..<n + length (x # xs)] = n # [Suc n..<Suc n + length xs]"
    by (simp add: upt_conv_Cons del: upt_Suc)
  ultimately show ?case using Cons.IH [of "Suc n"] by (simp del: upt_Suc)
qed simp

lemma chosen_nth: "oset_ok s \<Longrightarrow> set s \<subseteq> {..<length items} \<Longrightarrow> map (\<lambda>i. items ! i) s = chosen items s"
proof -
  assume ok: "oset_ok s" and b: "set s \<subseteq> {..<length items}"
  have "filter (\<lambda>i. i \<in> set s) [0..<length items] = s"
    by (rule oset_ext) (use ok b in \<open>auto simp: oset_ok_def sorted_wrt_filter\<close>)
  then show ?thesis using filter_enumerate_nth [of "\<lambda>i. i \<in> set s" 0 items] by (simp add: chosen_def)
qed

lemma mset_filter_split: "mset (map f (filter P xs)) + mset (map f (filter (\<lambda>x. \<not> P x) xs)) = mset (map f xs)"
  by (induction xs) auto

text \<open>C18. A packet is a greedy selection: it fits the budget, it is the text of the selected items in their order, all
  required ones among them, and an item is left out exactly because, with the required items and those of a higher
  priority that were selected, it does not fit.  The ids are split accordingly.\<close>

theorem packet_is_greedy:
  assumes "prepare_packet L tok q = Inr p"
  shows "\<exists>selected. set (required_indices (pq_items q)) \<subseteq> set selected \<and> set selected \<subseteq> {..<length (pq_items q)} \<and>
    pp_packet_json p = packet_json L q selected \<and> tok (pp_packet_json p) = Inr (pp_after_reference_tokens p) \<and>
    pp_after_reference_tokens p \<le> pq_budget_tokens q \<and>
    pp_selected_ids p = map pi_id (chosen (pq_items q) selected) \<and>
    mset (pp_selected_ids p @ pp_omitted_ids p) = mset (map pi_id (pq_items q)) \<and>
    (\<forall>i \<in> {..<length (pq_items q)} - set selected. \<exists>n. packet_tokens L tok q (i # required_indices (pq_items q) @
       filter (\<lambda>j. j \<in> set selected) (takeWhile (\<lambda>j. j \<noteq> i) (optional_order (pq_items q)))) = Inr n \<and>
       pq_budget_tokens q < n)"
proof -
  let ?items = "pq_items q"
  from assms obtain needed selected packet after expansions where
    n: "packet_tokens L tok q (required_indices ?items) = Inr needed" "needed \<le> pq_budget_tokens q"
    and f: "foldE (admit_item L tok q) (optional_order ?items) (required_indices ?items) = Inr selected"
    and a: "packet_tokens L tok q selected = Inr after"
    and p: "pp_packet_json p = packet_json L q selected" "pp_after_reference_tokens p = after"
      "pp_selected_ids p = map (\<lambda>i. pi_id (?items ! i)) selected"
      "pp_omitted_ids p = map (\<lambda>(i, it). pi_id it) (filter (\<lambda>(i, _). i \<notin> set selected) (enumerate 0 ?items))"
    by (auto simp: prepare_packet_def Let_def split: if_splits option.splits)
  have disj: "set (optional_order ?items) \<inter> set (required_indices ?items) = {}"
    by (auto simp: required_indices_set optional_order_set)
  have pass: "oset_ok selected \<and> fits L tok q selected \<and> set (required_indices ?items) \<subseteq> set selected \<and>
    set selected \<subseteq> set (required_indices ?items) \<union> set (optional_order ?items) \<and>
    (\<forall>i \<in> set (optional_order ?items) - set selected. \<exists>n. packet_tokens L tok q (i # required_indices ?items @
       filter (\<lambda>j. j \<in> set selected) (takeWhile (\<lambda>j. j \<noteq> i) (optional_order ?items))) = Inr n \<and> pq_budget_tokens q < n)"
    by (rule admit_pass [OF f optional_order_distinct disj required_indices_ok]) (simp add: fits_def n)
  have b: "set selected \<subseteq> {..<length ?items}"
    using pass by (auto simp: required_indices_set optional_order_set)
  have ids: "pp_selected_ids p = map pi_id (chosen ?items selected)"
    using chosen_nth [of selected ?items] pass b p(3) by (metis (no_types, lifting) list.map_comp map_cong comp_apply)
  have en: "map (\<lambda>x. pi_id (snd x)) (enumerate 0 ?items) = map pi_id ?items"
    using map_map [of pi_id snd "enumerate 0 ?items"] by (simp add: comp_def)
  have "pp_selected_ids p = map (\<lambda>x. pi_id (snd x)) (filter (\<lambda>x. fst x \<in> set selected) (enumerate 0 ?items))"
    by (simp add: ids chosen_def case_prod_unfold)
  moreover have "pp_omitted_ids p = map (\<lambda>x. pi_id (snd x)) (filter (\<lambda>x. \<not> fst x \<in> set selected) (enumerate 0 ?items))"
    by (simp add: p(4) case_prod_unfold)
  ultimately have ms: "mset (pp_selected_ids p @ pp_omitted_ids p) = mset (map pi_id ?items)"
    unfolding mset_append en [symmetric] by (simp only: mset_filter_split)
  have "i \<in> set (optional_order ?items)" if "i \<in> {..<length ?items} - set selected" for i
    using that pass by (auto simp: required_indices_set optional_order_set)
  then show ?thesis
    using pass b p(1,2) a ids ms by (intro exI [of _ selected]) (auto simp: packet_tokens_def fits_def)
qed

text \<open>Whatever was left out can be fetched with the hash of the source.\<close>

theorem omitted_items_expand:
  assumes "prepare_packet L tok q = Inr p" and "set ids \<subseteq> pi_id ` set (pq_items q)"
  shows "\<exists>r. expand_packet L tok q (pp_source_sha256 p) ids = Inr r \<and>
    map (\<lambda>x. (xd_id x, xd_content x)) (xr_items r) =
      map (\<lambda>it. (pi_id it, pi_content it)) (filter (\<lambda>it. pi_id it \<in> set ids) (pq_items q))"
proof -
  let ?items = "filter (\<lambda>it. pi_id it \<in> set ids) (pq_items q)"
  from assms(1) obtain selected expansions where v: "validate_items q = Inr ()" "pp_source_sha256 p = packet_source_sha256 L q"
    and e: "mapE (expansion_of L tok selected) (enumerate 0 (pq_items q)) = Inr expansions"
    by (auto simp: prepare_packet_def Let_def split: if_splits option.splits)
  have "\<exists>n. tok (x_ser L (pi_content it)) = Inr n" if it: "it \<in> set (pq_items q)" for it
  proof -
    from it obtain i where "i < length (pq_items q)" "pq_items q ! i = it" by (metis in_set_conv_nth)
    moreover have "list_all2 (\<lambda>x y. expansion_of L tok selected x = Inr y) (enumerate 0 (pq_items q)) expansions"
      using e by (simp add: mapE_Inr_iff)
    ultimately have "expansion_of L tok selected (i, it) = Inr (expansions ! i)"
      by (auto dest: list_all2_nthD [where p = i] simp: nth_enumerate_eq)
    then show ?thesis by (auto simp: expansion_of_def)
  qed
  moreover define n where "n = (\<lambda>it :: packet_item. projr (tok (x_ser L (pi_content it))))"
  ultimately have n: "tok (x_ser L (pi_content it)) = Inr (n it)" if "it \<in> set (pq_items q)" for it
    using that by fastforce
  let ?x = "\<lambda>it. \<lparr>xd_id = pi_id it, xd_content_sha256 = sha256_hex (x_sha L) (x_ser L (pi_content it)),
    xd_reference_tokens = n it, xd_content = pi_content it\<rparr>"
  have "mapE (\<lambda>it. bindE (mapErr Token (tok (x_ser L (pi_content it)))) (\<lambda>n.
      Inr \<lparr>xd_id = pi_id it, xd_content_sha256 = sha256_hex (x_sha L) (x_ser L (pi_content it)),
           xd_reference_tokens = n, xd_content = pi_content it\<rparr>)) ?items = mapE (\<lambda>it. Inr (?x it)) ?items"
    by (rule mapE_cong) (simp_all add: n)
  moreover have "filter (\<lambda>i. i \<notin> pi_id ` set (pq_items q)) ids = []"
    using assms(2) by (auto simp: filter_empty_conv)
  ultimately show ?thesis
    using v by (simp add: expand_packet_def Let_def comp_def)
qed

text \<open>Two short items within four bytes, a required one and an optional one too many.\<close>

lemma packet_is_greedy_witness:
  "\<exists>p. prepare_packet \<lparr>x_sha = (\<lambda>_. []), x_ser = (\<lambda>_. ''x''), x_parse = (\<lambda>_. Some JNull), x_entry = (\<lambda>_. None)\<rparr>
     (\<lambda>s. Inr (length s))
     \<lparr>pq_stable_prefix = JNull, pq_task = JNull,
      pq_items = [\<lparr>pi_id = ''a'', pi_content = JNull, pi_required = True, pi_priority = None\<rparr>,
                  \<lparr>pi_id = ''b'', pi_content = JNull, pi_required = False, pi_priority = Some 1\<rparr>],
      pq_budget_tokens = 70\<rparr> = Inr p \<and>
     pp_selected_ids p = [''a''] \<and> pp_omitted_ids p = [''b''] \<and> pp_after_reference_tokens p \<le> 70"
proof -
  define L where "L = \<lparr>x_sha = (\<lambda>_. []), x_ser = (\<lambda>_. ''x''), x_parse = (\<lambda>_. Some JNull), x_entry = (\<lambda>_. None)\<rparr>"
  define q where "q = \<lparr>pq_stable_prefix = JNull, pq_task = JNull,
      pq_items = [\<lparr>pi_id = ''a'', pi_content = JNull, pi_required = True, pi_priority = None\<rparr>,
                  \<lparr>pi_id = ''b'', pi_content = JNull, pi_required = False, pi_priority = Some 1\<rparr>],
      pq_budget_tokens = 70\<rparr>"
  have "case prepare_packet L (\<lambda>s. Inr (length s)) q of Inl _ \<Rightarrow> False
      | Inr p \<Rightarrow> pp_selected_ids p = [''a''] \<and> pp_omitted_ids p = [''b'']"
    unfolding L_def q_def by code_simp
  then obtain p where p: "prepare_packet L (\<lambda>s. Inr (length s)) q = Inr p" "pp_selected_ids p = [''a'']"
      "pp_omitted_ids p = [''b'']"
    by (auto split: sum.splits)
  with packet_is_greedy [OF p(1)] show ?thesis unfolding L_def q_def by auto
qed

end
