(* ===== verification/History.thy ===== *)
theory History
  imports Context_Packet Materialize
begin

text \<open>
  Decision histories (\<open>crates/innen-core/src/middleware/history\<close>: \<open>model.rs\<close>, \<open>ancestry.rs\<close>, \<open>prepare.rs\<close>,
  \<open>expand.rs\<close>).  A request holds immutable decisions, each of which may supersede earlier ones and depend on
  earlier ones.  What is current for the task becomes a context packet; a decision that is
  superseded, contested or not applicable is shown without its statement.
\<close>

section \<open>Data\<close>

definition MAX_DECISIONS :: nat where
  "MAX_DECISIONS = 256"

record hist_source =
  hs_id :: string
  hs_sha256 :: string
  hs_session_id :: "string option"

record decision =
  de_id :: string
  de_project :: string
  de_task_id :: string
  de_actions :: "string list"
  de_statement :: string
  de_rationale :: string
  de_conditions :: "(string \<times> string) list"
  de_sources :: "hist_source list"
  de_supersedes :: "string list"
  de_depends_on :: "string list"
  de_lessons :: "string list"
  de_reopen_when :: "string list"
  de_observed_at :: string

datatype hist_state = TaskActive | TaskPaused | TaskCompleted

record hist_task =
  tk_id :: string
  tk_project :: string
  tk_action :: string
  tk_state :: hist_state
  tk_conditions :: "(string \<times> string) list"

record hist_request =
  hr_stable_prefix :: json
  hr_task :: hist_task
  hr_budget_tokens :: nat
  hr_events :: "decision list"

record prepared_history =
  ph_resolution :: string
  ph_source_sha256 :: string
  ph_selected :: "string list"
  ph_guarded :: "string list"
  ph_competing :: "string list"
  ph_before_tokens :: nat
  ph_after_tokens :: nat
  ph_prepared :: prepared

datatype hist_error =
    TooManyDecisions nat nat
  | InvalidTask
  | InactiveTask string string
  | NoMatchingDecision string string
  | InvalidDecision nat
  | DuplicateId string
  | InvalidObservedAt string string
  | NonChronological string
  | InvalidReference string string
  | CrossProjectReference string string string
  | CrossTaskReference string string string
  | HistoryChanged string string
  | UnknownDecisions "string list"
  | Middleware packet_error

fun state_name :: "hist_state \<Rightarrow> string" where
  "state_name TaskActive = ''active''"
| "state_name TaskPaused = ''paused''"
| "state_name TaskCompleted = ''completed''"

section \<open>Printing\<close>

definition str_map :: "(string \<times> string) list \<Rightarrow> json" where
  "str_map m = JObj (map (\<lambda>(k, v). (k, JStr v)) m)"

definition str_list :: "string list \<Rightarrow> json" where
  "str_list ss = JArr (map JStr ss)"

definition source_text :: "(json \<Rightarrow> string) \<Rightarrow> hist_source \<Rightarrow> string" where
  "source_text ser s = struct_text
     ([(''id'', ser (JStr (hs_id s))), (''sha256'', ser (JStr (hs_sha256 s)))] @
      (case hs_session_id s of None \<Rightarrow> [] | Some i \<Rightarrow> [(''session_id'', ser (JStr i))]))"

definition decision_text :: "(json \<Rightarrow> string) \<Rightarrow> decision \<Rightarrow> string" where
  "decision_text ser d = struct_text
     [(''id'', ser (JStr (de_id d))), (''project'', ser (JStr (de_project d))),
      (''task_id'', ser (JStr (de_task_id d))), (''actions'', ser (str_list (de_actions d))),
      (''statement'', ser (JStr (de_statement d))), (''rationale'', ser (JStr (de_rationale d))),
      (''conditions'', ser (str_map (de_conditions d))),
      (''sources'', array_text (map (source_text ser) (de_sources d))),
      (''supersedes'', ser (str_list (de_supersedes d))), (''depends_on'', ser (str_list (de_depends_on d))),
      (''lessons'', ser (str_list (de_lessons d))), (''reopen_when'', ser (str_list (de_reopen_when d))),
      (''observed_at'', ser (JStr (de_observed_at d)))]"

definition task_text :: "(json \<Rightarrow> string) \<Rightarrow> hist_task \<Rightarrow> string" where
  "task_text ser t = struct_text
     [(''id'', ser (JStr (tk_id t))), (''project'', ser (JStr (tk_project t))),
      (''action'', ser (JStr (tk_action t))), (''state'', ser (JStr (state_name (tk_state t)))),
      (''conditions'', ser (str_map (tk_conditions t)))]"

definition request_text :: "(json \<Rightarrow> string) \<Rightarrow> hist_request \<Rightarrow> string" where
  "request_text ser r = struct_text
     [(''stable_prefix'', ser (hr_stable_prefix r)), (''task'', task_text ser (hr_task r)),
      (''budget_tokens'', ser (jnat (hr_budget_tokens r))),
      (''events'', array_text (map (decision_text ser) (hr_events r)))]"

definition history_sha256 :: "lib \<Rightarrow> hist_request \<Rightarrow> string" where
  "history_sha256 L r = sha256_hex (x_sha L) (request_text (x_ser L) r)"

text \<open>The same structs as values.\<close>

definition source_value :: "hist_source \<Rightarrow> json" where
  "source_value s = jobj ([(''id'', JStr (hs_id s)), (''sha256'', JStr (hs_sha256 s))] @
     (case hs_session_id s of None \<Rightarrow> [] | Some i \<Rightarrow> [(''session_id'', JStr i)]))"

definition decision_value :: "decision \<Rightarrow> json" where
  "decision_value d = jobj
     [(''id'', JStr (de_id d)), (''project'', JStr (de_project d)), (''task_id'', JStr (de_task_id d)),
      (''actions'', str_list (de_actions d)), (''statement'', JStr (de_statement d)),
      (''rationale'', JStr (de_rationale d)), (''conditions'', str_map (de_conditions d)),
      (''sources'', JArr (map source_value (de_sources d))), (''supersedes'', str_list (de_supersedes d)),
      (''depends_on'', str_list (de_depends_on d)), (''lessons'', str_list (de_lessons d)),
      (''reopen_when'', str_list (de_reopen_when d)), (''observed_at'', JStr (de_observed_at d))]"

definition task_value :: "hist_task \<Rightarrow> json" where
  "task_value t = jobj
     [(''id'', JStr (tk_id t)), (''project'', JStr (tk_project t)), (''action'', JStr (tk_action t)),
      (''state'', JStr (state_name (tk_state t))), (''conditions'', str_map (tk_conditions t))]"

section \<open>Validation\<close>

definition two_digits :: "string \<Rightarrow> nat \<Rightarrow> nat" where
  "two_digits s i = 10 * (byte (s ! i) - 48) + (byte (s ! Suc i) - 48)"

definition month_days :: "nat \<Rightarrow> nat \<Rightarrow> nat option" where
  "month_days year month =
     (if month \<in> {1, 3, 5, 7, 8, 10, 12} then Some 31
      else if month \<in> {4, 6, 9, 11} then Some 30
      else if month = 2 then Some (if year mod 4 = 0 \<and> (year mod 100 \<noteq> 0 \<or> year mod 400 = 0) then 29 else 28)
      else None)"

definition valid_timestamp :: "string \<Rightarrow> bool" where
  "valid_timestamp s \<longleftrightarrow>
     is_canonical_ts s \<and>
     (let year = 100 * two_digits s 0 + two_digits s 2; day = two_digits s 8 in
      case month_days year (two_digits s 5) of
        None \<Rightarrow> False
      | Some max_day \<Rightarrow> day \<ge> 1 \<and> day \<le> max_day \<and> two_digits s 11 < 24 \<and> two_digits s 14 < 60 \<and> two_digits s 17 < 60)"

definition valid_source :: "hist_source \<Rightarrow> bool" where
  "valid_source s \<longleftrightarrow> trim (hs_id s) \<noteq> [] \<and> length (hs_sha256 s) = 64 \<and> list_all is_ascii_hexdigit (hs_sha256 s)"

definition present :: "string \<Rightarrow> bool" where
  "present s \<longleftrightarrow> trim s \<noteq> []"

definition decision_shape :: "decision \<Rightarrow> bool" where
  "decision_shape d \<longleftrightarrow>
     present (de_id d) \<and> present (de_project d) \<and> present (de_task_id d) \<and> de_actions d \<noteq> [] \<and>
     list_all present (de_actions d) \<and> present (de_statement d) \<and> present (de_rationale d) \<and>
     de_sources d \<noteq> [] \<and> list_all valid_source (de_sources d)"

text \<open>The first pass: shapes, times and ids.  The result maps ids to positions.\<close>

fun check_decisions ::
  "nat \<Rightarrow> string option \<Rightarrow> (string \<times> nat) list \<Rightarrow> decision list \<Rightarrow> hist_error + (string \<times> nat) list" where
  "check_decisions i prev pos [] = Inr pos"
| "check_decisions i prev pos (d # ds) =
     (if \<not> decision_shape d then Inl (InvalidDecision i)
      else if \<not> valid_timestamp (de_observed_at d) then Inl (InvalidObservedAt (de_id d) (de_observed_at d))
      else if (case prev of None \<Rightarrow> False | Some t \<Rightarrow> t > de_observed_at d) then Inl (NonChronological (de_id d))
      else if map_of pos (de_id d) \<noteq> None then Inl (DuplicateId (de_id d))
      else check_decisions (Suc i) (Some (de_observed_at d)) ((de_id d, i) # pos) ds)"

text \<open>The second pass: the references of one kind of one decision.\<close>

fun check_refs ::
  "decision list \<Rightarrow> (string \<times> nat) list \<Rightarrow> nat \<Rightarrow> string \<Rightarrow> string list \<Rightarrow> string list \<Rightarrow> hist_error + unit" where
  "check_refs events pos i kind used [] = Inr ()"
| "check_refs events pos i kind used (r # rs) =
     (let d = events ! i in
      if \<not> present r \<or> r \<in> set used then Inl (InvalidDecision i)
      else (case map_of pos r of
          None \<Rightarrow> Inl (InvalidReference (de_id d) r)
        | Some j \<Rightarrow>
            if j \<ge> i then Inl (InvalidReference (de_id d) r)
            else if de_project (events ! j) \<noteq> de_project d then Inl (CrossProjectReference (de_id d) kind r)
            else if de_task_id (events ! j) \<noteq> de_task_id d then Inl (CrossTaskReference (de_id d) kind r)
            else check_refs events pos i kind (r # used) rs))"

definition check_references :: "decision list \<Rightarrow> (string \<times> nat) list \<Rightarrow> nat \<Rightarrow> hist_error + unit" where
  "check_references events pos i =
     bindE (check_refs events pos i ''supersession'' [] (de_supersedes (events ! i))) (\<lambda>_.
     check_refs events pos i ''dependency'' [] (de_depends_on (events ! i)))"

definition validate_history :: "hist_request \<Rightarrow> hist_error + (string \<times> nat) list" where
  "validate_history r =
     (let events = hr_events r; t = hr_task r in
      if length events > MAX_DECISIONS then Inl (TooManyDecisions (length events) MAX_DECISIONS)
      else if \<not> present (tk_id t) \<or> \<not> present (tk_project t) \<or> \<not> present (tk_action t) then Inl InvalidTask
      else
        bindE (check_decisions 0 None [] events) (\<lambda>pos.
        bindE (mapE (check_references events pos) [0..<length events]) (\<lambda>_. Inr pos)))"

section \<open>Applicability and items\<close>

record applicability =
  ap_missing :: "string list"
  ap_mismatched :: "(string \<times> string) list"

definition for_decision :: "hist_task \<Rightarrow> decision \<Rightarrow> applicability" where
  "for_decision t d = fold (\<lambda>(k, expected) a.
     case map_of (tk_conditions t) k of
       Some actual \<Rightarrow> if actual = expected then a else a\<lparr>ap_mismatched := omap_insert k actual (ap_mismatched a)\<rparr>
     | None \<Rightarrow> a\<lparr>ap_missing := ap_missing a @ [k]\<rparr>) (de_conditions d) \<lparr>ap_missing = [], ap_mismatched = []\<rparr>"

definition applicability_state :: "applicability \<Rightarrow> string" where
  "applicability_state a =
     (if ap_mismatched a \<noteq> [] then ''mismatch'' else if ap_missing a \<noteq> [] then ''unknown'' else ''applicable'')"

definition applicable :: "applicability \<Rightarrow> bool" where
  "applicable a \<longleftrightarrow> ap_missing a = [] \<and> ap_mismatched a = []"

definition applicability_value :: "applicability \<Rightarrow> (string \<times> string) list \<Rightarrow> json" where
  "applicability_value a expected = jobj
     [(''state'', JStr (applicability_state a)), (''expected_conditions'', str_map expected),
      (''missing_conditions'', str_list (ap_missing a)),
      (''mismatched_actual_conditions'', str_map (ap_mismatched a))]"

definition decision_fields :: "decision \<Rightarrow> (string \<times> json) list" where
  "decision_fields d =
     [(''id'', JStr (de_id d)), (''project'', JStr (de_project d)), (''actions'', str_list (de_actions d)),
      (''observed_at'', JStr (de_observed_at d)), (''rationale'', JStr (de_rationale d)),
      (''lessons'', str_list (de_lessons d)), (''reopen_when'', str_list (de_reopen_when d)),
      (''sources'', JArr (map source_value (de_sources d)))]"

definition with_statement :: "bool \<Rightarrow> decision \<Rightarrow> jobject \<Rightarrow> json" where
  "with_statement b d m = JObj (if b then omap_insert ''statement'' (JStr (de_statement d)) m else m)"

definition current_item :: "decision \<Rightarrow> applicability \<Rightarrow> string list \<Rightarrow> string list \<Rightarrow> json" where
  "current_item d a competing guards =
     with_statement (applicable a \<and> competing = [] \<and> guards = []) d (obj_of ((''kind'', JStr ''current_decision'') #
       decision_fields d @ [(''applicability'', applicability_value a (de_conditions d)),
       (''competing_ids'', str_list competing), (''dependency_guard_ids'', str_list guards)]))"

definition dependency_item :: "decision \<Rightarrow> applicability \<Rightarrow> string list \<Rightarrow> json" where
  "dependency_item d a guards =
     with_statement (applicable a \<and> guards = []) d (obj_of ((''kind'', JStr ''active_dependency'') #
       decision_fields d @ [(''applicability'', applicability_value a (de_conditions d)),
       (''dependency_guard_ids'', str_list guards)]))"

definition summary_item :: "decision \<Rightarrow> string \<Rightarrow> json" where
  "summary_item d relationship =
     jobj ([(''kind'', JStr ''decision_history_summary''), (''relationship'', JStr relationship)] @
       decision_fields d @ [(''statement_available_via_history_expand'', JBool True)])"

section \<open>Ancestors and guards\<close>

text \<open>The walks follow references to earlier positions; the first argument bounds their depth, and the number of
  events is enough.  An unknown reference is a panic of the code and cannot occur after validation; here
  it counts as position 0.\<close>

definition pos_at :: "(string \<times> nat) list \<Rightarrow> string \<Rightarrow> nat" where
  "pos_at pos r = (case map_of pos r of None \<Rightarrow> 0 | Some i \<Rightarrow> i)"

type_synonym ancestry = "nat list \<times> (nat \<times> string) list"

fun collect_ancestors :: "nat \<Rightarrow> decision list \<Rightarrow> (string \<times> nat) list \<Rightarrow> nat \<Rightarrow> ancestry \<Rightarrow> ancestry" where
  "collect_ancestors 0 events pos i acc = acc"
| "collect_ancestors (Suc n) events pos i acc =
     fold (\<lambda>(relationship, refs). fold (\<lambda>r (seen, found).
         let a = pos_at pos r in
         if a \<in> set seen then (seen, found)
         else collect_ancestors n events pos a (insort_insert a seen, found @ [(a, relationship)])) refs)
       [(''dependency'', de_depends_on (events ! i)), (''superseded'', de_supersedes (events ! i))] acc"

fun supersession_ancestors :: "nat \<Rightarrow> decision list \<Rightarrow> (string \<times> nat) list \<Rightarrow> nat \<Rightarrow> nat list \<Rightarrow> nat list" where
  "supersession_ancestors 0 events pos i found = found"
| "supersession_ancestors (Suc n) events pos i found =
     fold (\<lambda>r found.
         let a = pos_at pos r in
         if a \<in> set found then found else supersession_ancestors n events pos a (insort_insert a found))
       (de_supersedes (events ! i)) found"

text \<open>What the guards depend on: the task, the events, who is superseded and who is contested.\<close>

record hist_scope =
  sc_task :: hist_task
  sc_events :: "decision list"
  sc_pos :: "(string \<times> nat) list"
  sc_superseded :: "string list"
  sc_competing :: "(nat \<times> string list) list"

type_synonym memo = "(nat \<times> string list) list"

fun dependency_guard_ids :: "nat \<Rightarrow> hist_scope \<Rightarrow> nat \<Rightarrow> memo \<Rightarrow> string list \<times> memo" where
  "dependency_guard_ids 0 s i memo = ([], memo)"
| "dependency_guard_ids (Suc n) s i memo =
     (case map_of memo i of
        Some cached \<Rightarrow> (cached, memo)
      | None \<Rightarrow>
          (case fold (\<lambda>r (result, memo).
               let d = pos_at (sc_pos s) r;
                   here = (if r \<in> set (sc_superseded s) \<or>
                              \<not> applicable (for_decision (sc_task s) (sc_events s ! d)) \<or>
                              map_of (sc_competing s) d \<noteq> None
                           then insort_insert r result else result)
               in (case dependency_guard_ids n s d memo of (inner, memo') \<Rightarrow> (set_union here inner, memo')))
             (de_depends_on (sc_events s ! i)) ([], memo) of
           (result, memo') \<Rightarrow> (result, (i, result) # memo')))"

section \<open>Preparing\<close>

definition in_task :: "hist_task \<Rightarrow> string list \<Rightarrow> decision \<Rightarrow> bool" where
  "in_task t superseded d \<longleftrightarrow> de_project d = tk_project t \<and> de_task_id d = tk_id t \<and> de_id d \<notin> set superseded"

definition superseded_ids :: "decision list \<Rightarrow> string list" where
  "superseded_ids events = concat (map de_supersedes events)"

definition matching_indices :: "hist_task \<Rightarrow> decision list \<Rightarrow> nat list" where
  "matching_indices t events = filter (\<lambda>i. in_task t (superseded_ids events) (events ! i) \<and>
     tk_action t \<in> set (de_actions (events ! i))) [0..<length events]"

definition current_indices :: "hist_task \<Rightarrow> decision list \<Rightarrow> nat list" where
  "current_indices t events = filter (\<lambda>i. in_task t (superseded_ids events) (events ! i)) [0..<length events]"

definition peers_of :: "decision list \<Rightarrow> (nat \<Rightarrow> nat list) \<Rightarrow> nat list \<Rightarrow> nat \<Rightarrow> string list" where
  "peers_of events up current i = map (\<lambda>j. de_id (events ! j))
     (filter (\<lambda>j. j \<noteq> i \<and> list_ex (\<lambda>a. a \<in> set (de_actions (events ! j))) (de_actions (events ! i)) \<and>
        set (up i) \<inter> set (up j) \<noteq> {}) current)"

definition competing_by_index :: "hist_task \<Rightarrow> decision list \<Rightarrow> (string \<times> nat) list \<Rightarrow> (nat \<times> string list) list" where
  "competing_by_index t events pos =
     (let current = current_indices t events;
          up = (\<lambda>i. supersession_ancestors (length events) events pos i []) in
      filter (\<lambda>(i, peers). peers \<noteq> []) (map (\<lambda>i. (i, peers_of events up current i)) current))"

definition scope_of :: "hist_request \<Rightarrow> (string \<times> nat) list \<Rightarrow> hist_scope" where
  "scope_of r pos =
     \<lparr>sc_task = hr_task r, sc_events = hr_events r, sc_pos = pos,
      sc_superseded = superseded_ids (hr_events r),
      sc_competing = competing_by_index (hr_task r) (hr_events r) pos\<rparr>"

definition competing_at :: "hist_scope \<Rightarrow> nat \<Rightarrow> string list" where
  "competing_at s i = (case map_of (sc_competing s) i of None \<Rightarrow> [] | Some peers \<Rightarrow> peers)"

text \<open>The guards of one decision: those of its dependencies, and its own rivals.\<close>

definition guards_of :: "hist_scope \<Rightarrow> nat \<Rightarrow> memo \<Rightarrow> string list \<times> memo" where
  "guards_of s i memo =
     (case dependency_guard_ids (Suc (length (sc_events s))) s i memo of (guards, memo') \<Rightarrow>
       (case map_of (sc_competing s) i of
          None \<Rightarrow> (guards, memo')
        | Some peers \<Rightarrow> (remdups_adj (sort (guards @ peers)), memo')))"

definition plain_item :: "string \<Rightarrow> json \<Rightarrow> packet_item" where
  "plain_item i content = \<lparr>pi_id = i, pi_content = content, pi_required = True, pi_priority = None\<rparr>"

text \<open>One current decision: its item, and whether it is guarded.\<close>

definition current_step :: "hist_scope \<Rightarrow> nat \<Rightarrow> (packet_item \<times> bool) list \<times> memo \<Rightarrow> (packet_item \<times> bool) list \<times> memo" where
  "current_step s i = (\<lambda>(items, memo).
     (let d = sc_events s ! i; a = for_decision (sc_task s) d; competing = competing_at s i in
      case guards_of s i memo of (guards, memo') \<Rightarrow>
        (items @ [(plain_item (''history:current:'' @ de_id d) (current_item d a competing guards),
           \<not> applicable a \<or> competing \<noteq> [] \<or> guards \<noteq> [])], memo')))"

definition ancestor_step :: "hist_scope \<Rightarrow> nat \<times> string \<Rightarrow> packet_item list \<times> memo \<Rightarrow> packet_item list \<times> memo" where
  "ancestor_step s = (\<lambda>(i, relationship) (items, memo).
     (let d = sc_events s ! i in
      case guards_of s i memo of (guards, memo') \<Rightarrow>
        (items @ [plain_item (''history:'' @ relationship @ '':'' @ de_id d)
           (if relationship = ''dependency'' \<and> de_id d \<notin> set (sc_superseded s)
            then dependency_item d (for_decision (sc_task s) d) guards
            else summary_item d relationship)], memo')))"

definition history_ancestors :: "hist_scope \<Rightarrow> nat list \<Rightarrow> (nat \<times> string) list" where
  "history_ancestors s matching =
     sort_key fst (snd (fold (collect_ancestors (length (sc_events s)) (sc_events s) (sc_pos s)) matching (matching, [])))"

definition history_before :: "hist_request \<Rightarrow> nat list \<Rightarrow> (nat \<times> string) list \<Rightarrow> json" where
  "history_before r matching ancestors = jobj
     [(''stable_prefix'', hr_stable_prefix r), (''task'', task_value (hr_task r)),
      (''events'', JArr (map (\<lambda>i. decision_value (hr_events r ! i)) (set_union matching (map fst ancestors))))]"

definition prepare_history :: "lib \<Rightarrow> (string \<Rightarrow> string + nat) \<Rightarrow> hist_request \<Rightarrow> hist_error + prepared_history" where
  "prepare_history L tok r =
     bindE (validate_history r) (\<lambda>pos.
     let t = hr_task r; events = hr_events r in
     if tk_state t \<noteq> TaskActive then Inl (InactiveTask (tk_id t) (state_name (tk_state t)))
     else
       let s = scope_of r pos; matching = matching_indices t events;
           (current, memo) = fold (current_step s) matching ([], []) in
       if matching = [] then Inl (NoMatchingDecision (tk_project t) (tk_action t))
       else
         let ancestors = history_ancestors s matching in
         bindE (mapErr (\<lambda>e. Middleware (Token e)) (tok (x_ser L (history_before r matching ancestors)))) (\<lambda>before.
         let (older, _) = fold (ancestor_step s) ancestors ([], memo);
             guarded = map (\<lambda>(i, _). de_id (events ! i)) (filter (\<lambda>(_, _, g). g) (zip matching current));
             competing = sorted_list_of_set (set (concat (map (competing_at s) matching))) in
         bindE (mapErr Middleware (prepare_packet L tok
             \<lparr>pq_stable_prefix = hr_stable_prefix r, pq_task = task_value t,
              pq_items = map fst current @ older, pq_budget_tokens = hr_budget_tokens r\<rparr>)) (\<lambda>p.
         Inr \<lparr>ph_resolution = (if competing \<noteq> [] then ''unknown_conflict''
                else if guarded \<noteq> [] then ''unknown'' else ''prepared''),
              ph_source_sha256 = history_sha256 L r, ph_selected = map (\<lambda>i. de_id (events ! i)) matching,
              ph_guarded = guarded, ph_competing = competing, ph_before_tokens = before,
              ph_after_tokens = pp_after_reference_tokens p, ph_prepared = p\<rparr>)))"

definition expand_history :: "lib \<Rightarrow> hist_request \<Rightarrow> string \<Rightarrow> string list \<Rightarrow> hist_error + json" where
  "expand_history L r expected ids =
     bindE (validate_history r) (\<lambda>_.
     let actual = history_sha256 L r; unknown = filter (\<lambda>i. i \<notin> de_id ` set (hr_events r)) ids in
     if expected \<noteq> actual then Inl (HistoryChanged expected actual)
     else if unknown \<noteq> [] then Inl (UnknownDecisions unknown)
     else Inr (jobj [(''resolution'', JStr ''expanded''), (''history_source_sha256'', JStr actual),
       (''events'', JArr (map decision_value (filter (\<lambda>d. de_id d \<in> set ids) (hr_events r))))]))"

section \<open>What validation guarantees\<close>

definition positions :: "decision list \<Rightarrow> (string \<times> nat) list" where
  "positions events = rev (zip (map de_id events) [0..<length events])"

text \<open>Ids are unique, and a reference names an earlier decision of the same task.\<close>

definition refers :: "decision list \<Rightarrow> nat \<Rightarrow> string \<Rightarrow> bool" where
  "refers events i r \<longleftrightarrow> (\<exists>j < i. de_id (events ! j) = r \<and> de_project (events ! j) = de_project (events ! i) \<and>
     de_task_id (events ! j) = de_task_id (events ! i))"

definition history_ok :: "decision list \<Rightarrow> bool" where
  "history_ok events \<longleftrightarrow> distinct (map de_id events) \<and>
     (\<forall>i < length events. \<forall>r \<in> set (de_supersedes (events ! i)) \<union> set (de_depends_on (events ! i)). refers events i r)"

lemma check_decisions_Inr:
  assumes "check_decisions i prev pos ds = Inr pos'"
  shows "pos' = rev (zip (map de_id ds) [i..<i + length ds]) @ pos \<and> distinct (map de_id ds) \<and>
    de_id ` set ds \<inter> fst ` set pos = {}"
  using assms
proof (induction ds arbitrary: i prev pos)
  case (Cons d ds)
  then have n: "de_id d \<notin> fst ` set pos" and c: "check_decisions (Suc i) (Some (de_observed_at d)) ((de_id d, i) # pos) ds = Inr pos'"
    by (auto split: if_splits simp: map_of_eq_None_iff)
  have "[i..<i + length (d # ds)] = i # [Suc i..<Suc i + length ds]"
    by (simp add: upt_conv_Cons del: upt_Suc)
  then show ?case using Cons.IH [OF c] n by (auto simp del: upt_Suc)
qed simp

lemma map_of_positions:
  assumes "distinct (map de_id events)"
  shows "map_of (positions events) r = Some j \<longleftrightarrow> j < length events \<and> de_id (events ! j) = r"
proof -
  have "distinct (map fst (positions events))"
    using assms by (simp add: positions_def rev_map [symmetric])
  then have "map_of (positions events) r = Some j \<longleftrightarrow> (r, j) \<in> set (zip (map de_id events) [0..<length events])"
    by (simp add: map_of_eq_Some_iff positions_def)
  also have "\<dots> \<longleftrightarrow> j < length events \<and> de_id (events ! j) = r"
    by (auto simp: set_zip intro!: exI [of _ j])
  finally show ?thesis .
qed

lemma check_refs_Inr:
  "check_refs events pos i kind used rs = Inr u \<Longrightarrow> r \<in> set rs \<Longrightarrow>
     \<exists>j < i. map_of pos r = Some j \<and> de_project (events ! j) = de_project (events ! i) \<and>
       de_task_id (events ! j) = de_task_id (events ! i)"
  by (induction rs arbitrary: used) (auto simp: Let_def split: if_splits option.splits)

lemma validate_history_Inr:
  assumes "validate_history r = Inr pos"
  shows "pos = positions (hr_events r)" and "history_ok (hr_events r)"
proof -
  let ?es = "hr_events r"
  from assms have c: "check_decisions 0 None [] ?es = Inr pos"
    and m: "\<exists>us. mapE (check_references ?es pos) [0..<length ?es] = Inr us"
    by (auto simp: validate_history_def Let_def split: if_splits)
  show p: "pos = positions ?es" using check_decisions_Inr [OF c] by (simp add: positions_def)
  have d: "distinct (map de_id ?es)" using check_decisions_Inr [OF c] by simp
  have "refers ?es i x" if i: "i < length ?es" and x: "x \<in> set (de_supersedes (?es ! i)) \<union> set (de_depends_on (?es ! i))" for i x
  proof -
    from m i obtain u where "check_references ?es pos i = Inr u"
      by (auto simp: mapE_Inr_iff list_all2_conv_all_nth)
    then obtain j where "j < i" "map_of pos x = Some j" "de_project (?es ! j) = de_project (?es ! i)"
        "de_task_id (?es ! j) = de_task_id (?es ! i)"
      using x by (auto simp: check_references_def dest: check_refs_Inr)
    then show ?thesis using map_of_positions [OF d] p by (auto simp: refers_def)
  qed
  then show "history_ok ?es" using d by (simp add: history_ok_def)
qed

section \<open>Walks down a descending relation\<close>

locale descending =
  fixes E :: "(nat \<times> nat) set"
  assumes down: "(i, j) \<in> E \<Longrightarrow> j < i"
begin

lemma trancl_down: "(i, j) \<in> E\<^sup>+ \<Longrightarrow> j < i"
  by (induction rule: trancl.induct) (auto dest: down)

text \<open>What is reached from members below \<open>i\<close> has been visited.\<close>

definition visited_below :: "nat \<Rightarrow> nat set \<Rightarrow> bool" where
  "visited_below i S \<longleftrightarrow> (\<forall>k \<in> S. k < i \<longrightarrow> E\<^sup>+ `` {k} \<subseteq> S)"

lemma visited_insert: "visited_below i S \<Longrightarrow> a < i \<Longrightarrow> visited_below a (insert a S)"
  by (auto simp: visited_below_def)

lemma visited_reach: "visited_below i S \<Longrightarrow> visited_below i (S \<union> (insert a (E\<^sup>+ `` {a})))"
  by (auto simp: visited_below_def dest: trancl_trans)

text \<open>One child at a time.\<close>

lemma visit_child:
  assumes "visited_below i S" and "a < i"
    and "a \<notin> S \<Longrightarrow> S' = insert a S \<union> E\<^sup>+ `` {a}" and "a \<in> S \<Longrightarrow> S' = S"
  shows "S' = S \<union> insert a (E\<^sup>+ `` {a}) \<and> visited_below i S'"
proof -
  have "S' = S \<union> insert a (E\<^sup>+ `` {a})"
    using assms by (cases "a \<in> S") (auto simp: visited_below_def)
  then show ?thesis using visited_reach [OF assms(1)] by simp
qed

lemma reach_children: "E\<^sup>+ `` {i} = (\<Union>a \<in> E `` {i}. insert a (E\<^sup>+ `` {a}))"
proof
  show "E\<^sup>+ `` {i} \<subseteq> (\<Union>a \<in> E `` {i}. insert a (E\<^sup>+ `` {a}))"
  proof
    fix j assume "j \<in> E\<^sup>+ `` {i}"
    then have "(i, j) \<in> E\<^sup>+" by simp
    then show "j \<in> (\<Union>a \<in> E `` {i}. insert a (E\<^sup>+ `` {a}))"
      by (cases rule: converse_tranclE) auto
  qed
qed (auto intro: trancl_into_trancl2)

end

text \<open>The references of a history, as a relation on positions.\<close>

definition supersession :: "decision list \<Rightarrow> (nat \<times> nat) set" where
  "supersession events = {(i, j). j < i \<and> i < length events \<and> de_id (events ! j) \<in> set (de_supersedes (events ! i))}"

definition dependency :: "decision list \<Rightarrow> (nat \<times> nat) set" where
  "dependency events = {(i, j). j < i \<and> i < length events \<and> de_id (events ! j) \<in> set (de_depends_on (events ! i))}"

interpretation superseding: descending "supersession events"
  by unfold_locales (simp add: supersession_def)

interpretation depending: descending "dependency events"
  by unfold_locales (simp add: dependency_def)

interpretation referring: descending "dependency events \<union> supersession events"
  by unfold_locales (auto simp: dependency_def supersession_def)

lemma pos_at_ref:
  assumes "history_ok events" and "i < length events"
  shows "r \<in> set (de_supersedes (events ! i)) \<Longrightarrow>
      pos_at (positions events) r < i \<and> de_id (events ! pos_at (positions events) r) = r \<and>
      (i, pos_at (positions events) r) \<in> supersession events"
    and "r \<in> set (de_depends_on (events ! i)) \<Longrightarrow>
      pos_at (positions events) r < i \<and> de_id (events ! pos_at (positions events) r) = r \<and>
      (i, pos_at (positions events) r) \<in> dependency events"
proof -
  have "pos_at (positions events) r < i \<and> de_id (events ! pos_at (positions events) r) = r"
    if r: "r \<in> set (de_supersedes (events ! i)) \<union> set (de_depends_on (events ! i))"
  proof -
    from r obtain j where "j < i" "de_id (events ! j) = r" using assms unfolding history_ok_def refers_def by blast
    moreover from this have "map_of (positions events) r = Some j"
      using assms by (subst map_of_positions) (simp_all add: history_ok_def)
    ultimately show ?thesis by (simp add: pos_at_def)
  qed
  then show "r \<in> set (de_supersedes (events ! i)) \<Longrightarrow>
      pos_at (positions events) r < i \<and> de_id (events ! pos_at (positions events) r) = r \<and>
      (i, pos_at (positions events) r) \<in> supersession events"
    "r \<in> set (de_depends_on (events ! i)) \<Longrightarrow>
      pos_at (positions events) r < i \<and> de_id (events ! pos_at (positions events) r) = r \<and>
      (i, pos_at (positions events) r) \<in> dependency events"
    using assms(2) by (auto simp: supersession_def dependency_def)
qed

lemma pos_at_id: "history_ok events \<Longrightarrow> j < length events \<Longrightarrow> pos_at (positions events) (de_id (events ! j)) = j"
  using map_of_positions [of events "de_id (events ! j)" j] by (simp add: history_ok_def pos_at_def)

lemma image_refs:
  assumes "history_ok events" and "i < length events"
  shows "pos_at (positions events) ` set (de_supersedes (events ! i)) = supersession events `` {i}"
    and "pos_at (positions events) ` set (de_depends_on (events ! i)) = dependency events `` {i}"
  using pos_at_ref [OF assms] pos_at_id [OF assms(1)] assms(2)
  by (auto simp: supersession_def dependency_def intro!: image_eqI)

lemma supersession_ancestors_set:
  assumes ok: "history_ok events"
  shows "i < n \<Longrightarrow> i < length events \<Longrightarrow> superseding.visited_below events i (set found) \<Longrightarrow>
    set (supersession_ancestors n events (positions events) i found) = set found \<union> (supersession events)\<^sup>+ `` {i}"
proof (induction n arbitrary: i found)
  case (Suc n)
  let ?E = "supersession events" and ?p = "pos_at (positions events)"
  let ?f = "\<lambda>r found. let a = ?p r in
         if a \<in> set found then found else supersession_ancestors n events (positions events) a (insort_insert a found)"
  have "set (fold ?f rs found) = set found \<union> (\<Union>a \<in> ?p ` set rs. insert a (?E\<^sup>+ `` {a})) \<and>
      superseding.visited_below events i (set (fold ?f rs found))"
    if "set rs \<subseteq> set (de_supersedes (events ! i))" for rs
    using that Suc.prems(3)
  proof (induction rs arbitrary: found)
    case (Cons r rs)
    have a: "?p r < i" "?p r < n" "?p r < length events"
      using pos_at_ref(1) [OF ok Suc.prems(2), of r] Cons.prems(1) Suc.prems(1,2) by auto
    have "set (?f r found) = set found \<union> insert (?p r) (?E\<^sup>+ `` {?p r}) \<and>
        superseding.visited_below events i (set (?f r found))"
      using Cons.prems(2) a(1)
      by (rule superseding.visit_child)
        (simp_all add: Let_def Suc.IH [OF a(2,3)] superseding.visited_insert [OF Cons.prems(2) a(1)])
    with Cons.IH [of "?f r found"] Cons.prems(1) show ?case by auto
  qed simp
  from this [OF subset_refl] show ?case
    unfolding image_refs(1) [OF ok Suc.prems(2)] superseding.reach_children [of events i] by simp
qed simp

section \<open>Ancestors\<close>

abbreviation references :: "decision list \<Rightarrow> (nat \<times> nat) set" where
  "references events \<equiv> dependency events \<union> supersession events"

definition label_ok :: "decision list \<Rightarrow> nat \<times> string \<Rightarrow> bool" where
  "label_ok events x \<longleftrightarrow>
     (snd x = ''dependency'' \<and> fst x \<in> Range (dependency events)) \<or>
     (snd x = ''superseded'' \<and> fst x \<in> Range (supersession events))"

text \<open>The list of ancestors grows by what was not seen before, each once.\<close>

definition grown :: "decision list \<Rightarrow> ancestry \<Rightarrow> ancestry \<Rightarrow> bool" where
  "grown events acc acc' \<longleftrightarrow> (\<exists>more. snd acc' = snd acc @ more \<and> distinct (map fst more) \<and>
     set (fst acc') = set (fst acc) \<union> fst ` set more \<and> fst ` set more \<inter> set (fst acc) = {} \<and>
     list_all (label_ok events) more)"

lemma grown_refl: "grown events acc acc"
  by (simp add: grown_def)

lemma grown_trans:
  assumes "grown events a b" and "grown events b c"
  shows "grown events a c"
proof -
  from assms obtain x y where "snd b = snd a @ x" "distinct (map fst x)" "set (fst b) = set (fst a) \<union> fst ` set x"
      "fst ` set x \<inter> set (fst a) = {}" "list_all (label_ok events) x"
      "snd c = snd b @ y" "distinct (map fst y)" "set (fst c) = set (fst b) \<union> fst ` set y"
      "fst ` set y \<inter> set (fst b) = {}" "list_all (label_ok events) y"
    by (auto simp: grown_def)
  then show ?thesis unfolding grown_def by (intro exI [of _ "x @ y"]) auto
qed

lemma grown_step:
  "a \<notin> set seen \<Longrightarrow> label_ok events (a, rel) \<Longrightarrow> grown events (seen, found) (insort_insert a seen, found @ [(a, rel)])"
  by (simp add: grown_def)

definition visit_step ::
  "nat \<Rightarrow> decision list \<Rightarrow> (string \<times> nat) list \<Rightarrow> string \<Rightarrow> string \<Rightarrow> ancestry \<Rightarrow> ancestry" where
  "visit_step n events pos relationship r = (\<lambda>(seen, found).
     let a = pos_at pos r in
     if a \<in> set seen then (seen, found)
     else collect_ancestors n events pos a (insort_insert a seen, found @ [(a, relationship)]))"

lemma collect_ancestors_Suc:
  "collect_ancestors (Suc n) events pos i acc =
     fold (visit_step n events pos ''superseded'') (de_supersedes (events ! i))
       (fold (visit_step n events pos ''dependency'') (de_depends_on (events ! i)) acc)"
  unfolding visit_step_def [abs_def] by simp

lemma collect_ancestors_spec:
  assumes ok: "history_ok events"
  shows "i < n \<Longrightarrow> i < length events \<Longrightarrow> referring.visited_below events i (set (fst acc)) \<Longrightarrow>
    grown events acc (collect_ancestors n events (positions events) i acc) \<and>
    set (fst (collect_ancestors n events (positions events) i acc)) = set (fst acc) \<union> (references events)\<^sup>+ `` {i}"
proof (induction n arbitrary: i acc)
  case (Suc n)
  let ?E = "references events" and ?p = "pos_at (positions events)"
  have pass: "grown events acc (fold (visit_step n events (positions events) rel) rs acc) \<and>
      set (fst (fold (visit_step n events (positions events) rel) rs acc)) =
        set (fst acc) \<union> (\<Union>a \<in> ?p ` set rs. insert a (?E\<^sup>+ `` {a})) \<and>
      referring.visited_below events i (set (fst (fold (visit_step n events (positions events) rel) rs acc)))"
    if "\<And>r. r \<in> set rs \<Longrightarrow> ?p r < i \<and> label_ok events (?p r, rel)" "referring.visited_below events i (set (fst acc))"
    for rs rel acc
    using that
  proof (induction rs arbitrary: acc)
    case Nil
    then show ?case by (simp add: grown_refl)
  next
    case (Cons r rs)
    obtain seen found where acc: "acc = (seen, found)" by (cases acc)
    let ?s = "visit_step n events (positions events) rel r acc"
    have a: "?p r < i" "?p r < n" "?p r < length events" "label_ok events (?p r, rel)"
      using Cons.prems(1) [of r] Suc.prems(1,2) by auto
    have v: "referring.visited_below events (?p r) (set (fst (insort_insert (?p r) seen, found @ [(?p r, rel)])))"
      using referring.visited_insert [OF Cons.prems(2) a(1)] by (simp add: acc)
    note ih = Suc.IH [OF a(2,3) v]
    have g: "grown events acc ?s"
      using grown_trans [OF grown_step [OF _ a(4), of seen found] conjunct1 [OF ih]]
      by (simp add: visit_step_def acc Let_def grown_refl)
    have s: "set (fst ?s) = set (fst acc) \<union> insert (?p r) (?E\<^sup>+ `` {?p r}) \<and> referring.visited_below events i (set (fst ?s))"
      using Cons.prems(2) a(1)
      by (rule referring.visit_child) (use ih in \<open>simp_all add: visit_step_def acc Let_def\<close>)
    have r: "?p x < i \<and> label_ok events (?p x, rel)" if "x \<in> set rs" for x using Cons.prems(1) that by simp
    note rest = Cons.IH [of ?s, OF r conjunct2 [OF s]]
    have "grown events acc (fold (visit_step n events (positions events) rel) rs ?s)"
      by (rule grown_trans [OF g]) (use rest in blast)
    with rest s show ?case by auto
  qed
  have d: "?p r < i \<and> label_ok events (?p r, ''dependency'')" if "r \<in> set (de_depends_on (events ! i))" for r
    using pos_at_ref(2) [OF ok Suc.prems(2) that] by (auto simp: label_ok_def)
  have s: "?p r < i \<and> label_ok events (?p r, ''superseded'')" if "r \<in> set (de_supersedes (events ! i))" for r
    using pos_at_ref(1) [OF ok Suc.prems(2) that] by (auto simp: label_ok_def)
  let ?acc = "fold (visit_step n events (positions events) ''dependency'') (de_depends_on (events ! i)) acc"
  note one = pass [OF d Suc.prems(3)]
  note two = pass [of "de_supersedes (events ! i)" "''superseded''" ?acc, OF s conjunct2 [OF conjunct2 [OF one]]]
  have "references events `` {i} = ?p ` set (de_depends_on (events ! i)) \<union> ?p ` set (de_supersedes (events ! i))"
    unfolding image_refs [OF ok Suc.prems(2)] by auto
  moreover have "grown events acc (collect_ancestors (Suc n) events (positions events) i acc)"
    unfolding collect_ancestors_Suc by (rule grown_trans [of _ _ ?acc]) (use one two in blast)+
  ultimately show ?case
    using one two unfolding collect_ancestors_Suc referring.reach_children [of events i] by auto
qed simp

lemma history_ancestors_spec:
  assumes ok: "history_ok (sc_events s)" and pos: "sc_pos s = positions (sc_events s)"
    and m: "oset_ok matching" "set matching \<subseteq> {..<length (sc_events s)}"
  shows "fst ` set (history_ancestors s matching) = (references (sc_events s))\<^sup>+ `` set matching - set matching"
    and "distinct (map fst (history_ancestors s matching))"
    and "list_all (label_ok (sc_events s)) (history_ancestors s matching)"
proof -
  let ?E = "references (sc_events s)" and ?f = "collect_ancestors (length (sc_events s)) (sc_events s) (positions (sc_events s))"
  have walk: "grown (sc_events s) acc (fold ?f ms acc) \<and> set (fst (fold ?f ms acc)) = set (fst acc) \<union> ?E\<^sup>+ `` set ms"
    if "oset_ok ms" "set ms \<subseteq> {..<length (sc_events s)}" "\<And>k. k \<in> set (fst acc) \<Longrightarrow> k \<notin> set ms \<Longrightarrow> ?E\<^sup>+ `` {k} \<subseteq> set (fst acc)"
    for ms acc
    using that
  proof (induction ms arbitrary: acc)
    case Nil
    then show ?case by (simp add: grown_refl)
  next
    case (Cons i ms)
    have i: "i < length (sc_events s)" "\<forall>k \<in> set ms. i < k" "oset_ok ms" using Cons.prems(1,2) by (auto simp: oset_ok_def)
    have "referring.visited_below (sc_events s) i (set (fst acc))"
      unfolding referring.visited_below_def
    proof (intro ballI impI)
      fix k assume k: "k \<in> set (fst acc)" "k < i"
      then have "k \<notin> set (i # ms)" using i(2) by auto
      with k(1) show "?E\<^sup>+ `` {k} \<subseteq> set (fst acc)" by (rule Cons.prems(3))
    qed
    note one = collect_ancestors_spec [OF ok i(1,1) this]
    have "?E\<^sup>+ `` {k} \<subseteq> set (fst (?f i acc))" if "k \<in> set (fst (?f i acc))" "k \<notin> set ms" for k
      using one that Cons.prems(3) [of k] by (auto dest: trancl_trans)
    note rest = Cons.IH [of "?f i acc", OF i(3) _ this]
    then show ?case using one Cons.prems(2) grown_trans [of "sc_events s" acc "?f i acc"] by auto
  qed
  have "grown (sc_events s) (matching, []) (fold ?f matching (matching, [])) \<and>
      set (fst (fold ?f matching (matching, []))) = set matching \<union> ?E\<^sup>+ `` set matching"
    using walk [OF m, of "(matching, [])"] by simp
  then obtain more where more: "snd (fold ?f matching (matching, [])) = more" "distinct (map fst more)"
      "set matching \<union> ?E\<^sup>+ `` set matching = set matching \<union> fst ` set more" "fst ` set more \<inter> set matching = {}"
      "list_all (label_ok (sc_events s)) more"
    unfolding grown_def by auto
  have h: "history_ancestors s matching = sort_key fst more" by (simp add: history_ancestors_def pos more(1))
  show "fst ` set (history_ancestors s matching) = ?E\<^sup>+ `` set matching - set matching"
    using more(3,4) unfolding h by auto
  have "mset (map fst (sort_key fst more)) = mset (map fst more)" by simp
  then show "distinct (map fst (history_ancestors s matching))"
    using more(2) mset_eq_imp_distinct_iff unfolding h by blast
  show "list_all (label_ok (sc_events s)) (history_ancestors s matching)"
    using more(5) unfolding h by (simp add: list_all_iff)
qed

section \<open>Guards\<close>

definition unsound :: "hist_scope \<Rightarrow> nat \<Rightarrow> bool" where
  "unsound s j \<longleftrightarrow> de_id (sc_events s ! j) \<in> set (sc_superseded s) \<or>
     \<not> applicable (for_decision (sc_task s) (sc_events s ! j)) \<or> map_of (sc_competing s) j \<noteq> None"

text \<open>The specification: every decision that this one depends on, directly or not, and that is unsound.\<close>

definition guard_set :: "hist_scope \<Rightarrow> nat \<Rightarrow> string set" where
  "guard_set s i = (\<lambda>j. de_id (sc_events s ! j)) ` {j. (i, j) \<in> (dependency (sc_events s))\<^sup>+ \<and> unsound s j}"

definition memo_ok :: "hist_scope \<Rightarrow> memo \<Rightarrow> bool" where
  "memo_ok s memo \<longleftrightarrow> (\<forall>i guards. map_of memo i = Some guards \<longrightarrow> oset_ok guards \<and> set guards = guard_set s i)"

lemma guard_set_children:
  "guard_set s i = (\<Union>a \<in> dependency (sc_events s) `` {i}.
     (if unsound s a then {de_id (sc_events s ! a)} else {}) \<union> guard_set s a)"
proof -
  have "j \<in> (dependency (sc_events s))\<^sup>+ `` {i} \<longleftrightarrow>
      j \<in> (\<Union>a \<in> dependency (sc_events s) `` {i}. insert a ((dependency (sc_events s))\<^sup>+ `` {a}))" for j
    using depending.reach_children [of "sc_events s" i] by simp
  then show ?thesis unfolding guard_set_def by (auto split: if_splits)
qed

definition guard_step :: "nat \<Rightarrow> hist_scope \<Rightarrow> string \<Rightarrow> string list \<times> memo \<Rightarrow> string list \<times> memo" where
  "guard_step n s r = (\<lambda>(result, memo).
     let d = pos_at (sc_pos s) r;
         here = (if r \<in> set (sc_superseded s) \<or>
                    \<not> applicable (for_decision (sc_task s) (sc_events s ! d)) \<or>
                    map_of (sc_competing s) d \<noteq> None
                 then insort_insert r result else result)
     in (case dependency_guard_ids n s d memo of (inner, memo') \<Rightarrow> (set_union here inner, memo')))"

lemma dependency_guard_ids_Suc:
  "dependency_guard_ids (Suc n) s i memo =
     (case map_of memo i of
        Some cached \<Rightarrow> (cached, memo)
      | None \<Rightarrow> (case fold (guard_step n s) (de_depends_on (sc_events s ! i)) ([], memo) of
           (result, memo') \<Rightarrow> (result, (i, result) # memo')))"
  unfolding guard_step_def [abs_def] by simp

declare dependency_guard_ids.simps(2) [simp del] collect_ancestors.simps(2) [simp del]

lemma dependency_guard_ids_spec:
  assumes ok: "history_ok (sc_events s)" and pos: "sc_pos s = positions (sc_events s)"
  shows "i < n \<Longrightarrow> i < length (sc_events s) \<Longrightarrow> memo_ok s memo \<Longrightarrow> dependency_guard_ids n s i memo = (guards, memo') \<Longrightarrow>
    oset_ok guards \<and> set guards = guard_set s i \<and> memo_ok s memo'"
proof (induction n arbitrary: i memo guards memo')
  case (Suc n)
  let ?p = "pos_at (positions (sc_events s))" and ?d = "\<lambda>j. de_id (sc_events s ! j)"
  have pass: "oset_ok (fst (fold (guard_step n s) rs acc)) \<and>
      set (fst (fold (guard_step n s) rs acc)) = set (fst acc) \<union>
        (\<Union>a \<in> ?p ` set rs. (if unsound s a then {?d a} else {}) \<union> guard_set s a) \<and>
      memo_ok s (snd (fold (guard_step n s) rs acc))"
    if "set rs \<subseteq> set (de_depends_on (sc_events s ! i))" "oset_ok (fst acc)" "memo_ok s (snd acc)" for rs acc
    using that
  proof (induction rs arbitrary: acc)
    case (Cons r rs)
    obtain result memo where acc: "acc = (result, memo)" by (cases acc)
    have r: "?p r < i" "?d (?p r) = r" using pos_at_ref(2) [OF ok Suc.prems(2), of r] Cons.prems(1) by auto
    obtain inner memo' where d: "dependency_guard_ids n s (?p r) memo = (inner, memo')" by fastforce
    have ih: "oset_ok inner \<and> set inner = guard_set s (?p r) \<and> memo_ok s memo'"
      by (rule Suc.IH [OF _ _ _ d]) (use r Suc.prems(1,2) Cons.prems(3) acc in auto)
    have "oset_ok (fst (guard_step n s r acc)) \<and> set (fst (guard_step n s r acc)) =
        set (fst acc) \<union> ((if unsound s (?p r) then {?d (?p r)} else {}) \<union> guard_set s (?p r)) \<and>
        memo_ok s (snd (guard_step n s r acc))"
      using Cons.prems(2) ih r(2) by (auto simp: guard_step_def acc pos Let_def d unsound_def)
    with Cons.IH [of "guard_step n s r acc"] Cons.prems(1) show ?case by auto
  qed simp
  show ?case
  proof (cases "map_of memo i")
    case (Some cached)
    then show ?thesis using Suc.prems(3,4) by (auto simp: dependency_guard_ids_Suc memo_ok_def)
  next
    case None
    let ?r = "fold (guard_step n s) (de_depends_on (sc_events s ! i)) ([], memo)"
    have "oset_ok (fst ?r) \<and> set (fst ?r) = guard_set s i \<and> memo_ok s (snd ?r)"
      using pass [OF subset_refl, of "([], memo)"] Suc.prems(3)
      unfolding image_refs(2) [OF ok Suc.prems(2)] guard_set_children [of s i] by simp
    moreover have "guards = fst ?r" "memo' = (i, fst ?r) # snd ?r"
      using Suc.prems(4) None by (simp_all add: dependency_guard_ids_Suc split: prod.splits)
    ultimately show ?thesis by (auto simp: memo_ok_def)
  qed
qed simp

section \<open>What may be stated\<close>

text \<open>The specification.  Two current decisions are rivals when they share an action and supersede a common
  ancestor.  A decision is upheld when it is current for the task, its conditions hold and it has no rival; it
  is dependable when everything it depends on is upheld as well.\<close>

definition rival :: "hist_request \<Rightarrow> nat \<Rightarrow> nat \<Rightarrow> bool" where
  "rival r i j \<longleftrightarrow>
     (let events = hr_events r; current = set (current_indices (hr_task r) events) in
      i \<in> current \<and> j \<in> current \<and> i \<noteq> j \<and>
      set (de_actions (events ! i)) \<inter> set (de_actions (events ! j)) \<noteq> {} \<and>
      (supersession events)\<^sup>+ `` {i} \<inter> (supersession events)\<^sup>+ `` {j} \<noteq> {})"

definition upheld :: "hist_request \<Rightarrow> nat \<Rightarrow> bool" where
  "upheld r i \<longleftrightarrow> i \<in> set (current_indices (hr_task r) (hr_events r)) \<and>
     applicable (for_decision (hr_task r) (hr_events r ! i)) \<and> (\<forall>j. \<not> rival r i j)"

definition dependable :: "hist_request \<Rightarrow> nat \<Rightarrow> bool" where
  "dependable r i \<longleftrightarrow> upheld r i \<and> (\<forall>j. (i, j) \<in> (dependency (hr_events r))\<^sup>+ \<longrightarrow> upheld r j)"

definition task_member :: "hist_request \<Rightarrow> nat \<Rightarrow> bool" where
  "task_member r i \<longleftrightarrow> i < length (hr_events r) \<and> de_project (hr_events r ! i) = tk_project (hr_task r) \<and>
     de_task_id (hr_events r ! i) = tk_id (hr_task r)"

lemma current_iff:
  "i \<in> set (current_indices (hr_task r) (hr_events r)) \<longleftrightarrow>
     task_member r i \<and> de_id (hr_events r ! i) \<notin> set (superseded_ids (hr_events r))"
  by (auto simp: current_indices_def task_member_def in_task_def)

lemma task_member_reference:
  assumes "history_ok (hr_events r)" and "(i, j) \<in> references (hr_events r)" and "task_member r i"
  shows "task_member r j"
proof -
  let ?es = "hr_events r"
  from assms(2) have e: "j < i" "i < length ?es" "de_id (?es ! j) \<in> set (de_supersedes (?es ! i)) \<union> set (de_depends_on (?es ! i))"
    by (auto simp: supersession_def dependency_def)
  with assms(1) have "refers ?es i (de_id (?es ! j))" and d: "distinct (map de_id ?es)" by (auto simp: history_ok_def)
  then obtain k where k: "k < i" "de_id (?es ! k) = de_id (?es ! j)" "de_project (?es ! k) = de_project (?es ! i)"
      "de_task_id (?es ! k) = de_task_id (?es ! i)"
    by (auto simp: refers_def)
  have "k = j" using nth_eq_iff_index_eq [OF d, of k j] k(1,2) e(1,2) by simp
  then show ?thesis using k e assms(3) by (simp add: task_member_def)
qed

lemma task_member_reach:
  assumes "history_ok (hr_events r)" and "(i, j) \<in> (references (hr_events r))\<^sup>+" and "task_member r i"
  shows "task_member r j"
  using assms(2,3) by (induction rule: trancl.induct) (auto intro: task_member_reference [OF assms(1)])

lemma map_of_nonempty:
  "map_of (filter (\<lambda>(i, peers). peers \<noteq> []) (map (\<lambda>i. (i, f i)) xs)) i =
     (if i \<in> set xs \<and> f i \<noteq> [] then Some (f i) else None)"
  by (induction xs) auto

text \<open>The conflicts of the code are the rivals of the specification.\<close>

lemma competing_spec:
  assumes ok: "history_ok (hr_events r)"
  shows "competing_at (scope_of r (positions (hr_events r))) i \<noteq> [] \<longleftrightarrow> (\<exists>j. rival r i j)"
    and "map_of (sc_competing (scope_of r (positions (hr_events r)))) i =
      (if \<exists>j. rival r i j then Some (competing_at (scope_of r (positions (hr_events r))) i) else None)"
    and "set (competing_at (scope_of r (positions (hr_events r))) i) = (\<lambda>j. de_id (hr_events r ! j)) ` {j. rival r i j}"
proof -
  let ?es = "hr_events r" and ?cur = "current_indices (hr_task r) (hr_events r)"
  let ?up = "\<lambda>i. supersession_ancestors (length ?es) ?es (positions ?es) i []"
  let ?s = "scope_of r (positions ?es)"
  have up: "set (?up i) = (supersession ?es)\<^sup>+ `` {i}" if "i \<in> set ?cur" for i
  proof -
    have "i < length ?es" using that by (simp add: current_iff task_member_def)
    then show ?thesis using supersession_ancestors_set [OF ok, of i "length ?es" "[]"]
      by (simp add: superseding.visited_below_def)
  qed
  have m: "map_of (sc_competing ?s) i = (if i \<in> set ?cur \<and> peers_of ?es ?up ?cur i \<noteq> []
      then Some (peers_of ?es ?up ?cur i) else None)"
    by (simp add: scope_of_def competing_by_index_def Let_def map_of_nonempty)
  have p: "set (peers_of ?es ?up ?cur i) = (\<lambda>j. de_id (?es ! j)) ` {j. rival r i j}" if "i \<in> set ?cur"
  proof -
    have "filter (\<lambda>j. j \<noteq> i \<and> list_ex (\<lambda>a. a \<in> set (de_actions (?es ! j))) (de_actions (?es ! i)) \<and>
        set (?up i) \<inter> set (?up j) \<noteq> {}) ?cur = filter (rival r i) ?cur"
      using that by (intro filter_cong) (auto simp: rival_def Let_def up list_ex_iff)
    moreover have "{j. rival r i j} \<subseteq> set ?cur" by (auto simp: rival_def Let_def)
    ultimately show ?thesis unfolding peers_of_def by auto
  qed
  have n: "\<not> rival r i j" if "i \<notin> set ?cur" for j using that by (simp add: rival_def Let_def)
  have c: "competing_at ?s i = (if i \<in> set ?cur then peers_of ?es ?up ?cur i else [])"
    by (auto simp: competing_at_def m)
  show s: "set (competing_at ?s i) = (\<lambda>j. de_id (?es ! j)) ` {j. rival r i j}"
    using p n by (auto simp: c)
  show e: "competing_at ?s i \<noteq> [] \<longleftrightarrow> (\<exists>j. rival r i j)"
    using s by (metis (no_types, lifting) Collect_empty_eq image_is_empty set_empty)
  show "map_of (sc_competing ?s) i = (if \<exists>j. rival r i j then Some (competing_at ?s i) else None)"
    using e n by (auto simp: c m split: if_splits)
qed

lemma unsound_upheld:
  assumes "history_ok (hr_events r)" and "task_member r i"
  shows "unsound (scope_of r (positions (hr_events r))) i \<longleftrightarrow> \<not> upheld r i"
  using assms(2) competing_spec(2) [OF assms(1), of i]
  by (auto simp: unsound_def upheld_def current_iff scope_of_def)

lemma dependency_member:
  assumes "history_ok (hr_events r)" and "task_member r i" and "(i, j) \<in> (dependency (hr_events r))\<^sup>+"
  shows "task_member r j"
proof -
  have "(i, j) \<in> (references (hr_events r))\<^sup>+" using assms(3) by (rule trancl_mono) auto
  then show ?thesis using task_member_reach [OF assms(1)] assms(2) by blast
qed

lemma guards_of_spec:
  assumes ok: "history_ok (hr_events r)" and i: "task_member r i"
    and m: "memo_ok (scope_of r (positions (hr_events r))) memo"
    and g: "guards_of (scope_of r (positions (hr_events r))) i memo = (guards, memo')"
  shows "memo_ok (scope_of r (positions (hr_events r))) memo'"
    and "guards = [] \<longleftrightarrow> (\<forall>j. (i, j) \<in> (dependency (hr_events r))\<^sup>+ \<longrightarrow> upheld r j) \<and> (\<forall>j. \<not> rival r i j)"
proof -
  let ?s = "scope_of r (positions (hr_events r))"
  have s: "sc_events ?s = hr_events r" "sc_pos ?s = positions (hr_events r)" by (simp_all add: scope_of_def)
  obtain gs mm where d: "dependency_guard_ids (Suc (length (sc_events ?s))) ?s i memo = (gs, mm)" by fastforce
  have spec: "set gs = guard_set ?s i \<and> memo_ok ?s mm"
    using dependency_guard_ids_spec [where s = ?s and i = i and n = "Suc (length (sc_events ?s))" and memo = memo] d ok i m
    by (simp add: s task_member_def)
  have "memo' = mm" using g d by (auto simp: guards_of_def split: option.splits)
  then show "memo_ok ?s memo'" using spec by simp
  have "guards = [] \<longleftrightarrow> gs = [] \<and> competing_at ?s i = []"
  proof (cases "map_of (sc_competing ?s) i")
    case None
    then show ?thesis using g d by (simp add: guards_of_def competing_at_def)
  next
    case (Some peers)
    then have "guards = remdups_adj (sort (gs @ peers))" using g d by (simp add: guards_of_def)
    moreover have "set (remdups_adj (sort (gs @ peers))) = set gs \<union> set peers" by simp
    ultimately have "guards = [] \<longleftrightarrow> gs = [] \<and> peers = []" by (metis Un_empty set_empty)
    then show ?thesis using Some by (simp add: competing_at_def)
  qed
  moreover have "gs = [] \<longleftrightarrow> (\<forall>j. (i, j) \<in> (dependency (hr_events r))\<^sup>+ \<longrightarrow> upheld r j)"
  proof -
    have "gs = [] \<longleftrightarrow> guard_set ?s i = {}" using spec by auto
    also have "\<dots> \<longleftrightarrow> (\<forall>j. (i, j) \<in> (dependency (hr_events r))\<^sup>+ \<longrightarrow> upheld r j)"
      using dependency_member [OF ok i] unsound_upheld [OF ok] by (auto simp: guard_set_def s)
    finally show ?thesis .
  qed
  ultimately show "guards = [] \<longleftrightarrow> (\<forall>j. (i, j) \<in> (dependency (hr_events r))\<^sup>+ \<longrightarrow> upheld r j) \<and> (\<forall>j. \<not> rival r i j)"
    using competing_spec(1) [OF ok, of i] by auto
qed

section \<open>The items of a history packet\<close>

lemma item_fields:
  "jget (current_item d a competing guards) ''statement'' =
     (if applicable a \<and> competing = [] \<and> guards = [] then Some (JStr (de_statement d)) else None)"
  "jget (dependency_item d a guards) ''statement'' =
     (if applicable a \<and> guards = [] then Some (JStr (de_statement d)) else None)"
  "jget (summary_item d rel) ''statement'' = None"
  "jget (current_item d a competing guards) ''id'' = Some (JStr (de_id d))"
  "jget (dependency_item d a guards) ''id'' = Some (JStr (de_id d))"
  "jget (summary_item d rel) ''id'' = Some (JStr (de_id d))"
  by (simp_all add: current_item_def dependency_item_def summary_item_def with_statement_def decision_fields_def obj_of_map_of)

text \<open>An item of a packet that stands for a decision and states it only if it is dependable.\<close>

definition shows_decision :: "hist_request \<Rightarrow> nat \<Rightarrow> packet_item \<Rightarrow> bool" where
  "shows_decision r i it \<longleftrightarrow> pi_required it \<and> jget (pi_content it) ''id'' = Some (JStr (de_id (hr_events r ! i))) \<and>
     jget (pi_content it) ''statement'' =
       (if dependable r i then Some (JStr (de_statement (hr_events r ! i))) else None)"

lemma plain_item_simps [simp]: "pi_content (plain_item i c) = c" "pi_required (plain_item i c)" "pi_id (plain_item i c) = i"
  by (simp_all add: plain_item_def)

lemma current_pass:
  assumes ok: "history_ok (hr_events r)"
  shows "set ms \<subseteq> set (current_indices (hr_task r) (hr_events r)) \<Longrightarrow> memo_ok (scope_of r (positions (hr_events r))) memo \<Longrightarrow>
    fold (current_step (scope_of r (positions (hr_events r)))) ms (items, memo) = (out, memo') \<Longrightarrow>
    memo_ok (scope_of r (positions (hr_events r))) memo' \<and>
    (\<exists>more. out = items @ more \<and> list_all2 (\<lambda>i x. shows_decision r i (fst x) \<and> snd x = (\<not> dependable r i)) ms more)"
proof (induction ms arbitrary: items memo)
  case (Cons i ms)
  let ?s = "scope_of r (positions (hr_events r))" and ?d = "hr_events r ! i"
  let ?a = "for_decision (hr_task r) ?d" and ?c = "competing_at ?s i"
  have s: "sc_events ?s = hr_events r" "sc_task ?s = hr_task r" by (simp_all add: scope_of_def)
  have i: "task_member r i" "i \<in> set (current_indices (hr_task r) (hr_events r))"
    using Cons.prems(1) by (auto simp: current_iff)
  obtain guards memo1 where g: "guards_of ?s i memo = (guards, memo1)" by fastforce
  note gs = guards_of_spec [OF ok i(1) Cons.prems(2) g]
  let ?x = "(plain_item (''history:current:'' @ de_id ?d) (current_item ?d ?a ?c guards),
    \<not> applicable ?a \<or> ?c \<noteq> [] \<or> guards \<noteq> [])"
  have "current_step ?s i (items, memo) = (items @ [?x], memo1)"
    by (simp add: current_step_def s g Let_def)
  then have "fold (current_step ?s) ms (items @ [?x], memo1) = (out, memo')"
    using Cons.prems(3) by (simp only: fold_simps comp_apply)
  from Cons.IH [OF _ gs(1) this] Cons.prems(1) obtain more where more: "out = (items @ [?x]) @ more"
    "list_all2 (\<lambda>i x. shows_decision r i (fst x) \<and> snd x = (\<not> dependable r i)) ms more" "memo_ok ?s memo'"
    by auto
  have "dependable r i \<longleftrightarrow> applicable ?a \<and> ?c = [] \<and> guards = []"
    using gs(2) competing_spec(1) [OF ok, of i] i(2) by (auto simp: dependable_def upheld_def)
  then have "shows_decision r i (fst ?x) \<and> snd ?x = (\<not> dependable r i)"
    by (simp add: shows_decision_def item_fields)
  then show ?case using more by (intro conjI exI [of _ "?x # more"]) simp_all
qed simp

lemma ancestor_pass:
  assumes ok: "history_ok (hr_events r)"
  shows "\<forall>x \<in> set xs. task_member r (fst x) \<and> label_ok (hr_events r) x \<Longrightarrow>
    memo_ok (scope_of r (positions (hr_events r))) memo \<Longrightarrow>
    fold (ancestor_step (scope_of r (positions (hr_events r)))) xs (items, memo) = (out, memo') \<Longrightarrow>
    \<exists>more. out = items @ more \<and> list_all2 (shows_decision r) (map fst xs) more"
proof (induction xs arbitrary: items memo)
  case (Cons x xs)
  obtain i rel where x: "x = (i, rel)" by (cases x)
  let ?s = "scope_of r (positions (hr_events r))" and ?d = "hr_events r ! i"
  let ?a = "for_decision (hr_task r) ?d"
  have s: "sc_events ?s = hr_events r" "sc_task ?s = hr_task r" "sc_superseded ?s = superseded_ids (hr_events r)"
    by (simp_all add: scope_of_def)
  have i: "task_member r i" "label_ok (hr_events r) (i, rel)" using Cons.prems(1) x by auto
  obtain guards memo1 where g: "guards_of ?s i memo = (guards, memo1)" by fastforce
  note gs = guards_of_spec [OF ok i(1) Cons.prems(2) g]
  let ?live = "rel = ''dependency'' \<and> de_id ?d \<notin> set (superseded_ids (hr_events r))"
  let ?it = "plain_item (''history:'' @ rel @ '':'' @ de_id ?d) (if ?live then dependency_item ?d ?a guards else summary_item ?d rel)"
  have "ancestor_step ?s x (items, memo) = (items @ [?it], memo1)"
    by (simp add: ancestor_step_def s x g Let_def)
  then have "fold (ancestor_step ?s) xs (items @ [?it], memo1) = (out, memo')"
    using Cons.prems(3) by (simp only: fold_simps comp_apply)
  from Cons.IH [OF _ gs(1) this] Cons.prems(1) obtain more where more: "out = (items @ [?it]) @ more"
    "list_all2 (shows_decision r) (map fst xs) more"
    by auto
  have "rel \<noteq> ''dependency'' \<Longrightarrow> de_id ?d \<in> set (superseded_ids (hr_events r))"
    using i(2) by (auto simp: label_ok_def supersession_def superseded_ids_def)
  then have "?live \<longleftrightarrow> i \<in> set (current_indices (hr_task r) (hr_events r))"
    using i(1) by (auto simp: current_iff)
  then have "(?live \<and> applicable ?a \<and> guards = []) \<longleftrightarrow> dependable r i"
    using gs(2) by (auto simp: dependable_def upheld_def)
  then have "shows_decision r i ?it" by (auto simp: shows_decision_def item_fields)
  then show ?case using more by (intro exI [of _ "?it # more"]) (simp add: x)
qed simp

text \<open>Items that are all required are all in the packet.\<close>

lemma all_required:
  assumes "prepare_packet L tok q = Inr p" and "list_all pi_required (pq_items q)"
  shows "pp_packet_json p = packet_json L q [0..<length (pq_items q)]" and "pp_after_reference_tokens p \<le> pq_budget_tokens q"
proof -
  have "filter (\<lambda>(_, it). pi_required it) (enumerate 0 (pq_items q)) = enumerate 0 (pq_items q)"
    "filter (\<lambda>(_, it). \<not> pi_required it) (enumerate 0 (pq_items q)) = []"
    using assms(2) by (auto simp: filter_id_conv filter_empty_conv list_all_iff in_set_enumerate_eq)
  then have "required_indices (pq_items q) = [0..<length (pq_items q)]" "optional_order (pq_items q) = []"
    by (simp_all add: required_indices_def optional_order_def)
  then show "pp_packet_json p = packet_json L q [0..<length (pq_items q)]" "pp_after_reference_tokens p \<le> pq_budget_tokens q"
    using assms(1) by (auto simp: prepare_packet_def Let_def split: if_splits option.splits)
qed

definition history_scope :: "hist_request \<Rightarrow> nat set" where
  "history_scope r = (let matching = set (matching_indices (hr_task r) (hr_events r)) in
     matching \<union> (references (hr_events r))\<^sup>+ `` matching)"

text \<open>C17. A history packet states only what may be relied on: it shows, each once, the current decisions for the task's
  action and everything they supersede or depend on, directly or not, and an item carries the statement of its
  decision exactly when the decision is dependable.  The guarded ids are the current decisions that are not, and the
  packet is called prepared exactly when there are none, within the budget.\<close>

theorem history_states_only_dependable:
  assumes "prepare_history L tok r = Inr p"
  shows "\<exists>order items. distinct order \<and> set order = history_scope r \<and> list_all2 (shows_decision r) order items \<and>
    pp_packet_json (ph_prepared p) = packet_json L
      \<lparr>pq_stable_prefix = hr_stable_prefix r, pq_task = task_value (hr_task r), pq_items = items,
       pq_budget_tokens = hr_budget_tokens r\<rparr> [0..<length items] \<and>
    ph_after_tokens p \<le> hr_budget_tokens r \<and>
    ph_guarded p = map (\<lambda>i. de_id (hr_events r ! i))
      (filter (\<lambda>i. \<not> dependable r i) (matching_indices (hr_task r) (hr_events r))) \<and>
    (ph_resolution p = ''prepared'' \<longleftrightarrow> list_all (dependable r) (matching_indices (hr_task r) (hr_events r)))"
proof -
  let ?es = "hr_events r" and ?ms = "matching_indices (hr_task r) (hr_events r)"
  from assms obtain pos where v: "validate_history r = Inr pos" by (auto simp: prepare_history_def)
  note pos = validate_history_Inr(1) [OF v] and ok = validate_history_Inr(2) [OF v]
  let ?s = "scope_of r (positions ?es)"
  obtain current memo where cur: "fold (current_step ?s) ?ms ([], []) = (current, memo)" by fastforce
  obtain older memo' where old: "fold (ancestor_step ?s) (history_ancestors ?s ?ms) ([], memo) = (older, memo')" by fastforce
  let ?q = "\<lparr>pq_stable_prefix = hr_stable_prefix r, pq_task = task_value (hr_task r), pq_items = map fst current @ older,
    pq_budget_tokens = hr_budget_tokens r\<rparr>"
  let ?guarded = "map (\<lambda>(i, _). de_id (?es ! i)) (filter (\<lambda>(_, _, g). g) (zip ?ms current))"
  let ?comp = "sorted_list_of_set (set (concat (map (competing_at ?s) ?ms)))"
  from assms obtain packet where p: "prepare_packet L tok ?q = Inr packet" "ph_prepared p = packet"
      "ph_after_tokens p = pp_after_reference_tokens packet" "ph_guarded p = ?guarded"
      "ph_resolution p = (if ?comp \<noteq> [] then ''unknown_conflict'' else if ?guarded \<noteq> [] then ''unknown'' else ''prepared'')"
    by (auto simp: prepare_history_def v pos Let_def cur old split: if_splits)
  have sub: "set ?ms \<subseteq> set (current_indices (hr_task r) ?es)"
    by (auto simp: matching_indices_def current_indices_def)
  have empty: "memo_ok ?s []" by (simp add: memo_ok_def)
  from current_pass [OF ok sub empty cur] have m: "memo_ok ?s memo"
    and c: "list_all2 (\<lambda>i x. shows_decision r i (fst x) \<and> snd x = (\<not> dependable r i)) ?ms current" by auto
  have mo: "oset_ok ?ms" "set ?ms \<subseteq> {..<length (sc_events ?s)}"
    by (auto simp: matching_indices_def oset_ok_def sorted_wrt_filter scope_of_def)
  have sc: "sc_events ?s = ?es" "sc_pos ?s = positions (sc_events ?s)" by (simp_all add: scope_of_def)
  note anc = history_ancestors_spec [OF _ sc(2) mo, unfolded sc(1), OF ok]
  have mem: "task_member r i" if "i \<in> history_scope r" for i
    using that sub task_member_reach [OF ok] by (auto simp: history_scope_def Let_def current_iff)
  have "\<forall>x \<in> set (history_ancestors ?s ?ms). task_member r (fst x) \<and> label_ok ?es x"
  proof
    fix x assume x: "x \<in> set (history_ancestors ?s ?ms)"
    then have "fst x \<in> history_scope r" using anc(1) by (auto simp: history_scope_def Let_def)
    then show "task_member r (fst x) \<and> label_ok ?es x" using mem anc(3) x by (simp add: list_all_iff)
  qed
  from ancestor_pass [OF ok this m old] have o: "list_all2 (shows_decision r) (map fst (history_ancestors ?s ?ms)) older" by auto
  let ?order = "?ms @ map fst (history_ancestors ?s ?ms)"
  have all: "list_all2 (shows_decision r) ?order (map fst current @ older)"
    using c o by (intro list_all2_appendI) (auto simp: list_all2_map2 elim: list_all2_mono)
  then have "list_all pi_required (map fst current @ older)"
    by (auto simp: list_all2_conv_all_nth list_all_length shows_decision_def)
  with p(1) have packet: "pp_packet_json packet = packet_json L ?q [0..<length (map fst current @ older)]"
      "pp_after_reference_tokens packet \<le> hr_budget_tokens r"
    using all_required [of L tok ?q packet] by auto
  have "distinct ?order" using anc(1,2) oset_ok_distinct [OF mo(1)] by auto
  moreover have "set ?order = history_scope r" using anc(1) by (auto simp: history_scope_def Let_def)
  moreover have gd: "?guarded = map (\<lambda>i. de_id (?es ! i)) (filter (\<lambda>i. \<not> dependable r i) ?ms)"
    using c by (induction rule: list_all2_induct) auto
  moreover have "ph_resolution p = ''prepared'' \<longleftrightarrow> list_all (dependable r) ?ms"
  proof -
    have "?guarded = [] \<longleftrightarrow> list_all (dependable r) ?ms"
      unfolding gd by (auto simp: filter_empty_conv list_all_iff)
    moreover have "?comp = []" if "list_all (dependable r) ?ms"
    proof -
      have "competing_at ?s i = []" if "i \<in> set ?ms" for i
        using that \<open>list_all (dependable r) ?ms\<close> competing_spec(1) [OF ok, of i]
        by (auto simp: list_all_iff dependable_def upheld_def)
      then show ?thesis by (simp add: sorted_list_of_set_eq_Nil_iff)
    qed
    ultimately show ?thesis by (auto simp: p(5))
  qed
  ultimately show ?thesis
    using all packet p(2-4) by (intro exI [of _ ?order] exI [of _ "map fst current @ older"]) auto
qed

text \<open>Two decisions, the second in place of the first.\<close>

definition demo_decision :: "string \<Rightarrow> string \<Rightarrow> string list \<Rightarrow> decision" where
  "demo_decision i t old = \<lparr>de_id = i, de_project = ''p'', de_task_id = ''t'', de_actions = [''a''], de_statement = ''do '' @ i,
     de_rationale = ''r'', de_conditions = [], de_sources = [\<lparr>hs_id = ''s'', hs_sha256 = replicate 64 (CHR ''0''), hs_session_id = None\<rparr>],
     de_supersedes = old, de_depends_on = [], de_lessons = [], de_reopen_when = [], de_observed_at = t\<rparr>"

definition demo_history :: hist_request where
  "demo_history = \<lparr>hr_stable_prefix = JNull,
     hr_task = \<lparr>tk_id = ''t'', tk_project = ''p'', tk_action = ''a'', tk_state = TaskActive, tk_conditions = []\<rparr>,
     hr_budget_tokens = 0,
     hr_events = [demo_decision ''x'' ''2026-01-01T00:00:00Z'' [], demo_decision ''y'' ''2026-01-02T00:00:00Z'' [''x'']]\<rparr>"

definition quiet_lib :: lib where
  "quiet_lib = \<lparr>x_sha = (\<lambda>_. []), x_ser = (\<lambda>_. []), x_parse = (\<lambda>_. Some JNull), x_entry = (\<lambda>_. None)\<rparr>"

lemma demo_valid: "validate_history demo_history = Inr [(''y'', 1), (''x'', 0)]"
  by code_simp

lemma demo_prepared: "case prepare_history quiet_lib (\<lambda>_. Inr 0) demo_history of Inr p \<Rightarrow>
    ph_guarded p = [] \<and> ph_resolution p = ''prepared'' | Inl _ \<Rightarrow> False"
  by code_simp

lemma demo_matching: "matching_indices (hr_task demo_history) (hr_events demo_history) = [1]"
  by code_simp

lemma history_states_only_dependable_witness:
  "\<exists>p. prepare_history quiet_lib (\<lambda>_. Inr 0) demo_history = Inr p \<and> ph_resolution p = ''prepared'' \<and> dependable demo_history 1"
proof -
  obtain p where p: "prepare_history quiet_lib (\<lambda>_. Inr 0) demo_history = Inr p" "ph_resolution p = ''prepared''"
    using demo_prepared by (auto split: sum.splits)
  from history_states_only_dependable [OF p(1)] have "list_all (dependable demo_history) [1]"
    unfolding demo_matching using p(2) by blast
  then have "dependable demo_history 1" by simp
  with p show ?thesis by blast
qed

end
