(* ===== verification/History_Store.thy ===== *)
theory History_Store
  imports History Attachments
begin

text \<open>
  The private store of decision histories (\<open>middleware/history/store.rs\<close>): one directory for each task with
  immutable snapshots, named by their hash, and an append-only index whose last line selects the
  current one.  A file is its bytes; the two parsers the store needs are parameters.  What a save
  writes is a list of single writes, so that it can be cut short anywhere; two saves of a task
  exclude each other by the lock.
\<close>

section \<open>State and errors\<close>

definition MAX_STORE_FILE_BYTES :: nat where
  "MAX_STORE_FILE_BYTES = 16 * 1024 * 1024"

record hist_lib =
  hx_lib :: lib
  hx_request :: "string \<Rightarrow> hist_request option"
  hx_index :: "string \<Rightarrow> string option"

record task_files =
  tf_lock :: bool
  tf_index :: "string option"
  tf_snapshots :: "(string \<times> string) list"

type_synonym hist_store = "(string \<times> task_files) list"

text \<open>What the check of the scope reports, and the messages of \<open>Corrupt\<close>, by what they say.\<close>

datatype scope_error =
    StoreHistory hist_error
  | CrossTaskEvent string string

datatype corruption =
    Oversized
  | IncompleteIndex
  | IndexNotUtf8
  | BlankIndexLine nat
  | BadIndexLine nat
  | BadIndexHash nat
  | EmptyIndex
  | BadSnapshot string
  | BadScope scope_error
  | WrongHash string string
  | PriorRewrites string
  | NoScope
  | OtherTask

datatype store_error =
    StoreScope scope_error
  | StoreCorrupt corruption
  | StoreIo io_error
  | SnapshotConflict string
  | DecisionRemoved string
  | DecisionRewritten string
  | StoreTooLarge string nat

record save_receipt =
  sr_resolution :: string
  sr_sha256 :: string

section \<open>Reading\<close>

definition task_key :: "lib \<Rightarrow> string \<Rightarrow> string \<Rightarrow> string" where
  "task_key L project task = sha256_hex (x_sha L) (x_ser L (JArr [JStr project, JStr task]))"

definition index_line :: "lib \<Rightarrow> string \<Rightarrow> string" where
  "index_line L h = struct_text [(''history_source_sha256'', x_ser L (JStr h))]"

definition read_bounded :: "string option \<Rightarrow> store_error + string" where
  "read_bounded f =
     (case f of
        None \<Rightarrow> Inl (StoreIo NotFound)
      | Some bytes \<Rightarrow> if length bytes > MAX_STORE_FILE_BYTES then Inl (StoreCorrupt Oversized) else Inr bytes)"

definition validate_task_scope :: "hist_request \<Rightarrow> scope_error + unit" where
  "validate_task_scope r =
     bindE (mapErr StoreHistory (validate_history r)) (\<lambda>_.
     let t = hr_task r in
     if list_ex (\<lambda>e. de_project e \<noteq> tk_project t \<or> de_task_id e \<noteq> tk_id t) (hr_events r)
     then Inl (CrossTaskEvent (tk_project t) (tk_id t))
     else Inr ())"

definition read_snapshot :: "hist_lib \<Rightarrow> task_files \<Rightarrow> string \<Rightarrow> store_error + hist_request" where
  "read_snapshot X f expected =
     bindE (read_bounded (map_of (tf_snapshots f) expected)) (\<lambda>bytes.
     case hx_request X bytes of
       None \<Rightarrow> Inl (StoreCorrupt (BadSnapshot expected))
     | Some r \<Rightarrow>
         bindE (mapErr (\<lambda>e. StoreCorrupt (BadScope e)) (validate_task_scope r)) (\<lambda>_.
         let actual = history_sha256 (hx_lib X) r in
         if actual \<noteq> expected then Inl (StoreCorrupt (WrongHash actual expected)) else Inr r))"

fun index_entries :: "hist_lib \<Rightarrow> nat \<Rightarrow> string list \<Rightarrow> store_error + string list" where
  "index_entries X n [] = Inr []"
| "index_entries X n (l # ls) =
     (if trim l = [] then Inl (StoreCorrupt (BlankIndexLine n))
      else case hx_index X l of
             None \<Rightarrow> Inl (StoreCorrupt (BadIndexLine n))
           | Some h \<Rightarrow>
               if length h \<noteq> 64 \<or> \<not> list_all is_ascii_hexdigit h then Inl (StoreCorrupt (BadIndexHash n))
               else bindE (index_entries X (n + 1) ls) (\<lambda>hs. Inr (h # hs)))"

definition read_index :: "hist_lib \<Rightarrow> string option \<Rightarrow> store_error + string list" where
  "read_index X f =
     bindE (read_bounded f) (\<lambda>bytes.
     if bytes = [] \<or> last bytes \<noteq> CHR 0x0A then Inl (StoreCorrupt IncompleteIndex)
     else if \<not> valid_utf8 bytes then Inl (StoreCorrupt IndexNotUtf8)
     else bindE (index_entries X 1 (lines bytes)) (\<lambda>hs.
     if hs = [] then Inl (StoreCorrupt EmptyIndex) else Inr hs))"

section \<open>Saving\<close>

definition remember :: "lib \<Rightarrow> decision \<Rightarrow> (string \<times> string) list \<Rightarrow> store_error + (string \<times> string) list" where
  "remember L d prior =
     (let bytes = decision_text (x_ser L) d in
      case map_of prior (de_id d) of
        Some previous \<Rightarrow>
          if previous \<noteq> bytes then Inl (StoreCorrupt (PriorRewrites (de_id d))) else Inr prior
      | None \<Rightarrow> Inr (omap_insert (de_id d) bytes prior))"

definition remember_snapshot ::
  "hist_lib \<Rightarrow> task_files \<Rightarrow> string \<Rightarrow> (string \<times> string) list \<Rightarrow> store_error + (string \<times> string) list" where
  "remember_snapshot X f h prior =
     bindE (read_snapshot X f h) (\<lambda>older. foldE (remember (hx_lib X)) (hr_events older) prior)"

definition reject_immutable_changes :: "hist_lib \<Rightarrow> task_files \<Rightarrow> string list \<Rightarrow> hist_request \<Rightarrow> store_error + unit" where
  "reject_immutable_changes X f entries r =
     (let incoming = fold (\<lambda>e. omap_insert (de_id e) (decision_text (x_ser (hx_lib X)) e)) (hr_events r) [] in
      bindE (foldE (remember_snapshot X f) entries []) (\<lambda>prior.
      bindE (mapE (\<lambda>(i, old). case map_of incoming i of
          None \<Rightarrow> Inl (DecisionRemoved i)
        | Some new \<Rightarrow> if new \<noteq> old then Inl (DecisionRewritten i) else Inr ()) prior) (\<lambda>_. Inr ())))"

text \<open>The single writes of a save, under the lock and after its checks.\<close>

datatype store_write =
    CreateSnapshot string
  | WriteSnapshot string string
  | OpenIndex
  | WriteIndex string

fun apply_write :: "store_write \<Rightarrow> task_files \<Rightarrow> task_files" where
  "apply_write (CreateSnapshot h) f = f\<lparr>tf_snapshots := omap_insert h [] (tf_snapshots f)\<rparr>"
| "apply_write (WriteSnapshot h bytes) f = f\<lparr>tf_snapshots := omap_upd h [] (\<lambda>old. old @ bytes) (tf_snapshots f)\<rparr>"
| "apply_write OpenIndex f = f\<lparr>tf_index := Some (case tf_index f of None \<Rightarrow> [] | Some old \<Rightarrow> old)\<rparr>"
| "apply_write (WriteIndex bytes) f =
     f\<lparr>tf_index := Some (case tf_index f of None \<Rightarrow> bytes | Some old \<Rightarrow> old @ bytes)\<rparr>"

definition prior_entries :: "hist_lib \<Rightarrow> task_files \<Rightarrow> store_error + string list" where
  "prior_entries X f = (case tf_index f of None \<Rightarrow> Inr [] | Some _ \<Rightarrow> read_index X (tf_index f))"

definition index_text :: "task_files \<Rightarrow> string" where
  "index_text f = (case tf_index f of None \<Rightarrow> [] | Some b \<Rightarrow> b)"

definition snapshot_writes :: "task_files \<Rightarrow> string \<Rightarrow> string \<Rightarrow> store_error + store_write list" where
  "snapshot_writes f hash bytes =
     (case map_of (tf_snapshots f) hash of
        None \<Rightarrow> Inr [CreateSnapshot hash, WriteSnapshot hash bytes]
      | Some existing \<Rightarrow>
          bindE (read_bounded (Some existing)) (\<lambda>existing.
          if existing \<noteq> bytes then Inl (SnapshotConflict hash) else Inr []))"

definition save_writes :: "hist_lib \<Rightarrow> hist_request \<Rightarrow> task_files \<Rightarrow> store_error + store_write list" where
  "save_writes X r f =
     (let L = hx_lib X; hash = history_sha256 L r; line = index_line L hash in
      bindE (prior_entries X f) (\<lambda>prior.
      bindE (reject_immutable_changes X f prior r) (\<lambda>_.
      if length (index_text f) + length line + 1 > MAX_STORE_FILE_BYTES
      then Inl (StoreTooLarge ''index'' MAX_STORE_FILE_BYTES)
      else bindE (snapshot_writes f hash (request_text (x_ser L) r)) (\<lambda>ws.
      Inr (ws @ [OpenIndex, WriteIndex line, WriteIndex [CHR 0x0A]])))))"

definition save_checks :: "lib \<Rightarrow> hist_request \<Rightarrow> store_error + unit" where
  "save_checks L r =
     bindE (mapErr StoreScope (validate_task_scope r)) (\<lambda>_.
     if length (request_text (x_ser L) r) > MAX_STORE_FILE_BYTES
     then Inl (StoreTooLarge ''snapshot'' MAX_STORE_FILE_BYTES) else Inr ())"

definition request_key :: "lib \<Rightarrow> hist_request \<Rightarrow> string" where
  "request_key L r = task_key L (tk_project (hr_task r)) (tk_id (hr_task r))"

text \<open>The directory of a task, created when it is missing, and its lock file.\<close>

definition task_files_of :: "string \<Rightarrow> hist_store \<Rightarrow> task_files" where
  "task_files_of k st =
     (case map_of st k of None \<Rightarrow> \<lparr>tf_lock = False, tf_index = None, tf_snapshots = []\<rparr> | Some f \<Rightarrow> f)"

definition locked_files :: "string \<Rightarrow> hist_store \<Rightarrow> task_files" where
  "locked_files k st = (task_files_of k st)\<lparr>tf_lock := True\<rparr>"

definition save_history :: "hist_lib \<Rightarrow> hist_request \<Rightarrow> hist_store \<Rightarrow> (store_error + save_receipt) \<times> hist_store" where
  "save_history X r st =
     (let L = hx_lib X; k = request_key L r; f = locked_files k st in
      case save_checks L r of
        Inl e \<Rightarrow> (Inl e, st)
      | Inr _ \<Rightarrow>
          case save_writes X r f of
            Inl e \<Rightarrow> (Inl e, omap_insert k f st)
          | Inr ws \<Rightarrow>
              (Inr \<lparr>sr_resolution = ''saved'', sr_sha256 = history_sha256 L r\<rparr>, omap_insert k (fold apply_write ws f) st))"

definition load_history :: "hist_lib \<Rightarrow> string \<Rightarrow> string \<Rightarrow> hist_store \<Rightarrow> store_error + (hist_request \<times> string)" where
  "load_history X project task st =
     (if trim project = [] \<or> trim task = [] then Inl (StoreCorrupt NoScope)
      else
        let f = task_files_of (task_key (hx_lib X) project task) st in
        if \<not> tf_lock f then Inl (StoreIo NotFound)
        else
          bindE (read_index X (tf_index f)) (\<lambda>entries.
          bindE (read_snapshot X f (last entries)) (\<lambda>r.
          if tk_project (hr_task r) \<noteq> project \<or> tk_id (hr_task r) \<noteq> task then Inl (StoreCorrupt OtherTask)
          else Inr (r, last entries))))"

section \<open>What the checks of a save establish\<close>

text \<open>The decisions of \<open>a\<close> are in \<open>b\<close>, byte for byte.\<close>

definition keeps :: "lib \<Rightarrow> hist_request \<Rightarrow> hist_request \<Rightarrow> bool" where
  "keeps L a b \<longleftrightarrow> (\<forall>e \<in> set (hr_events a). \<exists>e' \<in> set (hr_events b).
     de_id e' = de_id e \<and> decision_text (x_ser L) e' = decision_text (x_ser L) e)"

lemma keeps_refl [simp]: "keeps L a a"
  by (auto simp: keeps_def)

text \<open>What the store relies on from \<open>serde_json\<close> and SHA-256 for one envelope: its bytes parse back, and so does its line
  in the index, which is one line of UTF-8 with a digest of 32 bytes.\<close>

definition stores_back :: "hist_lib \<Rightarrow> hist_request \<Rightarrow> bool" where
  "stores_back X r \<longleftrightarrow>
     (let L = hx_lib X; h = history_sha256 L r in
      hx_request X (request_text (x_ser L) r) = Some r \<and> hx_index X (index_line L h) = Some h \<and>
      one_line (index_line L h) \<and> valid_utf8 (index_line L h) \<and> length (x_sha L (request_text (x_ser L) r)) = 32)"

abbreviation snapshots_are :: "hist_lib \<Rightarrow> task_files \<Rightarrow> string list \<Rightarrow> hist_request list \<Rightarrow> bool" where
  "snapshots_are X f \<equiv> list_all2 (\<lambda>h s. read_snapshot X f h = Inr s)"

lemma remember_fold:
  assumes "foldE (remember L) es prior = Inr prior'"
  shows "map_of prior \<subseteq>\<^sub>m map_of prior' \<and> (\<forall>e \<in> set es. map_of prior' (de_id e) = Some (decision_text (x_ser L) e))"
  using assms
proof (induction es arbitrary: prior)
  case (Cons e es)
  then obtain mid where mid: "remember L e prior = Inr mid" "foldE (remember L) es mid = Inr prior'" by auto
  from mid(1) have "map_of prior \<subseteq>\<^sub>m map_of mid" and e: "map_of mid (de_id e) = Some (decision_text (x_ser L) e)"
    by (auto simp: remember_def Let_def map_le_def split: option.splits if_splits)
  moreover note Cons.IH [OF mid(2)]
  ultimately show ?case by (auto intro: map_le_trans simp: map_le_def dom_def)
qed simp

lemma remember_snapshots_fold:
  assumes "foldE (remember_snapshot X f) hs prior = Inr prior'"
  shows "map_of prior \<subseteq>\<^sub>m map_of prior' \<and> (\<exists>ss. snapshots_are X f hs ss \<and>
    (\<forall>s \<in> set ss. \<forall>e \<in> set (hr_events s). map_of prior' (de_id e) = Some (decision_text (x_ser (hx_lib X)) e)))"
  using assms
proof (induction hs arbitrary: prior)
  case (Cons h hs)
  then obtain mid where "remember_snapshot X f h prior = Inr mid" and "foldE (remember_snapshot X f) hs mid = Inr prior'"
    by auto
  then obtain s where s: "read_snapshot X f h = Inr s" "foldE (remember (hx_lib X)) (hr_events s) prior = Inr mid"
    "foldE (remember_snapshot X f) hs mid = Inr prior'"
    by (auto simp: remember_snapshot_def)
  from Cons.IH [OF s(3)] obtain ss where ss: "map_of mid \<subseteq>\<^sub>m map_of prior'" "snapshots_are X f hs ss"
    "\<forall>s \<in> set ss. \<forall>e \<in> set (hr_events s). map_of prior' (de_id e) = Some (decision_text (x_ser (hx_lib X)) e)"
    by auto
  have "\<forall>e \<in> set (hr_events s). map_of prior' (de_id e) = Some (decision_text (x_ser (hx_lib X)) e)"
    using remember_fold [OF s(2)] ss(1) by (metis domI map_le_def)
  then show ?case
    using remember_fold [OF s(2)] s(1) ss by (auto intro!: exI [of _ "s # ss"] intro: map_le_trans)
qed simp

lemma incoming_lookup:
  "map_of (fold (\<lambda>e. omap_insert (k e) (v e)) es m) i = Some t \<Longrightarrow>
     (\<exists>e \<in> set es. k e = i \<and> v e = t) \<or> map_of m i = Some t"
  by (induction es arbitrary: m) (fastforce split: if_splits)+

lemma reject_immutable_changes_Inr:
  assumes "reject_immutable_changes X f hs r = Inr u"
  shows "\<exists>ss. snapshots_are X f hs ss \<and> (\<forall>s \<in> set ss. keeps (hx_lib X) s r)"
proof -
  let ?t = "decision_text (x_ser (hx_lib X))"
  let ?in = "fold (\<lambda>e. omap_insert (de_id e) (?t e)) (hr_events r) []"
  from assms obtain prior us where p: "foldE (remember_snapshot X f) hs [] = Inr prior"
    and c: "mapE (\<lambda>(i, old). case map_of ?in i of None \<Rightarrow> Inl (DecisionRemoved i)
        | Some new \<Rightarrow> if new \<noteq> old then Inl (DecisionRewritten i) else Inr ()) prior = Inr us"
    by (auto simp: reject_immutable_changes_def Let_def)
  from remember_snapshots_fold [OF p] obtain ss where ss: "snapshots_are X f hs ss"
    "\<forall>s \<in> set ss. \<forall>e \<in> set (hr_events s). map_of prior (de_id e) = Some (?t e)" by auto
  have "map_of ?in i = Some old" if "(i, old) \<in> set prior" for i old
    using that c by (fastforce simp: mapE_Inr_iff list_all2_conv_all_nth in_set_conv_nth split: option.splits if_splits)
  then have "map_of ?in (de_id e) = Some (?t e)" if "s \<in> set ss" "e \<in> set (hr_events s)" for s e
    using that ss(2) by (meson map_of_SomeD)
  then show ?thesis using ss(1) incoming_lookup [of de_id ?t "hr_events r" "[]"] by (fastforce simp: keeps_def)
qed

section \<open>The index after an append\<close>

lemma read_bounded_Inr [simp]: "read_bounded f = Inr b \<longleftrightarrow> f = Some b \<and> length b \<le> MAX_STORE_FILE_BYTES"
  by (auto simp: read_bounded_def split: option.splits)

lemma index_entries_append:
  "index_entries X n (ls @ ms) =
     bindE (index_entries X n ls) (\<lambda>hs. bindE (index_entries X (n + length ls) ms) (\<lambda>ks. Inr (hs @ ks)))"
proof (induction ls arbitrary: n)
  case Nil
  then show ?case by (cases "index_entries X n ms") auto
next
  case (Cons l ls)
  then show ?case
    by (cases "index_entries X (Suc n) ls"; cases "index_entries X (Suc (n + length ls)) ms")
      (auto split: option.splits)
qed

lemma index_line_trim: "trim (index_line L h) \<noteq> []"
  using trim_braces [of "[CHR 0x22] @ ''history_source_sha256'' @ [CHR 0x22] @ '':'' @ x_ser L (JStr h)"]
  by (simp add: index_line_def struct_text_def join_with_def)

lemma read_index_append:
  assumes "stores_back X r" and "old = [] \<or> read_index X (Some old) = Inr hs" and "old = [] \<Longrightarrow> hs = []"
    and "length old + length (index_line (hx_lib X) (history_sha256 (hx_lib X) r)) + 1 \<le> MAX_STORE_FILE_BYTES"
  shows "read_index X (Some (old @ index_line (hx_lib X) (history_sha256 (hx_lib X) r) @ [CHR 0x0A])) =
    Inr (hs @ [history_sha256 (hx_lib X) r])"
proof -
  let ?h = "history_sha256 (hx_lib X) r" let ?l = "index_line (hx_lib X) ?h"
  have old: "(old = [] \<or> last old = CHR 0x0A) \<and> valid_utf8 old \<and> index_entries X 1 (lines old) = Inr hs"
    using assms(2,3) by (auto simp: read_index_def split: if_splits)
  have h: "length ?h = 64" "list_all is_ascii_hexdigit ?h"
    using assms(1) by (auto simp: stores_back_def Let_def history_sha256_def sha256_hex_length sha256_hex_digits)
  have l: "hx_index X ?l = Some ?h" "one_line ?l" "valid_utf8 ?l"
    using assms(1) by (auto simp: stores_back_def Let_def)
  have v: "valid_utf8 (old @ ?l @ [CHR 0x0A])"
    using old l(3) valid_utf8_unlines [of "[?l]"] by (simp add: valid_utf8_append)
  have e: "lines (old @ ?l @ [CHR 0x0A]) = lines old @ [?l]"
    using old lines_append [of old] lines_line [OF l(2)] by auto
  show ?thesis
    using assms(4) v old by (simp add: read_index_def e index_entries_append l h index_line_trim)
qed

text \<open>An index whose last line is cut short is refused.\<close>

lemma read_index_torn:
  assumes "strict_prefix t (l @ [CHR 0x0A])" and "one_line l" and "t \<noteq> [] \<or> old = []"
  shows "\<exists>e. read_index X (Some (old @ t)) = Inl e"
proof -
  have "prefix t l" using assms(1) by (auto simp: strict_prefix_def)
  then have "CHR 0x0A \<notin> set t" using assms(2) by (auto simp: one_line_def dest: set_mono_prefix)
  then have "old @ t = [] \<or> last (old @ t) \<noteq> CHR 0x0A" using assms(3) by (cases "t = []") (auto dest: last_in_set)
  then show ?thesis by (auto simp: read_index_def read_bounded_def)
qed

section \<open>Runs of the store\<close>

text \<open>A list of writes that is cut short: by a crash or a failing write, possibly in the middle of one.\<close>

inductive cut :: "store_write list \<Rightarrow> store_write list \<Rightarrow> bool" where
  before: "cut ws []"
| whole: "cut ws vs \<Longrightarrow> cut (w # ws) (w # vs)"
| torn_snapshot: "prefix b bytes \<Longrightarrow> cut (WriteSnapshot h bytes # ws) [WriteSnapshot h b]"
| torn_index: "prefix b bytes \<Longrightarrow> cut (WriteIndex bytes # ws) [WriteIndex b]"

inductive_simps cut_simps: "cut [] vs" "cut (CreateSnapshot h # ws) vs" "cut (WriteSnapshot h bytes # ws) vs"
  "cut (OpenIndex # ws) vs" "cut (WriteIndex bytes # ws) vs"

lemma cut_refl: "cut ws ws"
  by (induction ws) (auto intro: cut.intros)

text \<open>A run of saves, with the envelopes in order; the flag says that the save returned its receipt.\<close>

inductive history_run :: "hist_lib \<Rightarrow> hist_store \<Rightarrow> (hist_request \<times> bool) list \<Rightarrow> bool" for X where
  start: "history_run X [] []"
| saved: "history_run X st log \<Longrightarrow> save_history X r st = (Inr receipt, st') \<Longrightarrow> stores_back X r \<Longrightarrow>
    history_run X st' (log @ [(r, True)])"
| refused: "history_run X st log \<Longrightarrow> save_history X r st = (Inl e, st') \<Longrightarrow> history_run X st' log"
| entered: "history_run X st log \<Longrightarrow> save_checks (hx_lib X) r = Inr () \<Longrightarrow> k = request_key (hx_lib X) r \<Longrightarrow>
    history_run X (omap_insert k (task_files_of k st) st) log"
| interrupted: "history_run X st log \<Longrightarrow> save_checks (hx_lib X) r = Inr () \<Longrightarrow> k = request_key (hx_lib X) r \<Longrightarrow>
    save_writes X r (locked_files k st) = Inr ws \<Longrightarrow> cut ws vs \<Longrightarrow> stores_back X r \<Longrightarrow>
    history_run X (omap_insert k (fold apply_write vs (locked_files k st)) st) (log @ [(r, False)])"

text \<open>The envelopes that took effect: all that were acknowledged, and some of the others.\<close>

inductive took :: "('a \<times> bool) list \<Rightarrow> 'a list \<Rightarrow> bool" where
  none: "took [] []"
| took: "took log rs \<Longrightarrow> took (log @ [(r, ack)]) (rs @ [r])"
| lost: "took log rs \<Longrightarrow> took (log @ [(r, False)]) rs"

lemma took_acknowledged:
  "took log rs \<Longrightarrow> log = before @ (r, True) # later \<Longrightarrow>
     r \<in> set rs \<and> rs \<noteq> [] \<and> (last rs = r \<or> last rs \<in> fst ` set later)"
proof (induction arbitrary: later rule: took.induct)
  case (took log rs q ack)
  then show ?case by (cases later rule: rev_cases) auto
next
  case (lost log rs q)
  then show ?case by (cases later rule: rev_cases) auto
qed simp

text \<open>One directory is sound for the envelopes that were saved to it.\<close>

definition dir_ok :: "hist_lib \<Rightarrow> task_files \<Rightarrow> (hist_request \<times> bool) list \<Rightarrow> bool" where
  "dir_ok X f log \<longleftrightarrow>
     (case tf_index f of
        None \<Rightarrow> took log []
      | Some b \<Rightarrow> \<forall>hs. read_index X (Some b) = Inr hs \<longrightarrow>
          (\<exists>ss. snapshots_are X f hs ss \<and> sorted_wrt (keeps (hx_lib X)) ss \<and> took log ss))"

lemma read_snapshot_mono:
  "map_of (tf_snapshots f) \<subseteq>\<^sub>m map_of (tf_snapshots f') \<Longrightarrow> read_snapshot X f h = Inr s \<Longrightarrow> read_snapshot X f' h = Inr s"
  by (auto simp: read_snapshot_def map_le_def dom_def)

lemma snapshots_mono:
  "map_of (tf_snapshots f) \<subseteq>\<^sub>m map_of (tf_snapshots f') \<Longrightarrow> snapshots_are X f hs ss \<Longrightarrow> snapshots_are X f' hs ss"
  by (auto elim!: list_all2_mono dest: read_snapshot_mono)

lemma snapshots_unique: "snapshots_are X f hs ss \<Longrightarrow> snapshots_are X f hs ts \<Longrightarrow> ss = ts"
  by (induction hs arbitrary: ss ts) (auto simp: list_all2_Cons1)

lemma save_writes_Inr:
  assumes "save_writes X r f = Inr ws"
  obtains hs ss ws' where "tf_index f = None \<and> hs = [] \<or> read_index X (tf_index f) = Inr hs"
    and "snapshots_are X f hs ss" and "\<forall>s \<in> set ss. keeps (hx_lib X) s r"
    and "length (index_text f) + length (index_line (hx_lib X) (history_sha256 (hx_lib X) r)) + 1 \<le> MAX_STORE_FILE_BYTES"
    and "snapshot_writes f (history_sha256 (hx_lib X) r) (request_text (x_ser (hx_lib X)) r) = Inr ws'"
    and "ws = ws' @ [OpenIndex, WriteIndex (index_line (hx_lib X) (history_sha256 (hx_lib X) r)), WriteIndex [CHR 0x0A]]"
proof -
  from assms obtain hs u ws' where p: "prior_entries X f = Inr hs" "reject_immutable_changes X f hs r = Inr u"
    and rest: "length (index_text f) + length (index_line (hx_lib X) (history_sha256 (hx_lib X) r)) + 1 \<le> MAX_STORE_FILE_BYTES"
      "snapshot_writes f (history_sha256 (hx_lib X) r) (request_text (x_ser (hx_lib X)) r) = Inr ws'"
      "ws = ws' @ [OpenIndex, WriteIndex (index_line (hx_lib X) (history_sha256 (hx_lib X) r)), WriteIndex [CHR 0x0A]]"
    by (simp add: save_writes_def Let_def split: if_splits) blast
  from p(1) have "tf_index f = None \<and> hs = [] \<or> read_index X (tf_index f) = Inr hs"
    by (cases "tf_index f") (simp_all add: prior_entries_def)
  with reject_immutable_changes_Inr [OF p(2)] rest that show thesis by blast
qed

text \<open>The files after a save that was cut short, or not.\<close>

lemma cut_files:
  assumes "save_writes X r f = Inr ws" and "cut ws vs" and "one_line (index_line (hx_lib X) (history_sha256 (hx_lib X) r))"
  defines "h \<equiv> history_sha256 (hx_lib X) r" and "f' \<equiv> fold apply_write vs f"
  shows "map_of (tf_snapshots f) \<subseteq>\<^sub>m map_of (tf_snapshots f')" (is ?snapshots)
    and "tf_index f' = tf_index f \<or>
      (\<exists>t. tf_index f' = Some (index_text f @ t) \<and> strict_prefix t (index_line (hx_lib X) h @ [CHR 0x0A]) \<and>
        (t \<noteq> [] \<or> index_text f = [])) \<or>
      tf_index f' = Some (index_text f @ index_line (hx_lib X) h @ [CHR 0x0A]) \<and>
        map_of (tf_snapshots f') h = Some (request_text (x_ser (hx_lib X)) r)" (is ?index)
    and "vs = ws \<Longrightarrow> tf_index f' = Some (index_text f @ index_line (hx_lib X) h @ [CHR 0x0A]) \<and>
        map_of (tf_snapshots f') h = Some (request_text (x_ser (hx_lib X)) r)"
proof -
  let ?l = "index_line (hx_lib X) h" and ?b = "request_text (x_ser (hx_lib X)) r"
  let ?append = "[OpenIndex, WriteIndex ?l, WriteIndex [CHR 0x0A]]"
  from assms(1) obtain ws' where ws': "snapshot_writes f h ?b = Inr ws'" "ws = ws' @ ?append"
    unfolding h_def by (rule save_writes_Inr)
  then have ws: "ws = [CreateSnapshot h, WriteSnapshot h ?b] @ ?append \<and> map_of (tf_snapshots f) h = None \<or>
      ws = ?append \<and> map_of (tf_snapshots f) h = Some ?b"
    by (auto simp: snapshot_writes_def split: option.splits if_splits)
  have l: "?l \<noteq> []" by (simp add: index_line_def struct_text_def)
  from ws assms(2) show ?snapshots
    by (auto simp: cut_simps f'_def map_le_def)
  from ws assms(2) l show ?index
    by (auto simp: cut_simps f'_def strict_prefix_def prefix_Cons index_text_def split: option.splits)
  from ws show "vs = ws \<Longrightarrow> tf_index f' = Some (index_text f @ ?l @ [CHR 0x0A]) \<and> map_of (tf_snapshots f') h = Some ?b"
    by (auto simp: f'_def index_text_def split: option.splits)
qed

lemma read_snapshot_new:
  assumes "save_checks (hx_lib X) r = Inr ()" and "stores_back X r"
    and "map_of (tf_snapshots f) (history_sha256 (hx_lib X) r) = Some (request_text (x_ser (hx_lib X)) r)"
  shows "read_snapshot X f (history_sha256 (hx_lib X) r) = Inr r"
proof -
  have "validate_task_scope r = Inr ()" "length (request_text (x_ser (hx_lib X)) r) \<le> MAX_STORE_FILE_BYTES"
    using assms(1) by (auto simp: save_checks_def split: if_splits)
  then show ?thesis using assms(2,3) by (simp add: read_snapshot_def read_bounded_def stores_back_def Let_def)
qed

text \<open>A complete append adds one entry.\<close>

lemma complete_append:
  assumes "save_writes X r f = Inr ws" and "stores_back X r"
  shows "\<exists>hs. (tf_index f = None \<and> hs = [] \<or> read_index X (tf_index f) = Inr hs) \<and>
    (\<exists>ss. snapshots_are X f hs ss \<and> (\<forall>s \<in> set ss. keeps (hx_lib X) s r)) \<and>
    read_index X (Some (index_text f @ index_line (hx_lib X) (history_sha256 (hx_lib X) r) @ [CHR 0x0A])) =
      Inr (hs @ [history_sha256 (hx_lib X) r])"
proof -
  from assms(1) obtain hs ss where hs: "tf_index f = None \<and> hs = [] \<or> read_index X (tf_index f) = Inr hs"
    and ss: "snapshots_are X f hs ss" "\<forall>s \<in> set ss. keeps (hx_lib X) s r"
    and b: "length (index_text f) + length (index_line (hx_lib X) (history_sha256 (hx_lib X) r)) + 1 \<le> MAX_STORE_FILE_BYTES"
    by (rule save_writes_Inr)
  have "index_text f = [] \<or> read_index X (Some (index_text f)) = Inr hs"
    using hs by (cases "tf_index f") (simp_all add: index_text_def)
  moreover have "hs = []" if "index_text f = []"
    using that hs by (cases "tf_index f") (auto simp: read_index_def index_text_def)
  ultimately show ?thesis using read_index_append [OF assms(2) _ _ b] hs ss by blast
qed

lemma dir_ok_cut:
  assumes "dir_ok X f log" and "save_checks (hx_lib X) r = Inr ()" and "save_writes X r f = Inr ws" and "cut ws vs"
    and "stores_back X r" and "ack \<Longrightarrow> vs = ws"
  shows "dir_ok X (fold apply_write vs f) (log @ [(r, ack)])"
proof -
  let ?f = "fold apply_write vs f" and ?L = "hx_lib X"
  let ?h = "history_sha256 ?L r" let ?l = "index_line ?L ?h"
  have l: "one_line ?l" using assms(5) by (simp add: stores_back_def Let_def)
  note files = cut_files [OF assms(3,4) l]
  show ?thesis
  proof (cases "tf_index ?f = Some (index_text f @ ?l @ [CHR 0x0A]) \<and>
      map_of (tf_snapshots ?f) ?h = Some (request_text (x_ser ?L) r)")
    case True
    from complete_append [OF assms(3,5)] obtain hs ss where hs: "tf_index f = None \<and> hs = [] \<or> read_index X (tf_index f) = Inr hs"
      and ss: "snapshots_are X f hs ss" "\<forall>s \<in> set ss. keeps ?L s r"
      and new: "read_index X (tf_index ?f) = Inr (hs @ [?h])"
      using True by auto
    have "sorted_wrt (keeps ?L) ss \<and> took log ss"
    proof (cases "tf_index f")
      case None
      then show ?thesis using assms(1) hs ss(1) by (auto simp: dir_ok_def read_index_def)
    next
      case (Some b)
      then show ?thesis using assms(1) hs snapshots_unique [OF ss(1)] by (auto simp: dir_ok_def)
    qed
    moreover have "snapshots_are X ?f (hs @ [?h]) (ss @ [r])"
      using snapshots_mono [OF files(1) ss(1)] read_snapshot_new [OF assms(2,5)] True
      by (intro list_all2_appendI) auto
    ultimately show ?thesis
      using True new ss(2) by (auto simp: dir_ok_def sorted_wrt_append intro: took.took)
  next
    case False
    then have ack: "\<not> ack" using files(3) assms(6) by blast
    from False files(2) consider "tf_index ?f = tf_index f"
      | t where "tf_index ?f = Some (index_text f @ t)" "strict_prefix t (?l @ [CHR 0x0A])" "t \<noteq> [] \<or> index_text f = []"
      by blast
    then show ?thesis
    proof cases
      case 1
      then show ?thesis
        using assms(1) ack by (fastforce simp: dir_ok_def split: option.splits dest: snapshots_mono [OF files(1)] intro: took.lost)
    next
      case 2
      obtain e where "read_index X (Some (index_text f @ t)) = Inl e" using read_index_torn [OF 2(2) l 2(3)] by blast
      with 2(1) show ?thesis by (simp add: dir_ok_def)
    qed
  qed
qed

definition store_ok :: "hist_lib \<Rightarrow> hist_store \<Rightarrow> (hist_request \<times> bool) list \<Rightarrow> bool" where
  "store_ok X st log \<longleftrightarrow>
     (\<forall>k. dir_ok X (task_files_of k st) (filter (\<lambda>(r, _). request_key (hx_lib X) r = k) log))"

lemma task_files_of_insert: "task_files_of k (omap_insert j f st) = (if k = j then f else task_files_of k st)"
  by (simp add: task_files_of_def)

lemma read_snapshot_lock [simp]: "read_snapshot X (f\<lparr>tf_lock := b\<rparr>) h = read_snapshot X f h"
  by (simp add: read_snapshot_def)

lemma dir_ok_lock [simp]: "dir_ok X (f\<lparr>tf_lock := b\<rparr>) log = dir_ok X f log"
  by (cases "tf_index f") (simp_all add: dir_ok_def)

lemma apply_writes_lock [simp]: "tf_lock (fold apply_write ws f) = tf_lock f"
proof -
  have "tf_lock (apply_write w f) = tf_lock f" for w f by (cases w) simp_all
  then show ?thesis by (induction ws arbitrary: f) simp_all
qed

lemma store_ok_saved:
  assumes "store_ok X st log" and "save_checks (hx_lib X) r = Inr ()" and "k = request_key (hx_lib X) r"
    and "save_writes X r (locked_files k st) = Inr ws" and "cut ws vs" and "stores_back X r" and "ack \<Longrightarrow> vs = ws"
  shows "store_ok X (omap_insert k (fold apply_write vs (locked_files k st)) st) (log @ [(r, ack)])"
proof -
  let ?log = "filter (\<lambda>(r, _). request_key (hx_lib X) r = k) log"
  have "dir_ok X (locked_files k st) ?log" using assms(1) by (simp add: store_ok_def locked_files_def)
  from dir_ok_cut [OF this assms(2,4,5,6,7)] show ?thesis
    using assms(1,3) by (auto simp: store_ok_def task_files_of_insert)
qed

lemma save_history_cases:
  assumes "save_history X r st = (res, st')"
  obtains e where "res = Inl e" "st' = st"
    | e where "res = Inl e" "st' = omap_insert (request_key (hx_lib X) r) (locked_files (request_key (hx_lib X) r) st) st"
    | ws where "save_checks (hx_lib X) r = Inr ()"
        "save_writes X r (locked_files (request_key (hx_lib X) r) st) = Inr ws"
        "st' = omap_insert (request_key (hx_lib X) r) (fold apply_write ws (locked_files (request_key (hx_lib X) r) st)) st"
        "res = Inr \<lparr>sr_resolution = ''saved'', sr_sha256 = history_sha256 (hx_lib X) r\<rparr>"
  using assms by (auto simp: save_history_def Let_def split: sum.splits)

lemma history_run_ok: "history_run X st log \<Longrightarrow> store_ok X st log"
proof (induction rule: history_run.induct)
  case start
  then show ?case by (auto simp: store_ok_def task_files_of_def dir_ok_def intro: took.none)
next
  case (saved st log r receipt st')
  from saved(2) show ?case
    by (rule save_history_cases) (use saved in \<open>auto intro!: store_ok_saved intro: cut_refl\<close>)
next
  case (refused st log r e st')
  from refused(2) show ?case
    by (rule save_history_cases) (use refused in \<open>auto simp: store_ok_def task_files_of_insert locked_files_def\<close>)
next
  case (entered st log r k)
  then show ?case by (auto simp: store_ok_def task_files_of_insert)
next
  case (interrupted st log r k ws vs)
  then show ?case by (auto intro!: store_ok_saved)
qed

lemma load_history_Inr:
  assumes "load_history X project task st = Inr (q, h)"
  obtains hs where "read_index X (tf_index (task_files_of (task_key (hx_lib X) project task) st)) = Inr hs"
    and "read_snapshot X (task_files_of (task_key (hx_lib X) project task) st) h = Inr q" and "h = last hs"
proof -
  let ?f = "task_files_of (task_key (hx_lib X) project task) st"
  from assms have "bindE (read_index X (tf_index ?f)) (\<lambda>entries. bindE (read_snapshot X ?f (last entries)) (\<lambda>r.
      if tk_project (hr_task r) \<noteq> project \<or> tk_id (hr_task r) \<noteq> task then Inl (StoreCorrupt OtherTask)
      else Inr (r, last entries))) = Inr (q, h)"
    unfolding load_history_def Let_def by (metis Inl_Inr_False)
  then show thesis
    unfolding bindE_eq_Inr using that by (metis Inl_Inr_False Pair_inject Inr_inject)
qed

text \<open>C19. The store never loses a decision: after any run of saves, refused saves and saves that were cut short at any
  write, what a task loads is the last envelope that was acknowledged or one that was tried after it, and it holds every
  decision of every acknowledged envelope byte for byte.\<close>

theorem loaded_history_keeps_saved_decisions:
  assumes "history_run X st (before @ (r, True) # later)"
    and "load_history X (tk_project (hr_task r)) (tk_id (hr_task r)) st = Inr (q, h)"
  shows "(q = r \<or> q \<in> fst ` set later) \<and> keeps (hx_lib X) r q \<and> h = history_sha256 (hx_lib X) q"
proof -
  let ?k = "request_key (hx_lib X) r"
  let ?p = "\<lambda>(r, _ :: bool). request_key (hx_lib X) r = ?k"
  from assms(2) obtain hs where hs: "read_index X (tf_index (task_files_of ?k st)) = Inr hs"
    and q: "read_snapshot X (task_files_of ?k st) h = Inr q" "h = last hs"
    unfolding request_key_def by (rule load_history_Inr)
  from hs obtain b where b: "tf_index (task_files_of ?k st) = Some b" by (auto simp: read_index_def)
  have log: "filter ?p (before @ (r, True) # later) = filter ?p before @ (r, True) # filter ?p later" by simp
  from history_run_ok [OF assms(1)] have ok: "dir_ok X (task_files_of ?k st) (filter ?p before @ (r, True) # filter ?p later)"
    unfolding store_ok_def log [symmetric] by blast
  then obtain ss where ss: "snapshots_are X (task_files_of ?k st) hs ss" "sorted_wrt (keeps (hx_lib X)) ss"
      "took (filter ?p before @ (r, True) # filter ?p later) ss"
    using hs b by (auto simp: dir_ok_def)
  note t = took_acknowledged [OF ss(3) refl]
  have "length hs = length ss" using ss(1) by (rule list_all2_lengthD)
  moreover have "ss \<noteq> []" using t by blast
  ultimately have "length ss - 1 < length hs" and "last hs = hs ! (length ss - 1)" and "last ss = ss ! (length ss - 1)"
    by (metis diff_less length_greater_0_conv zero_less_one, metis last_conv_nth length_0_conv, metis last_conv_nth)
  with list_all2_nthD [OF ss(1)] have "read_snapshot X (task_files_of ?k st) (last hs) = Inr (last ss)" by metis
  then have q': "q = last ss" using q by simp
  have "keeps (hx_lib X) r (last ss)"
    using ss(2) t by (cases ss rule: rev_cases) (auto simp: sorted_wrt_append)
  moreover have "h = history_sha256 (hx_lib X) q"
    using q(1) by (auto simp: read_snapshot_def Let_def split: option.splits if_splits)
  ultimately show ?thesis using t q' by auto
qed

lemma acknowledged_loads:
  assumes "save_history X r st = (Inr receipt, st')" and "stores_back X r"
  shows "load_history X (tk_project (hr_task r)) (tk_id (hr_task r)) st' = Inr (r, sr_sha256 receipt) \<and>
    (\<forall>project task. task_key (hx_lib X) project task \<noteq> request_key (hx_lib X) r \<longrightarrow>
       load_history X project task st' = load_history X project task st)"
proof -
  let ?k = "request_key (hx_lib X) r" and ?h = "history_sha256 (hx_lib X) r"
  from assms(1) obtain ws where c: "save_checks (hx_lib X) r = Inr ()"
    and w: "save_writes X r (locked_files ?k st) = Inr ws"
    and st': "st' = omap_insert ?k (fold apply_write ws (locked_files ?k st)) st" and rc: "sr_sha256 receipt = ?h"
    by (rule save_history_cases) auto
  let ?f = "fold apply_write ws (locked_files ?k st)"
  have l: "one_line (index_line (hx_lib X) ?h)" using assms(2) by (simp add: stores_back_def Let_def)
  from cut_files(3) [OF w cut_refl l refl] complete_append [OF w assms(2)]
  have f: "\<exists>hs. read_index X (tf_index ?f) = Inr (hs @ [?h])" "read_snapshot X ?f ?h = Inr r"
    using read_snapshot_new [OF c assms(2)] by auto
  have "tf_lock ?f" by (simp add: locked_files_def)
  moreover have "trim (tk_project (hr_task r)) \<noteq> []" "trim (tk_id (hr_task r)) \<noteq> []"
    using c by (auto simp: save_checks_def validate_task_scope_def validate_history_def Let_def present_def split: if_splits)
  ultimately show ?thesis
    using f rc by (auto simp: load_history_def st' task_files_of_insert request_key_def [symmetric])
qed

text \<open>C20. What was acknowledged can be loaded, and no other task notices.\<close>

theorem saved_history_loads:
  assumes "save_history X r st = (Inr receipt, st')" and "stores_back X r"
  shows "load_history X (tk_project (hr_task r)) (tk_id (hr_task r)) st' = Inr (r, sr_sha256 receipt) \<and>
    (\<forall>project task. task_key (hx_lib X) project task \<noteq> request_key (hx_lib X) r \<longrightarrow>
       load_history X project task st' = load_history X project task st)"
  by (rule acknowledged_loads [OF assms])

text \<open>One save of the example into an empty store.\<close>

definition demo_store :: hist_lib where
  "demo_store = \<lparr>hx_lib = \<lparr>x_sha = (\<lambda>_. replicate 32 0), x_ser = (\<lambda>_. ''x''), x_parse = (\<lambda>_. None), x_entry = (\<lambda>_. None)\<rparr>,
     hx_request = (\<lambda>_. Some demo_history), hx_index = (\<lambda>_. Some (replicate 64 (CHR ''0'')))\<rparr>"

lemma demo_sha256: "history_sha256 (hx_lib demo_store) r = replicate 64 (CHR ''0'')"
proof -
  have "history_sha256 (hx_lib demo_store) r = concat (map hex_byte (replicate 32 0))"
    by (simp add: demo_store_def history_sha256_def sha256_hex_def)
  also have "\<dots> = replicate 64 (CHR ''0'')" by code_simp
  finally show ?thesis .
qed

lemma demo_index_line: "index_line (hx_lib demo_store) h = ''{'' @ [CHR 0x22] @ ''history_source_sha256'' @ [CHR 0x22] @ '':x}''"
  by (simp add: demo_store_def index_line_def struct_text_def join_with_def)

lemma demo_stores_back: "stores_back demo_store demo_history"
proof -
  let ?l = "''{'' @ [CHR 0x22] @ ''history_source_sha256'' @ [CHR 0x22] @ '':x}''"
  have "plain ?l" by code_simp
  then have "one_line ?l" "valid_utf8 ?l" by (rule plain_one_line, rule plain_valid)
  then show ?thesis
    unfolding stores_back_def Let_def demo_index_line by (simp add: demo_sha256) (simp add: demo_store_def)
qed

lemma demo_request_length: "length (request_text (x_ser (hx_lib demo_store)) demo_history) = 500"
  by code_simp

lemma demo_save: "\<exists>receipt st. save_history demo_store demo_history [] = (Inr receipt, st)"
proof -
  have "validate_task_scope demo_history = Inr ()"
    unfolding validate_task_scope_def demo_valid by code_simp
  then have "save_checks (hx_lib demo_store) demo_history = Inr ()"
    by (simp add: save_checks_def demo_request_length MAX_STORE_FILE_BYTES_def)
  moreover have "\<exists>ws. save_writes demo_store demo_history (locked_files k []) = Inr ws" for k
    by (simp add: save_writes_def locked_files_def task_files_of_def prior_entries_def reject_immutable_changes_def
        snapshot_writes_def index_text_def demo_index_line MAX_STORE_FILE_BYTES_def Let_def)
  ultimately show ?thesis
    unfolding save_history_def Let_def by (metis old.sum.simps(6))
qed

lemma saved_history_loads_witness:
  "\<exists>receipt st. save_history demo_store demo_history [] = (Inr receipt, st) \<and>
     load_history demo_store ''p'' ''t'' st = Inr (demo_history, sr_sha256 receipt)"
proof -
  obtain receipt st where s: "save_history demo_store demo_history [] = (Inr receipt, st)" using demo_save by blast
  from saved_history_loads [OF s demo_stores_back] s show ?thesis by (auto simp: demo_history_def)
qed

lemma demo_load: "save_history demo_store demo_history [] = (Inr receipt, st) \<Longrightarrow>
  \<exists>h. load_history demo_store (tk_project (hr_task demo_history)) (tk_id (hr_task demo_history)) st = Inr (demo_history, h)"
  using acknowledged_loads demo_stores_back by blast

lemma loaded_history_keeps_saved_decisions_witness:
  "\<exists>st q h. history_run demo_store st [(demo_history, True)] \<and>
     load_history demo_store (tk_project (hr_task demo_history)) (tk_id (hr_task demo_history)) st = Inr (q, h) \<and>
     q = demo_history \<and> keeps (hx_lib demo_store) demo_history q"
proof -
  obtain receipt st where s: "save_history demo_store demo_history [] = (Inr receipt, st)" using demo_save by blast
  have run: "history_run demo_store st ([] @ (demo_history, True) # [])"
    using history_run.saved [OF history_run.start s demo_stores_back] by simp
  obtain h where l: "load_history demo_store (tk_project (hr_task demo_history)) (tk_id (hr_task demo_history)) st = Inr (demo_history, h)"
    using demo_load [OF s] by blast
  from loaded_history_keeps_saved_decisions [OF run l] run l show ?thesis by auto
qed

end
