(* ===== verification/Task_State.thy ===== *)
theory Task_State
  imports Json_Model
begin

text \<open>
  The plan of an agent, recovered from a transcript (\<open>conversation/task_state\<close>): which records are
  calls and results of a planning tool, and what state a sequence of them leaves.  \<open>parse\<close> is the JSON
  reader; a transcript file is its bytes.
\<close>

section \<open>Data\<close>

datatype item_status = Pending | InProgress | Completed | Cancelled | UnknownStatus

fun status_str :: "item_status \<Rightarrow> string" where
  "status_str Pending = ''pending''"
| "status_str InProgress = ''in_progress''"
| "status_str Completed = ''completed''"
| "status_str Cancelled = ''cancelled''"
| "status_str UnknownStatus = ''unknown''"

text \<open>Names are compared after trimming, in lower case, without separators.\<close>

definition name_key :: "string \<Rightarrow> string" where
  "name_key raw = filter is_ascii_alphanumeric (to_ascii_lowercase (trim raw))"

definition status_parse :: "string \<Rightarrow> item_status option" where
  "status_parse raw =
     (let key = name_key raw in
      if key \<in> set [''pending'', ''todo'', ''notstarted'', ''open'', ''new'', ''waiting'', ''queued'', ''planned'', ''backlog'']
      then Some Pending
      else if key \<in> set [''inprogress'', ''active'', ''doing'', ''running'', ''started'', ''working'', ''ongoing'', ''current'']
      then Some InProgress
      else if key \<in> set [''completed'', ''complete'', ''done'', ''finished'', ''resolved'', ''closed'', ''succeeded'']
      then Some Completed
      else if key \<in> set [''cancelled'', ''canceled'', ''aborted'', ''rejected'', ''dropped'', ''skipped'', ''obsolete'',
        ''superseded'', ''wontfix'']
      then Some Cancelled
      else None)"

record task_item =
  ti_content :: string
  ti_status :: item_status
  ti_raw_status :: "string option"

record task_counts =
  tc_total :: "nat option"
  tc_active :: "nat option"
  tc_completed :: "nat option"
  tc_cancelled :: "nat option"

record task_state =
  ts_tool :: string
  ts_items :: "task_item list"
  ts_line :: nat
  ts_confirmed :: bool
  ts_counts :: "task_counts option"

definition current_task :: "task_state \<Rightarrow> task_item option" where
  "current_task s = find (\<lambda>i. ti_status i = InProgress) (ts_items s)"

definition next_pending :: "task_state \<Rightarrow> task_item option" where
  "next_pending s = find (\<lambda>i. ti_status i = Pending) (ts_items s)"

definition outstanding :: "task_state \<Rightarrow> nat" where
  "outstanding s = length (filter (\<lambda>i. ti_status i \<notin> {Completed, Cancelled}) (ts_items s))"

record extraction =
  ex_state :: "task_state option"
  ex_unparsed_lines :: nat

record plan_write =
  pw_line :: nat
  pw_tool :: string
  pw_items :: "task_item list"
  pw_counts :: "task_counts option"

record extractor =
  xt_confirmed :: "plan_write option"
  xt_pending :: "(string \<times> plan_write) list"
  xt_unpaired :: "plan_write list"
  xt_unparsed_lines :: nat

datatype origin = Call | Result

record observation =
  ob_line :: nat
  ob_origin :: origin
  ob_tool :: string
  ob_call_id :: "string option"
  ob_items :: "task_item list option"
  ob_counts :: "task_counts option"
  ob_failed :: bool

section \<open>Items\<close>

definition ITEM_ARRAY_KEYS :: "string list" where
  "ITEM_ARRAY_KEYS = [''todos'', ''todoList'', ''items'', ''plan'', ''planItems'', ''steps'', ''tasks'']"

definition ITEM_TEXT_KEYS :: "string list" where
  "ITEM_TEXT_KEYS = [''content'', ''text'', ''title'', ''task'', ''subject'', ''description'', ''name'']"

definition ITEM_STATUS_KEYS :: "string list" where
  "ITEM_STATUS_KEYS = [''status'', ''state'']"

definition TASK_STATE_TOOLS :: "string list" where
  "TASK_STATE_TOOLS = [''todowrite'', ''writetodos'', ''createtodos'', ''updatetodos'', ''settodo'', ''settodos'',
     ''updateplan'', ''updateplanlist'', ''updatetasklist'', ''createtasklist'', ''tasklist'', ''todo'', ''plan'']"

definition is_task_state_tool :: "string \<Rightarrow> bool" where
  "is_task_state_tool name = (name_key name \<in> set TASK_STATE_TOOLS)"

text \<open>The value of the first key that is there.\<close>

fun first_present :: "json \<Rightarrow> string list \<Rightarrow> json option" where
  "first_present v [] = None"
| "first_present v (k # ks) = (case jget v k of None \<Rightarrow> first_present v ks | Some x \<Rightarrow> Some x)"

definition parse_item :: "json \<Rightarrow> task_item option" where
  "parse_item entry =
     Option.bind (as_object entry) (\<lambda>_.
     Option.bind (Option.bind (first_present entry ITEM_TEXT_KEYS) as_str) (\<lambda>text.
     if trim text = [] then None
     else
       let raw = Option.bind (first_present entry ITEM_STATUS_KEYS) as_str in
       Some \<lparr>ti_content = trim text,
             ti_status = (case raw of
                None \<Rightarrow> Pending
              | Some s \<Rightarrow> (case status_parse s of None \<Rightarrow> UnknownStatus | Some st \<Rightarrow> st)),
             ti_raw_status = raw\<rparr>))"

fun first_items :: "json \<Rightarrow> string list \<Rightarrow> task_item list option" where
  "first_items v [] = None"
| "first_items v (k # ks) =
     (case Option.bind (jget v k) as_array of
        None \<Rightarrow> first_items v ks
      | Some entries \<Rightarrow>
          let items = List.map_filter parse_item entries in
          if items \<noteq> [] then Some items else first_items v ks)"

definition find_items :: "json \<Rightarrow> task_item list option" where
  "find_items container = Option.bind (as_object container) (\<lambda>_. first_items container ITEM_ARRAY_KEYS)"

definition read_count :: "json \<Rightarrow> string list \<Rightarrow> nat option" where
  "read_count v keys = Option.bind (first_present v keys) as_u64"

definition find_counts :: "json \<Rightarrow> task_counts option" where
  "find_counts container =
     Option.bind (as_object container) (\<lambda>_.
     let counts = \<lparr>tc_total = read_count container [''total''], tc_active = read_count container [''active''],
       tc_completed = read_count container [''completed''],
       tc_cancelled = read_count container [''cancelled'', ''canceled'']\<rparr> in
     if tc_total counts = None \<and> tc_active counts = None \<and> tc_completed counts = None \<and> tc_cancelled counts = None
     then None else Some counts)"

section \<open>Calls and results\<close>

definition role_of :: "json \<Rightarrow> string option" where
  "role_of v = jget_str v ''role''"

definition part_type :: "json \<Rightarrow> string option" where
  "part_type v = jget_str v ''type''"

definition content_parts :: "json \<Rightarrow> json list" where
  "content_parts message = (case Option.bind (jget message ''content'') as_array of None \<Rightarrow> [] | Some ps \<Rightarrow> ps)"

definition parse_arguments :: "(string \<Rightarrow> json option) \<Rightarrow> json option \<Rightarrow> json option" where
  "parse_arguments parse raw =
     Option.bind raw (\<lambda>v. case v of JStr text \<Rightarrow> parse text | JNull \<Rightarrow> None | _ \<Rightarrow> Some v)"

definition str_or_empty :: "json option \<Rightarrow> string" where
  "str_or_empty v = (case Option.bind v as_str of None \<Rightarrow> [] | Some s \<Rightarrow> s)"

definition call_id_of :: "json \<Rightarrow> string option" where
  "call_id_of part = Option.bind
     (first_present part [''call_id'', ''callId'', ''toolCallId'', ''tool_call_id'', ''tool_use_id'', ''id'']) as_str"

definition from_call :: "(string \<Rightarrow> json option) \<Rightarrow> json \<Rightarrow> nat \<Rightarrow> observation" where
  "from_call parse part line =
     (let tool = str_or_empty (case first_present part [''name'', ''toolName'', ''tool''] of
            None \<Rightarrow> jpointer part [''function'', ''name'']
          | Some v \<Rightarrow> Some v);
          arguments = parse_arguments parse (first_present part [''arguments'', ''input'', ''args'', ''parameters''])
      in \<lparr>ob_line = line, ob_origin = Call, ob_tool = tool, ob_call_id = call_id_of part,
          ob_items = Option.bind arguments find_items, ob_counts = Option.bind arguments find_counts,
          ob_failed = False\<rparr>)"

definition result_failed :: "json \<Rightarrow> bool" where
  "result_failed part \<longleftrightarrow>
     list_ex (\<lambda>k. Option.bind (jget part k) as_bool = Some True) [''isError'', ''is_error'', ''failed'', ''error''] \<or>
     Option.bind (jget part ''success'') as_bool = Some False \<or>
     (case jget_str part ''status'' of
        None \<Rightarrow> False
      | Some status \<Rightarrow> name_key status \<in> set [''failed'', ''error'', ''cancelled'', ''canceled'', ''aborted''])"

definition or_else :: "'a option \<Rightarrow> 'a option \<Rightarrow> 'a option" where
  "or_else x y = (case x of None \<Rightarrow> y | Some _ \<Rightarrow> x)"

definition from_result :: "json \<Rightarrow> nat \<Rightarrow> observation" where
  "from_result part line =
     \<lparr>ob_line = line, ob_origin = Result,
      ob_tool = str_or_empty (first_present part [''toolName'', ''tool_name'', ''tool'', ''name'']),
      ob_call_id = call_id_of part,
      ob_items = or_else (Option.bind (jget part ''details'') find_items) (find_items part),
      ob_counts = or_else (Option.bind (jget part ''details'') find_counts) (find_counts part),
      ob_failed = result_failed part\<rparr>"

definition payload_failed :: "(string \<Rightarrow> json option) \<Rightarrow> json \<Rightarrow> bool" where
  "payload_failed parse payload \<longleftrightarrow>
     Option.bind (jget payload ''is_error'') as_bool = Some True \<or>
     (case jget payload ''output'' of
        None \<Rightarrow> False
      | Some output \<Rightarrow>
          (case Option.bind (Option.bind (case output of JStr text \<Rightarrow> parse text | _ \<Rightarrow> Some output)
                  (\<lambda>v. jget v ''exit_code'')) as_i64 of
             None \<Rightarrow> False
           | Some code \<Rightarrow> code \<noteq> 0))"

text \<open>The record shapes, in the order in which the code reads them.\<close>

definition part_observations :: "(string \<Rightarrow> json option) \<Rightarrow> nat \<Rightarrow> json \<Rightarrow> observation list" where
  "part_observations parse line part =
     (if part_type part = Some ''tool_use'' then [from_call parse part line]
      else if part_type part = Some ''tool_result'' then [from_result part line] else [])"

definition payload_observations :: "(string \<Rightarrow> json option) \<Rightarrow> nat \<Rightarrow> json \<Rightarrow> observation list" where
  "payload_observations parse line event =
     (let payload = jidx event ''payload'';
          kind = str_or_empty (jpointer event [''payload'', ''type'']) in
      if kind \<in> {''function_call'', ''custom_tool_call''} then [from_call parse payload line]
      else if kind \<in> {''function_call_output'', ''custom_tool_call_output''} then
        let ob = from_result payload line in
        [ob\<lparr>ob_failed := ob_failed ob \<or> payload_failed parse payload\<rparr>]
      else [])"

definition observations :: "(string \<Rightarrow> json option) \<Rightarrow> nat \<Rightarrow> json \<Rightarrow> observation list" where
  "observations parse line event =
     (let message = (case jget event ''message'' of None \<Rightarrow> event | Some m \<Rightarrow> m);
          role = role_of message in
      (if role = Some ''toolResult'' then [from_result message line] else []) @
      (if role = Some ''assistant'' then
         map (\<lambda>part. from_call parse part line)
           (filter (\<lambda>part. part_type part \<in> {Some ''toolCall'', Some ''tool_call''}) (content_parts message))
       else []) @
      concat (map (part_observations parse line) (content_parts message)) @
      payload_observations parse line event @
      (case Option.bind (jget message ''tool_calls'') as_array of
         None \<Rightarrow> []
       | Some calls \<Rightarrow> map (\<lambda>call. from_call parse call line) calls) @
      (if role = Some ''tool'' then [from_result message line] else []))"

section \<open>The extractor\<close>

definition new_extractor :: extractor where
  "new_extractor = \<lparr>xt_confirmed = None, xt_pending = [], xt_unpaired = [], xt_unparsed_lines = 0\<rparr>"

definition observe_call :: "observation \<Rightarrow> extractor \<Rightarrow> extractor" where
  "observe_call ob x =
     (case ob_items ob of
        None \<Rightarrow> x
      | Some items \<Rightarrow>
          if \<not> is_task_state_tool (ob_tool ob) then x
          else
            let w = \<lparr>pw_line = ob_line ob, pw_tool = ob_tool ob, pw_items = items, pw_counts = ob_counts ob\<rparr> in
            (case ob_call_id ob of
               Some i \<Rightarrow> x\<lparr>xt_pending := omap_insert i w (xt_pending x)\<rparr>
             | None \<Rightarrow> x\<lparr>xt_unpaired := xt_unpaired x @ [w]\<rparr>))"

definition tool_for :: "extractor \<Rightarrow> string option \<Rightarrow> string" where
  "tool_for x call_id =
     (case Option.bind call_id (map_of (xt_pending x)) of None \<Rightarrow> [] | Some w \<Rightarrow> pw_tool w)"

definition observe_result :: "observation \<Rightarrow> extractor \<Rightarrow> extractor" where
  "observe_result ob x =
     (case ob_items ob of
        Some items \<Rightarrow>
          if ob_failed ob then x
          else
            let tool = (if ob_tool ob = [] then tool_for x (ob_call_id ob) else ob_tool ob) in
            if \<not> is_task_state_tool tool then x
            else
              let w = \<lparr>pw_line = ob_line ob, pw_tool = tool, pw_items = items, pw_counts = ob_counts ob\<rparr> in
              x\<lparr>xt_pending := (case ob_call_id ob of None \<Rightarrow> xt_pending x | Some i \<Rightarrow> omap_remove i (xt_pending x)),
                xt_confirmed := Some w\<rparr>
      | None \<Rightarrow>
          (case ob_call_id ob of
             None \<Rightarrow> x
           | Some i \<Rightarrow>
               (case map_of (xt_pending x) i of
                  None \<Rightarrow> x
                | Some w \<Rightarrow>
                    let x' = x\<lparr>xt_pending := omap_remove i (xt_pending x)\<rparr> in
                    if ob_failed ob then x' else x'\<lparr>xt_confirmed := Some w\<rparr>)))"

definition observe_one :: "observation \<Rightarrow> extractor \<Rightarrow> extractor" where
  "observe_one ob x = (case ob_origin ob of Call \<Rightarrow> observe_call ob x | Result \<Rightarrow> observe_result ob x)"

definition observe_event :: "(string \<Rightarrow> json option) \<Rightarrow> nat \<Rightarrow> json \<Rightarrow> extractor \<Rightarrow> extractor" where
  "observe_event parse line event x = fold observe_one (observations parse line event) x"

definition into_state :: "bool \<Rightarrow> plan_write \<Rightarrow> task_state" where
  "into_state confirmed w = \<lparr>ts_tool = pw_tool w, ts_items = pw_items w, ts_line = pw_line w,
     ts_confirmed = confirmed, ts_counts = pw_counts w\<rparr>"

text \<open>\<open>max_by_key\<close> returns the last of the greatest.\<close>

fun newest :: "plan_write list \<Rightarrow> plan_write option" where
  "newest [] = None"
| "newest (w # ws) =
     (case newest ws of None \<Rightarrow> Some w | Some v \<Rightarrow> Some (if pw_line w > pw_line v then w else v))"

definition finish :: "extractor \<Rightarrow> extraction" where
  "finish x =
     \<lparr>ex_state = (case xt_confirmed x of
        Some w \<Rightarrow> Some (into_state True w)
      | None \<Rightarrow> map_option (into_state False) (newest (map snd (xt_pending x) @ xt_unpaired x))),
      ex_unparsed_lines = xt_unparsed_lines x\<rparr>"

section \<open>Transcripts\<close>

definition read_line :: "(string \<Rightarrow> json option) \<Rightarrow> nat \<times> string \<Rightarrow> extractor \<Rightarrow> extractor" where
  "read_line parse = (\<lambda>(index, line) x.
     let unparsed = x\<lparr>xt_unparsed_lines := xt_unparsed_lines x + 1\<rparr> in
     if \<not> valid_utf8 line then unparsed
     else if trim line = [] then x
     else case parse line of
            Some event \<Rightarrow> observe_event parse (index + 1) event x
          | None \<Rightarrow> unparsed)"

text \<open>The extension is what \<open>Path::extension\<close> gives, \<open>file\<close> the content when the file opens.\<close>

definition extract_file :: "(string \<Rightarrow> json option) \<Rightarrow> string option \<Rightarrow> string option \<Rightarrow> extraction" where
  "extract_file parse extension file =
     (if extension \<noteq> Some ''jsonl'' then \<lparr>ex_state = None, ex_unparsed_lines = 0\<rparr>
      else case file of
             None \<Rightarrow> \<lparr>ex_state = None, ex_unparsed_lines = 0\<rparr>
           | Some bytes \<Rightarrow> finish (fold (read_line parse) (enumerate 0 (lines bytes)) new_extractor))"

definition extract_events :: "(string \<Rightarrow> json option) \<Rightarrow> json list \<Rightarrow> extraction" where
  "extract_events parse events =
     finish (fold (\<lambda>(index, event). observe_event parse (index + 1) event) (enumerate 0 events) new_extractor)"

section \<open>What a sequence of observations says\<close>

text \<open>The specification.  A call of a planning tool that carries items is a write; it is open until a later call takes
  its id or a result settles it.  A result without items settles the call it names; a result with items settles it
  when it succeeded and comes from a planning tool.\<close>

definition plan_call :: "observation \<Rightarrow> bool" where
  "plan_call ob \<longleftrightarrow> ob_origin ob = Call \<and> ob_items ob \<noteq> None \<and> is_task_state_tool (ob_tool ob)"

definition write_of :: "string \<Rightarrow> observation \<Rightarrow> plan_write" where
  "write_of tool ob = \<lparr>pw_line = ob_line ob, pw_tool = tool, pw_items = the (ob_items ob), pw_counts = ob_counts ob\<rparr>"

definition settles :: "string \<Rightarrow> observation \<Rightarrow> bool" where
  "settles i ob \<longleftrightarrow> ob_call_id ob = Some i \<and>
     (plan_call ob \<or> ob_origin ob = Result \<and>
       (ob_items ob = None \<or> \<not> ob_failed ob \<and> (ob_tool ob = [] \<or> is_task_state_tool (ob_tool ob))))"

definition open_call :: "observation list \<Rightarrow> string \<Rightarrow> plan_write \<Rightarrow> bool" where
  "open_call os i w \<longleftrightarrow> (\<exists>n < length os. plan_call (os ! n) \<and> ob_call_id (os ! n) = Some i \<and>
     w = write_of (ob_tool (os ! n)) (os ! n) \<and> (\<forall>m < length os. n < m \<longrightarrow> \<not> settles i (os ! m)))"

definition unpaired_call :: "observation list \<Rightarrow> plan_write \<Rightarrow> bool" where
  "unpaired_call os w \<longleftrightarrow> (\<exists>ob \<in> set os. plan_call ob \<and> ob_call_id ob = None \<and> w = write_of (ob_tool ob) ob)"

text \<open>A result confirms a write when it succeeded: its own items, or those of the open call it names.\<close>

definition confirms :: "observation list \<Rightarrow> observation \<Rightarrow> plan_write \<Rightarrow> bool" where
  "confirms earlier ob w \<longleftrightarrow> ob_origin ob = Result \<and> \<not> ob_failed ob \<and>
     (if ob_items ob = None then \<exists>i. ob_call_id ob = Some i \<and> open_call earlier i w
      else \<exists>tool. w = write_of tool ob \<and> is_task_state_tool tool \<and>
        (if ob_tool ob = [] then \<exists>i v. ob_call_id ob = Some i \<and> open_call earlier i v \<and> tool = pw_tool v
         else tool = ob_tool ob))"

definition last_confirmed :: "observation list \<Rightarrow> plan_write \<Rightarrow> bool" where
  "last_confirmed os w \<longleftrightarrow> (\<exists>n < length os. confirms (take n os) (os ! n) w \<and>
     (\<forall>m < length os. n < m \<longrightarrow> (\<nexists>v. confirms (take m os) (os ! m) v)))"

lemma open_call_snoc:
  "open_call (os @ [ob]) i w \<longleftrightarrow>
     (plan_call ob \<and> ob_call_id ob = Some i \<and> w = write_of (ob_tool ob) ob) \<or> (\<not> settles i ob \<and> open_call os i w)"
  by (auto simp: open_call_def Ex_less_Suc All_less_Suc nth_append cong: conj_cong)

lemma open_call_tool: "open_call os i w \<Longrightarrow> is_task_state_tool (pw_tool w)"
  by (auto simp: open_call_def plan_call_def write_of_def)

lemma last_confirmed_snoc:
  "last_confirmed (os @ [ob]) w \<longleftrightarrow> confirms os ob w \<or> ((\<nexists>v. confirms os ob v) \<and> last_confirmed os w)"
  by (auto simp: last_confirmed_def Ex_less_Suc All_less_Suc nth_append cong: conj_cong)

text \<open>The extractor computes it.\<close>

definition extractor_ok :: "observation list \<Rightarrow> extractor \<Rightarrow> bool" where
  "extractor_ok os x \<longleftrightarrow> omap_ok (xt_pending x) \<and>
     (\<forall>i w. map_of (xt_pending x) i = Some w \<longleftrightarrow> open_call os i w) \<and>
     (\<forall>w. w \<in> set (xt_unpaired x) \<longleftrightarrow> unpaired_call os w) \<and>
     (\<forall>w. xt_confirmed x = Some w \<longleftrightarrow> last_confirmed os w)"

lemma no_tool: "\<not> is_task_state_tool []"
  by code_simp

lemma extractor_ok_step:
  assumes ok: "extractor_ok os x"
  shows "extractor_ok (os @ [ob]) (observe_one ob x)"
proof -
  have p: "open_call os i w \<longleftrightarrow> map_of (xt_pending x) i = Some w" for i w using ok by (simp add: extractor_ok_def)
  have tool: "is_task_state_tool (pw_tool w)" if "map_of (xt_pending x) i = Some w" for i w
    using that open_call_tool p by blast
  note step = observe_one_def observe_call_def observe_result_def tool_for_def Let_def
  have open': "map_of (xt_pending (observe_one ob x)) i = Some w \<longleftrightarrow> open_call (os @ [ob]) i w" for i w
    unfolding open_call_snoc p
    by (auto simp: step plan_call_def settles_def write_of_def no_tool tool split: origin.splits option.splits if_splits)
  have c: "last_confirmed os w \<longleftrightarrow> xt_confirmed x = Some w" for w using ok by (simp add: extractor_ok_def)
  have conf': "xt_confirmed (observe_one ob x) = Some w \<longleftrightarrow> last_confirmed (os @ [ob]) w" for w
    unfolding last_confirmed_snoc c confirms_def p
    by (auto simp: step write_of_def no_tool dest: tool split: origin.splits option.splits if_splits)
  have "w \<in> set (xt_unpaired (observe_one ob x)) \<longleftrightarrow> unpaired_call (os @ [ob]) w" for w
    using ok by (auto simp: extractor_ok_def unpaired_call_def observe_one_def observe_call_def observe_result_def plan_call_def
        write_of_def Let_def split: origin.splits option.splits if_splits)
  moreover have "omap_ok (xt_pending (observe_one ob x))"
    using ok by (auto simp: extractor_ok_def observe_one_def observe_call_def observe_result_def Let_def
        split: origin.splits option.splits)
  ultimately show ?thesis using open' conf' by (simp add: extractor_ok_def)
qed

lemma extractor_ok_fold: "extractor_ok os (fold observe_one os new_extractor)"
proof (induction os rule: rev_induct)
  case Nil
  then show ?case
    by (simp add: extractor_ok_def new_extractor_def open_call_def unpaired_call_def last_confirmed_def)
next
  case (snoc ob os)
  then show ?case by (simp add: extractor_ok_step)
qed

lemma confirmed_iff: "xt_confirmed (fold observe_one os new_extractor) = Some w \<longleftrightarrow> last_confirmed os w"
  using extractor_ok_fold [of os] by (simp add: extractor_ok_def)

lemma values_of_omap: "omap_ok m \<Longrightarrow> w \<in> snd ` set m \<longleftrightarrow> (\<exists>i. map_of m i = Some w)"
  by (simp add: omap_map_of_iff) force

lemma newest_None [simp]: "newest ws = None \<longleftrightarrow> ws = []"
  by (cases ws) (auto split: option.splits)

lemma newest_Some: "newest ws = Some w \<Longrightarrow> w \<in> set ws \<and> (\<forall>v \<in> set ws. pw_line v \<le> pw_line w)"
  by (induction ws arbitrary: w) (fastforce split: option.splits if_splits)+

section \<open>Reading a transcript\<close>

text \<open>The observations of a line, and whether it could not be read.\<close>

definition line_observations :: "(string \<Rightarrow> json option) \<Rightarrow> nat \<times> string \<Rightarrow> observation list" where
  "line_observations parse = (\<lambda>(index, line).
     if valid_utf8 line \<and> trim line \<noteq> [] then
       (case parse line of None \<Rightarrow> [] | Some event \<Rightarrow> observations parse (index + 1) event)
     else [])"

definition unreadable :: "(string \<Rightarrow> json option) \<Rightarrow> string \<Rightarrow> bool" where
  "unreadable parse line \<longleftrightarrow> \<not> valid_utf8 line \<or> trim line \<noteq> [] \<and> parse line = None"

lemma observe_one_unparsed:
  "observe_one ob (x\<lparr>xt_unparsed_lines := n\<rparr>) = (observe_one ob x)\<lparr>xt_unparsed_lines := n\<rparr>"
  by (auto simp: observe_one_def observe_call_def observe_result_def tool_for_def Let_def
      split: origin.splits option.splits)

lemma observe_fold_unparsed:
  "fold observe_one obs (x\<lparr>xt_unparsed_lines := n\<rparr>) = (fold observe_one obs x)\<lparr>xt_unparsed_lines := n\<rparr>"
  by (induction obs arbitrary: x) (simp_all add: observe_one_unparsed)

lemma observe_fold_unparsed_same: "xt_unparsed_lines (fold observe_one obs x) = xt_unparsed_lines x"
proof -
  have "xt_unparsed_lines (observe_one ob x) = xt_unparsed_lines x" for ob x
    by (auto simp: observe_one_def observe_call_def observe_result_def Let_def split: origin.splits option.splits)
  then show ?thesis by (induction obs arbitrary: x) simp_all
qed

lemma read_lines:
  "fold (read_line parse) xs x =
     (fold observe_one (concat (map (line_observations parse) xs)) x)
       \<lparr>xt_unparsed_lines := xt_unparsed_lines x + length (filter (unreadable parse) (map snd xs))\<rparr>"
proof (induction xs arbitrary: x)
  case Nil
  then show ?case by simp
next
  case (Cons y xs)
  obtain i l where y: "y = (i, l)" by (cases y)
  show ?case
  proof (cases "unreadable parse l")
    case True
    then have "read_line parse y x = x\<lparr>xt_unparsed_lines := xt_unparsed_lines x + 1\<rparr>" "line_observations parse y = []"
      by (auto simp: y read_line_def line_observations_def unreadable_def Let_def split: option.splits)
    then show ?thesis using True by (simp add: Cons.IH y observe_fold_unparsed)
  next
    case False
    then have "read_line parse y x = fold observe_one (line_observations parse y) x"
      by (auto simp: y read_line_def line_observations_def unreadable_def observe_event_def Let_def split: option.splits)
    then show ?thesis using False by (simp add: Cons.IH y observe_fold_unparsed_same)
  qed
qed

text \<open>C21. The state that is recovered from a transcript is exactly what its lines say: it is confirmed when some result
  confirmed a write, and then it is the last one; otherwise it is a call that nothing settled, the newest of them, and
  there is none only when no such call is left.  Every line that is no JSON is counted.\<close>

theorem task_state_recovered:
  fixes parse :: "string \<Rightarrow> json option" and bytes :: string
  defines "x \<equiv> extract_file parse (Some ''jsonl'') (Some bytes)"
    and "os \<equiv> concat (map (line_observations parse) (enumerate 0 (lines bytes)))"
  shows "(\<forall>w. last_confirmed os w \<longrightarrow> ex_state x = Some (into_state True w)) \<and>
    ((\<nexists>w. last_confirmed os w) \<longrightarrow>
       (case ex_state x of
          None \<Rightarrow> (\<nexists>i w. open_call os i w) \<and> (\<nexists>w. unpaired_call os w)
        | Some s \<Rightarrow> \<exists>w. s = into_state False w \<and> ((\<exists>i. open_call os i w) \<or> unpaired_call os w) \<and>
            (\<forall>v. (\<exists>i. open_call os i v) \<or> unpaired_call os v \<longrightarrow> pw_line v \<le> pw_line w))) \<and>
    ex_unparsed_lines x = length (filter (unreadable parse) (lines bytes))"
proof -
  let ?e = "fold observe_one os new_extractor" let ?c = "map snd (xt_pending ?e) @ xt_unpaired ?e"
  have "x = finish (?e\<lparr>xt_unparsed_lines := length (filter (unreadable parse) (lines bytes))\<rparr>)"
    unfolding x_def os_def extract_file_def by (simp add: read_lines) (simp add: new_extractor_def)
  also have "\<dots> = (finish ?e)\<lparr>ex_unparsed_lines := length (filter (unreadable parse) (lines bytes))\<rparr>"
    by (cases "xt_confirmed ?e") (simp_all add: finish_def)
  finally have x: "ex_state x = (case xt_confirmed ?e of Some w \<Rightarrow> Some (into_state True w)
        | None \<Rightarrow> map_option (into_state False) (newest ?c))"
    and u: "ex_unparsed_lines x = length (filter (unreadable parse) (lines bytes))"
    by (simp_all add: finish_def)
  have ok: "extractor_ok os ?e" by (rule extractor_ok_fold)
  have "w \<in> snd ` set (xt_pending ?e) \<longleftrightarrow> (\<exists>i. map_of (xt_pending ?e) i = Some w)" for w
    by (rule values_of_omap) (use ok in \<open>simp add: extractor_ok_def\<close>)
  moreover have "map_of (xt_pending ?e) i = Some w \<longleftrightarrow> open_call os i w" "w \<in> set (xt_unpaired ?e) \<longleftrightarrow> unpaired_call os w" for i w
    using ok by (simp_all add: extractor_ok_def)
  ultimately have c: "w \<in> set ?c \<longleftrightarrow> (\<exists>i. open_call os i w) \<or> unpaired_call os w" for w
    by simp
  note l = confirmed_iff [of os]
  have "case ex_state x of
      None \<Rightarrow> (\<nexists>i w. open_call os i w) \<and> (\<nexists>w. unpaired_call os w)
    | Some s \<Rightarrow> \<exists>w. s = into_state False w \<and> ((\<exists>i. open_call os i w) \<or> unpaired_call os w) \<and>
        (\<forall>v. (\<exists>i. open_call os i v) \<or> unpaired_call os v \<longrightarrow> pw_line v \<le> pw_line w)"
    if "\<nexists>w. last_confirmed os w"
  proof (cases "newest ?c")
    case None
    then have "set ?c = {}" by simp
    then show ?thesis using x that None c l by (cases "xt_confirmed ?e") auto
  next
    case (Some w)
    have "xt_confirmed ?e = None" using that l by (cases "xt_confirmed ?e") auto
    then have "ex_state x = Some (into_state False w)" using x Some by simp
    then show ?thesis using newest_Some [OF Some] c by auto
  qed
  moreover have "ex_state x = Some (into_state True w)" if "last_confirmed os w" for w
    using that unfolding l [symmetric] by (simp add: x)
  ultimately show ?thesis using u by blast
qed

section \<open>Records of a planning tool\<close>

text \<open>A call of tool \<open>t\<close> with id \<open>i\<close> that carries a plan, a result that may repeat it, and a call in the OpenAI shape.\<close>

definition tool_call :: "string \<Rightarrow> string \<Rightarrow> json \<Rightarrow> json" where
  "tool_call t i plan = JObj [(''content'', JArr [JObj [(''arguments'', plan), (''id'', JStr i), (''name'', JStr t),
     (''type'', JStr ''toolCall'')]]), (''role'', JStr ''assistant'')]"

definition tool_result :: "string \<Rightarrow> string \<Rightarrow> bool \<Rightarrow> json option \<Rightarrow> json" where
  "tool_result t i failed details = JObj ((case details of None \<Rightarrow> [] | Some d \<Rightarrow> [(''details'', d)]) @
     [(''isError'', JBool failed), (''role'', JStr ''toolResult''), (''toolCallId'', JStr i), (''toolName'', JStr t)])"

definition openai_call :: "string \<Rightarrow> string \<Rightarrow> json \<Rightarrow> json" where
  "openai_call t i arguments = JObj [(''role'', JStr ''assistant''), (''tool_calls'', JArr [JObj
     [(''function'', JObj [(''arguments'', arguments), (''name'', JStr t)]), (''id'', JStr i),
      (''type'', JStr ''function'')]])]"

definition todo_list :: "string list \<Rightarrow> json" where
  "todo_list items = JObj [(''todos'', JArr (map (\<lambda>t. JObj [(''content'', JStr t)]) items))]"

lemma find_items_object: "find_items plan = Some items \<Longrightarrow> \<exists>m. plan = JObj m"
  by (cases plan) (simp_all add: find_items_def)

lemma no_items:
  assumes "\<forall>k \<in> set ITEM_ARRAY_KEYS. jget v k = None"
  shows "find_items v = None"
proof -
  have "first_items v ks = None" if "\<forall>k \<in> set ks. jget v k = None" for ks
    using that by (induction ks) simp_all
  with assms show ?thesis by (cases "as_object v") (simp_all add: find_items_def)
qed

lemma observe_tool_call:
  "observe_event parse n (tool_call t i (JObj m)) x =
     observe_call \<lparr>ob_line = n, ob_origin = Call, ob_tool = t, ob_call_id = Some i, ob_items = find_items (JObj m),
       ob_counts = find_counts (JObj m), ob_failed = False\<rparr> x"
  by (simp add: observe_event_def observations_def tool_call_def jget_def role_of_def jget_str_def content_parts_def
      part_type_def part_observations_def payload_observations_def str_or_empty_def from_call_def
      parse_arguments_def call_id_of_def observe_one_def jidx_def)

lemma observe_tool_result:
  "observe_event parse n (tool_result t i failed details) x =
     observe_result \<lparr>ob_line = n, ob_origin = Result, ob_tool = t, ob_call_id = Some i, ob_items = Option.bind details find_items,
       ob_counts = Option.bind details find_counts, ob_failed = failed\<rparr> x"
proof -
  have "find_items (tool_result t i failed details) = None"
    by (rule no_items) (auto simp: tool_result_def jget_def ITEM_ARRAY_KEYS_def split: option.split)
  moreover have "find_counts (tool_result t i failed details) = None"
    by (simp add: find_counts_def read_count_def tool_result_def jget_def Let_def split: option.split)
  moreover have or: "or_else v None = v" "or_else None v = v" for v :: "'b option"
    by (simp_all add: or_else_def split: option.split)
  ultimately show ?thesis
    by (cases details)
      (simp_all add: observe_event_def observations_def jget_def role_of_def jget_str_def content_parts_def
        part_type_def part_observations_def payload_observations_def str_or_empty_def from_result_def
        call_id_of_def observe_one_def jidx_def result_failed_def or tool_result_def)
qed

lemma observe_openai_call: "observe_event parse n (openai_call t i arguments) x = x"
  by (simp add: observe_event_def observations_def openai_call_def jget_def role_of_def jget_str_def content_parts_def
      part_type_def part_observations_def payload_observations_def str_or_empty_def from_call_def
      parse_arguments_def call_id_of_def observe_one_def observe_call_def jidx_def)

lemma empty_todo_list: "find_items (todo_list []) = None"
  by (simp add: find_items_def todo_list_def ITEM_ARRAY_KEYS_def jget_def)

definition events_extractor :: "(string \<Rightarrow> json option) \<Rightarrow> json list \<Rightarrow> extractor" where
  "events_extractor parse es = fold (\<lambda>(index, event). observe_event parse (index + 1) event) (enumerate 0 es) new_extractor"

lemma extract_events_eq: "extract_events parse es = finish (events_extractor parse es)"
  by (simp add: extract_events_def events_extractor_def)

lemma events_extractor_snoc:
  "events_extractor parse (es @ [e]) = observe_event parse (Suc (length es)) e (events_extractor parse es)"
  by (simp add: events_extractor_def enumerate_append_eq)

text \<open>Every write bears the number of a line that has been read.\<close>

lemma observations_line:
  assumes "ob \<in> set (observations parse n e)"
  shows "ob_line ob = n"
proof -
  have one: "ob_line (from_call parse part n) = n" "ob_line (from_result part n) = n" for part
    by (simp_all add: from_call_def from_result_def Let_def)
  have part: "ob \<in> set (part_observations parse n part) \<Longrightarrow> ob_line ob = n" for part
    unfolding part_observations_def using one by (simp split: if_split_asm)
  have pay: "ob \<in> set (payload_observations parse n e) \<Longrightarrow> ob_line ob = n"
    unfolding payload_observations_def Let_def using one by (simp split: if_split_asm)
  show ?thesis
    using assms unfolding observations_def Let_def set_append Un_iff
    by (elim disjE) (use one part pay in \<open>fastforce split: if_split_asm option.split_asm\<close>)+
qed

definition lines_upto :: "nat \<Rightarrow> extractor \<Rightarrow> bool" where
  "lines_upto k x \<longleftrightarrow> (\<forall>w \<in> snd ` set (xt_pending x) \<union> set (xt_unpaired x). pw_line w \<le> k)"

lemma lines_upto_step: "lines_upto k x \<Longrightarrow> ob_line ob \<le> k \<Longrightarrow> lines_upto k (observe_one ob x)"
  by (auto simp: lines_upto_def observe_one_def observe_call_def observe_result_def Let_def omap_remove_def
      dest!: omap_insert_setD split: origin.splits option.splits if_splits)

lemma lines_upto_events: "lines_upto (length es) (events_extractor parse es)"
proof (induction es rule: rev_induct)
  case Nil
  then show ?case by (simp add: events_extractor_def new_extractor_def lines_upto_def)
next
  case (snoc e es)
  have upto: "lines_upto k (fold observe_one obs x)" if "lines_upto k x" "\<forall>ob \<in> set obs. ob_line ob \<le> k" for k obs x
    using that by (induction obs arbitrary: x) (simp_all add: lines_upto_step)
  have "lines_upto (Suc (length es)) (events_extractor parse es)"
    using snoc unfolding lines_upto_def by (meson le_SucI)
  moreover have "\<forall>ob \<in> set (observations parse (Suc (length es)) e). ob_line ob \<le> Suc (length es)"
    by (auto dest: observations_line)
  ultimately show ?case
    using upto by (simp add: events_extractor_snoc observe_event_def)
qed

text \<open>A write in the newest line is the one that is left when nothing was confirmed.\<close>

lemma newest_line:
  assumes "lines_upto k x" and "k < pw_line w" and "w \<in> set (map snd (xt_pending x') @ xt_unpaired x')"
    and "set (map snd (xt_pending x') @ xt_unpaired x') \<subseteq> insert w (set (map snd (xt_pending x) @ xt_unpaired x))"
  shows "newest (map snd (xt_pending x') @ xt_unpaired x') = Some w"
proof -
  let ?ws = "map snd (xt_pending x') @ xt_unpaired x'"
  obtain v where v: "newest ?ws = Some v" using assms(3) by (cases "newest ?ws") auto
  from newest_Some [OF v] have "v \<in> set ?ws" "pw_line w \<le> pw_line v" using assms(3) by auto
  moreover have "v = w \<or> pw_line v \<le> k"
    using calculation(1) assms(1,4) unfolding lines_upto_def by (metis (no_types, lifting) insertE set_append set_map subsetD)
  ultimately have "v = w" using assms(2) by auto
  with v show ?thesis by simp
qed

text \<open>C37. Three ways in which the recovered plan is not the plan, after any transcript \<open>es\<close> and for any plan and planning
  tool.  A write that its result reports as failed is still recovered, as unconfirmed, when the result repeats
  the items, unless something was confirmed: such a result changes nothing.  A call in the OpenAI shape changes
  nothing, whatever arguments it carries.  And after a confirmed write of an empty list the plan confirmed before still stands.\<close>

theorem task_state_misses:
  assumes plan: "find_items plan = Some items" and tool: "is_task_state_tool t"
  shows
   "ex_state (extract_events parse (es @ [tool_call t i plan, tool_result t i True (Some plan)])) =
     (case ex_state (extract_events parse es) of
        Some s \<Rightarrow> if ts_confirmed s then Some s
          else Some \<lparr>ts_tool = t, ts_items = items, ts_line = length es + 1, ts_confirmed = False, ts_counts = find_counts plan\<rparr>
      | None \<Rightarrow> Some \<lparr>ts_tool = t, ts_items = items, ts_line = length es + 1, ts_confirmed = False, ts_counts = find_counts plan\<rparr>) \<and>
    extract_events parse (es @ [openai_call t i arguments]) = extract_events parse es \<and>
    ex_state (extract_events parse (es @ [tool_call t i plan, tool_result t i False None,
        tool_call t i (todo_list []), tool_result t i False None])) =
      Some \<lparr>ts_tool = t, ts_items = items, ts_line = length es + 1, ts_confirmed = True, ts_counts = find_counts plan\<rparr>"
proof -
  obtain m where m: "plan = JObj m" using find_items_object [OF plan] by blast
  define x where "x = events_extractor parse es"
  define w where "w = \<lparr>pw_line = Suc (length es), pw_tool = t, pw_items = items, pw_counts = find_counts plan\<rparr>"
  let ?x1 = "x\<lparr>xt_pending := omap_insert i w (xt_pending x)\<rparr>"
  have call: "observe_event parse (Suc (length es)) (tool_call t i plan) x = ?x1"
    using plan tool by (simp add: m observe_tool_call observe_call_def w_def)
  have refused: "observe_event parse n (tool_result t i True (Some plan)) y = y" for n y
    using plan by (simp add: observe_tool_result observe_result_def)
  have "newest (map snd (xt_pending ?x1) @ xt_unpaired ?x1) = Some w"
  proof (rule newest_line)
    show "lines_upto (length es) x" unfolding x_def by (rule lines_upto_events)
    have "(i, w) \<in> set (omap_insert i w (xt_pending x))"
      using map_of_SomeD [of "omap_insert i w (xt_pending x)" i w] by simp
    then show "w \<in> set (map snd (xt_pending ?x1) @ xt_unpaired ?x1)" by force
    show "set (map snd (xt_pending ?x1) @ xt_unpaired ?x1) \<subseteq> insert w (set (map snd (xt_pending x) @ xt_unpaired x))"
      by (auto dest!: omap_insert_setD)
  qed (simp add: w_def)
  then have x1: "ex_state (finish ?x1) = (case xt_confirmed x of Some v \<Rightarrow> Some (into_state True v) | None \<Rightarrow> Some (into_state False w))"
    by (simp add: finish_def split: option.split)
  have x0: "ex_state (extract_events parse es) = (case xt_confirmed x of Some v \<Rightarrow> Some (into_state True v)
      | None \<Rightarrow> map_option (into_state False) (newest (map snd (xt_pending x) @ xt_unpaired x)))"
    unfolding extract_events_eq x_def [symmetric] by (simp add: finish_def)
  have w: "into_state c w = \<lparr>ts_tool = t, ts_items = items, ts_line = length es + 1, ts_confirmed = c, ts_counts = find_counts plan\<rparr>" for c
    by (simp add: into_state_def w_def)
  have flag: "ts_confirmed (into_state c v) = c" for c v by (simp add: into_state_def)
  have "ex_state (finish ?x1) = (case ex_state (extract_events parse es) of
        Some s \<Rightarrow> if ts_confirmed s then Some s else Some (into_state False w) | None \<Rightarrow> Some (into_state False w))"
    unfolding x0 x1
    by (cases "xt_confirmed x"; cases "newest (map snd (xt_pending x) @ xt_unpaired x)") (simp_all add: flag)
  moreover have "extract_events parse (es @ [tool_call t i plan, tool_result t i True (Some plan)]) = finish ?x1"
    using events_extractor_snoc [of parse "es @ [tool_call t i plan]" "tool_result t i True (Some plan)"]
      events_extractor_snoc [of parse es "tool_call t i plan"]
    by (simp add: extract_events_eq refused call x_def [symmetric])
  moreover have "extract_events parse (es @ [openai_call t i arguments]) = extract_events parse es"
    by (simp add: extract_events_eq events_extractor_snoc observe_openai_call)
  moreover have "ex_state (extract_events parse (es @ [tool_call t i plan, tool_result t i False None,
        tool_call t i (todo_list []), tool_result t i False None])) = Some (into_state True w)"
  proof -
    let ?x2 = "?x1\<lparr>xt_pending := omap_remove i (xt_pending ?x1), xt_confirmed := Some w\<rparr>"
    have settled: "observe_event parse n (tool_result t i False None) ?x1 = ?x2" for n
      by (simp add: observe_tool_result observe_result_def Let_def)
    have again: "observe_event parse n (tool_result t i False None) ?x2 = ?x2" for n
      by (simp add: observe_tool_result observe_result_def)
    have clear: "observe_event parse n (tool_call t i (todo_list [])) y = y" for n y
      using empty_todo_list observe_tool_call [of parse n t i] by (simp add: todo_list_def observe_call_def)
    have "events_extractor parse (es @ [tool_call t i plan, tool_result t i False None,
        tool_call t i (todo_list []), tool_result t i False None]) = ?x2"
      using events_extractor_snoc [of parse "es @ [tool_call t i plan, tool_result t i False None, tool_call t i (todo_list [])]"]
        events_extractor_snoc [of parse "es @ [tool_call t i plan, tool_result t i False None]"]
        events_extractor_snoc [of parse "es @ [tool_call t i plan]"]
        events_extractor_snoc [of parse es "tool_call t i plan"]
      by (simp only: append.assoc append.simps call x_def [symmetric] settled clear again)
    then show ?thesis by (simp add: extract_events_eq finish_def)
  qed
  ultimately show ?thesis unfolding w by (intro conjI) simp_all
qed

theorem task_state_misses_witness:
  "ex_state (extract_events (\<lambda>_. None) [tool_call ''todowrite'' ''c'' (todo_list [''a'']),
      tool_result ''todowrite'' ''c'' True (Some (todo_list [''a'']))]) =
     Some \<lparr>ts_tool = ''todowrite'', ts_items = [\<lparr>ti_content = ''a'', ti_status = Pending, ti_raw_status = None\<rparr>], ts_line = 1,
           ts_confirmed = False, ts_counts = None\<rparr>"
proof -
  have i: "find_items (todo_list [''a'']) = Some [\<lparr>ti_content = ''a'', ti_status = Pending, ti_raw_status = None\<rparr>]"
    and c: "find_counts (todo_list [''a'']) = None" and t: "is_task_state_tool ''todowrite''"
    and e: "ex_state (extract_events (\<lambda>_. None) []) = None"
    by (code_simp+)
  show ?thesis using task_state_misses [OF i t, of "\<lambda>_. None" "[]" "''c''"] by (simp add: c e)
qed

text \<open>A transcript of two lines, a call and its result.\<close>

definition demo_parse :: "string \<Rightarrow> json option" where
  "demo_parse l = Some (if l = ''1'' then tool_call ''todowrite'' ''c'' (todo_list [''a'']) else tool_result ''todowrite'' ''c'' False None)"

lemma task_state_recovered_witness:
  "ex_state (extract_file demo_parse (Some ''jsonl'') (Some (unlines [''1'', ''2'']))) =
     Some \<lparr>ts_tool = ''todowrite'', ts_items = [\<lparr>ti_content = ''a'', ti_status = Pending, ti_raw_status = None\<rparr>], ts_line = 1,
           ts_confirmed = True, ts_counts = None\<rparr>"
proof -
  let ?os = "concat (map (line_observations demo_parse) (enumerate 0 (lines (unlines [''1'', ''2'']))))"
  let ?w = "\<lparr>pw_line = 1, pw_tool = ''todowrite'', pw_items = [\<lparr>ti_content = ''a'', ti_status = Pending, ti_raw_status = None\<rparr>],
    pw_counts = None\<rparr>"
  have "xt_confirmed (fold observe_one ?os new_extractor) = Some ?w" by code_simp
  then have "last_confirmed ?os ?w" unfolding confirmed_iff .
  then have "ex_state (extract_file demo_parse (Some ''jsonl'') (Some (unlines [''1'', ''2'']))) = Some (into_state True ?w)"
    using task_state_recovered [of demo_parse "unlines [''1'', ''2'']"] by blast
  then show ?thesis by (simp add: into_state_def)
qed

end
