(* ===== verification/Paths.thy ===== *)
theory Paths
  imports Text_Model
begin

text \<open>
  Paths of the standard library on Unix, as the code uses them: a path is its bytes.
\<close>

text \<open>\<open>Path::join\<close> and \<open>Path::is_absolute\<close>.\<close>

definition is_absolute :: "string \<Rightarrow> bool" where
  "is_absolute p = starts_with p ''/''"

definition join :: "string \<Rightarrow> string \<Rightarrow> string" where
  "join a b = (if is_absolute b \<or> a = [] then b else if ends_with a ''/'' then a @ b else a @ ''/'' @ b)"

text \<open>\<open>Path::components\<close>: the root, a dot at the start, and the parts that are neither empty nor a dot.\<close>

definition components :: "string \<Rightarrow> string list" where
  "components p =
     (let parts = filter (\<lambda>c. c \<noteq> [] \<and> c \<noteq> ''.'') (split_char (CHR ''/'') p) in
      if is_absolute p then ''/'' # parts
      else if p = ''.'' \<or> starts_with p ''./'' then ''.'' # parts
      else parts)"

text \<open>\<open>Path::starts_with\<close> compares components.\<close>

definition path_starts_with :: "string \<Rightarrow> string \<Rightarrow> bool" where
  "path_starts_with p q = prefix (components q) (components p)"

text \<open>\<open>Path::file_name\<close> and \<open>Path::extension\<close>.\<close>

definition file_name :: "string \<Rightarrow> string option" where
  "file_name p =
     (let cs = components p in
      if cs = [] \<or> last cs \<in> set [''/'', ''.'', ''..''] then None else Some (last cs))"

definition name_extension :: "string \<Rightarrow> string option" where
  "name_extension n =
     (let ext = rev (takeWhile (\<lambda>c. c \<noteq> CHR ''.'') (rev n)) in
      if length ext + 1 < length n then Some ext else None)"

definition extension :: "string \<Rightarrow> string option" where
  "extension p = Option.bind (file_name p) name_extension"

text \<open>\<open>Path::parent\<close>, with repeated slashes left out.\<close>

definition parent :: "string \<Rightarrow> string option" where
  "parent p =
     (case components p of
        [] \<Rightarrow> None
      | c # rest \<Rightarrow>
          if c = ''/'' then (if rest = [] then None else Some (c @ join_with ''/'' (butlast rest)))
          else Some (join_with ''/'' (butlast (c # rest))))"

text \<open>\<open>to_string_lossy\<close>, and \<open>display\<close>: text as it is, each longest beginning of a character that is no
  character replaced by one replacement character.  \<open>utf8_step\<close> gives how many bytes belong to
  the first one, and whether they make up a character.\<close>

definition second_byte_ok :: "nat \<Rightarrow> nat \<Rightarrow> bool" where
  "second_byte_ok x b \<longleftrightarrow>
     (if x = 0xE0 then 0xA0 \<le> b \<and> b < 0xC0
      else if x = 0xED then 0x80 \<le> b \<and> b < 0xA0
      else if x = 0xF0 then 0x90 \<le> b \<and> b < 0xC0
      else if x = 0xF4 then 0x80 \<le> b \<and> b < 0x90
      else 0x80 \<le> b \<and> b < 0xC0)"

definition utf8_further :: "nat \<Rightarrow> nat" where
  "utf8_further x =
     (if 0xC2 \<le> x \<and> x \<le> 0xDF then 1 else if 0xE0 \<le> x \<and> x \<le> 0xEF then 2
      else if 0xF0 \<le> x \<and> x \<le> 0xF4 then 3 else 0)"

definition utf8_step :: "char \<Rightarrow> string \<Rightarrow> nat \<times> bool" where
  "utf8_step a s =
     (if byte a < 0x80 then (0, True)
      else
        let need = utf8_further (byte a) in
        case s of
          [] \<Rightarrow> (0, False)
        | b # t \<Rightarrow>
            if need = 0 \<or> \<not> second_byte_ok (byte a) (byte b) then (0, False)
            else
              let more = length (takeWhile is_cont (take (need - 1) t)) in (1 + more, more = need - 1))"

definition REPLACEMENT :: string where
  "REPLACEMENT = [CHR 0xEF, CHR 0xBF, CHR 0xBD]"

function to_string_lossy :: "string \<Rightarrow> string" where
  "to_string_lossy [] = []"
| "to_string_lossy (a # s) =
     (case utf8_step a s of
        (n, ok) \<Rightarrow> (if ok then a # take n s else REPLACEMENT) @ to_string_lossy (drop n s))"
  by pat_completeness auto
termination by (relation "measure length") auto

text \<open>A step that ends well is one character of valid text, and text is valid when all its steps end well.\<close>

lemma utf8_further_cases: "utf8_further x \<in> {0, 1, 2, 3}"
  by (simp add: utf8_further_def)

lemma utf8_step_char:
  "valid_utf8 (a # s) \<longleftrightarrow> snd (utf8_step a s) \<and> valid_utf8 (drop (fst (utf8_step a s)) s)"
proof -
  consider "byte a < 0x80" | "utf8_further (byte a) = 0" "\<not> byte a < 0x80" | "utf8_further (byte a) = 1"
    | "utf8_further (byte a) = 2" | "utf8_further (byte a) = 3"
    using utf8_further_cases [of "byte a"] unfolding insert_iff empty_iff by (elim disjE) auto
  then show ?thesis
  proof cases
    case 1
    then show ?thesis by (simp add: utf8_step_def valid_utf8.simps(2))
  next
    case 2
    then have r: "\<not> (0xC2 \<le> byte a \<and> byte a \<le> 0xDF)" "\<not> (0xE0 \<le> byte a \<and> byte a \<le> 0xEF)"
        "\<not> (0xF0 \<le> byte a \<and> byte a \<le> 0xF4)"
      by (simp_all add: utf8_further_def split: if_split_asm)
    have "\<not> valid_utf8 (a # s)"
      unfolding valid_utf8.simps(2) Let_def if_not_P [OF 2(2)] if_not_P [OF r(1)] if_not_P [OF r(2)] if_not_P [OF r(3)]
      by blast
    moreover have "utf8_step a s = (0, False)" using 2 by (cases s) (simp_all add: utf8_step_def)
    ultimately show ?thesis by simp
  next
    case 3
    then have "0xC2 \<le> byte a" "byte a \<le> 0xDF" by (auto simp: utf8_further_def split: if_splits)
    then show ?thesis
      using 3 by (cases s) (auto simp: utf8_step_def valid_utf8.simps(2) second_byte_ok_def is_cont_def)
  next
    case 4
    then have a: "0xE0 \<le> byte a" "byte a \<le> 0xEF" by (auto simp: utf8_further_def split: if_splits)
    show ?thesis
      using 4 a
      by (cases s; cases "tl s") (auto simp: utf8_step_def valid_utf8.simps(2) second_byte_ok_def is_cont_def Let_def)
  next
    case 5
    then have a: "0xF0 \<le> byte a" "byte a \<le> 0xF4" by (auto simp: utf8_further_def split: if_splits)
    have t: "take 2 (x # y # t) = [x, y]" "take 2 [x] = [x]" "drop 2 (x # y # t) = t" for x y :: char and t
      by (simp_all add: numeral_2_eq_2)
    show ?thesis
      using 5 a
      by (cases s; cases "tl s"; cases "tl (tl s)")
        (auto simp: utf8_step_def valid_utf8.simps(2) second_byte_ok_def is_cont_def Let_def t)
  qed
qed

lemma lossy_valid: "valid_utf8 s \<Longrightarrow> to_string_lossy s = s"
proof (induction s rule: to_string_lossy.induct)
  case (2 a s)
  obtain n ok where n: "utf8_step a s = (n, ok)" by (cases "utf8_step a s")
  with 2 utf8_step_char [of a s] show ?case by simp
qed simp

lemma utf8_step_take: "utf8_step a s = (n, True) \<Longrightarrow> utf8_step a (take n s) = (n, True)"
  by (cases s) (auto simp: utf8_step_def Let_def take_Cons' min_def split: if_splits)

lemma utf8_step_length: "utf8_step a s = (n, True) \<Longrightarrow> n \<le> length s"
  by (cases s) (auto simp: utf8_step_def Let_def min_def intro: order_trans [OF length_takeWhile_le] split: if_splits)

lemma lossy_is_valid: "valid_utf8 (to_string_lossy s)"
proof (induction s rule: to_string_lossy.induct)
  case (2 a s)
  obtain n ok where n: "utf8_step a s = (n, ok)" by (cases "utf8_step a s")
  have "valid_utf8 REPLACEMENT" by (simp add: REPLACEMENT_def valid_utf8.simps is_cont_def byte_def)
  moreover have "valid_utf8 (a # take n s)" if "ok"
    using utf8_step_char [of a "take n s"] utf8_step_take n that by simp
  ultimately show ?case using 2 n by (simp add: valid_utf8_append flip: append_Cons)
qed simp

text \<open>A name: one part of a path.\<close>

definition is_name :: "string \<Rightarrow> bool" where
  "is_name n \<longleftrightarrow> n \<noteq> [] \<and> CHR ''/'' \<notin> set n"

lemma is_name_relative: "is_name n \<Longrightarrow> \<not> is_absolute n"
  by (cases n) (auto simp: is_name_def is_absolute_def starts_with_def)

text \<open>In a directory whose path does not end in a slash, a name gives a path, and the path gives the name.\<close>

lemma join_name: "is_name n \<Longrightarrow> d \<noteq> [] \<Longrightarrow> \<not> ends_with d ''/'' \<Longrightarrow> join d n = d @ ''/'' @ n"
  by (simp add: join_def is_name_relative)

lemma slash_split: "is_name m \<Longrightarrow> is_name n \<Longrightarrow> d @ ''/'' @ m = e @ ''/'' @ n \<longleftrightarrow> d = e \<and> m = n"
proof -
  assume mn: "is_name m" "is_name n"
  have t: "takeWhile (\<lambda>c. c \<noteq> CHR ''/'') (rev (d @ ''/'' @ m)) = rev m" if "is_name m" for d m
    using that by (simp add: is_name_def takeWhile_append2 del: takeWhile_append) (subst takeWhile_append2, auto)
  show ?thesis
  proof
    assume eq: "d @ ''/'' @ m = e @ ''/'' @ n"
    then have "m = n" using t [OF mn(1), of d] t [OF mn(2), of e] by (metis rev_rev_ident)
    then show "d = e \<and> m = n" using eq by simp
  qed simp
qed

end
