(* ===== verification/Config.thy ===== *)
theory Config
  imports Json_Model Paths
begin

text \<open>
  Configuration (\<open>toml.rs\<close>, \<open>config\<close>): the flat TOML reader, the layers and their precedence, the root of
  the knowledge base, and the two files that the program itself writes.  A path is its bytes on
  Unix; \<open>env\<close> is the environment; a disk maps paths to what reading them gives.
\<close>

section \<open>TOML text\<close>

text \<open>The index of the first \<open>#\<close> outside quotes.\<close>

fun comment_start :: "bool \<Rightarrow> nat \<Rightarrow> string \<Rightarrow> nat option" where
  "comment_start in_quotes i [] = None"
| "comment_start in_quotes i (c # s) =
     (if c = CHR 0x5C \<and> in_quotes then (case s of [] \<Rightarrow> None | _ # t \<Rightarrow> comment_start in_quotes (i + 2) t)
      else if c = CHR 0x22 then comment_start (\<not> in_quotes) (i + 1) s
      else if c = CHR ''#'' \<and> \<not> in_quotes then Some i
      else comment_start in_quotes (i + 1) s)"

definition strip_comment :: "string \<Rightarrow> string" where
  "strip_comment line = (case comment_start False 0 line of None \<Rightarrow> line | Some i \<Rightarrow> trim_end (take i line))"

definition strip_suffix :: "string \<Rightarrow> string \<Rightarrow> string option" where
  "strip_suffix s p = (if suffix p s then Some (take (length s - length p) s) else None)"

fun unescape :: "string \<Rightarrow> string option" where
  "unescape [] = Some []"
| "unescape (c # s) =
     (if c = CHR 0x5C then
        (case s of
           [] \<Rightarrow> None
         | d # t \<Rightarrow> if d = CHR 0x5C \<or> d = CHR 0x22 then map_option (Cons d) (unescape t) else None)
      else if c = CHR 0x22 then None
      else map_option (Cons c) (unescape s))"

definition unquote :: "string \<Rightarrow> string option" where
  "unquote value =
     Option.bind (strip_prefix value [CHR 0x22]) (\<lambda>v. Option.bind (strip_suffix v [CHR 0x22]) unescape)"

definition BOM :: string where
  "BOM = [CHR 0xEF, CHR 0xBB, CHR 0xBF]"

definition strip_bom :: "string \<Rightarrow> string" where
  "strip_bom s = (case strip_prefix s BOM of None \<Rightarrow> s | Some t \<Rightarrow> t)"

text \<open>\<open>line.find('=')\<close>: the key and the value, both trimmed.\<close>

definition key_value :: "string \<Rightarrow> (string \<times> string) option" where
  "key_value line = map_option (\<lambda>(k, v). (trim k, trim v)) (split_once line ''='')"

fun put_entry :: "string \<Rightarrow> string \<Rightarrow> (string \<times> string) list \<Rightarrow> (string \<times> string) list" where
  "put_entry k v [] = [(k, v)]"
| "put_entry k v ((k', v') # es) = (if k' = k then (k', v) # es else (k', v') # put_entry k v es)"

definition string_entry :: "string \<Rightarrow> (string \<times> string) list \<Rightarrow> (string \<times> string) list" where
  "string_entry raw out =
     (let line = trim (strip_comment raw) in
      if line = [] \<or> starts_with line ''['' then out
      else case key_value line of
             None \<Rightarrow> out
           | Some (key, v) \<Rightarrow> (case unquote v of None \<Rightarrow> out | Some value \<Rightarrow> put_entry key value out))"

definition string_entries :: "string \<Rightarrow> (string \<times> string) list" where
  "string_entries s = fold string_entry (lines (strip_bom s)) []"

section \<open>Layers\<close>

record cli_overrides =
  co_root :: "string option"
  co_format :: "string option"
  co_rebuild_on_open :: "bool option"

record config =
  cf_root :: string
  cf_format :: string
  cf_rebuild_on_open :: bool

record layer =
  ly_root :: "string option"
  ly_format :: "string option"
  ly_rebuild_on_open :: "bool option"

definition empty_layer :: layer where
  "empty_layer = \<lparr>ly_root = None, ly_format = None, ly_rebuild_on_open = None\<rparr>"

datatype toml_section = CoreSection | IndexSection | OtherSection

definition section_of :: "string \<Rightarrow> toml_section" where
  "section_of line =
     (if ends_with line '']'' then
        let name = trim (take (length line - 2) (drop 1 line)) in
        if name = ''core'' then CoreSection else if name = ''index'' then IndexSection else OtherSection
      else OtherSection)"

definition set_key :: "toml_section option \<Rightarrow> string \<Rightarrow> string \<Rightarrow> layer \<Rightarrow> layer" where
  "set_key sec key value l =
     (if sec = Some CoreSection \<and> key = ''root'' then
        (case unquote value of None \<Rightarrow> l | Some s \<Rightarrow> if s \<noteq> [] then l\<lparr>ly_root := Some s\<rparr> else l)
      else if sec = Some CoreSection \<and> key = ''format'' then
        (case unquote value of None \<Rightarrow> l | Some s \<Rightarrow> if s \<noteq> [] then l\<lparr>ly_format := Some s\<rparr> else l)
      else if sec = Some IndexSection \<and> key = ''rebuild_on_open'' then
        (if value = ''true'' then l\<lparr>ly_rebuild_on_open := Some True\<rparr>
         else if value = ''false'' then l\<lparr>ly_rebuild_on_open := Some False\<rparr> else l)
      else l)"

definition toml_line :: "string \<Rightarrow> toml_section option \<times> layer \<Rightarrow> toml_section option \<times> layer" where
  "toml_line raw = (\<lambda>(sec, l).
     let line = trim (strip_comment raw) in
     if line = [] then (sec, l)
     else if starts_with line ''['' then (Some (section_of line), l)
     else case key_value line of
            None \<Rightarrow> (sec, l)
          | Some (key, value) \<Rightarrow> (sec, set_key sec key value l))"

definition parse_toml_text :: "string \<Rightarrow> layer" where
  "parse_toml_text s = snd (fold toml_line (lines (strip_bom s)) (None, empty_layer))"

definition nonempty :: "string option \<Rightarrow> string option" where
  "nonempty v = (case v of None \<Rightarrow> None | Some s \<Rightarrow> if s = [] then None else Some s)"

definition parse_machine_bytes :: "(string \<Rightarrow> json option) \<Rightarrow> string \<Rightarrow> layer" where
  "parse_machine_bytes parse bytes =
     (case Option.bind (parse (strip_bom bytes)) as_object of
        None \<Rightarrow> empty_layer
      | Some obj \<Rightarrow>
          \<lparr>ly_root = nonempty (Option.bind (map_of obj ''root'') as_str),
           ly_format = nonempty (Option.bind (map_of obj ''format'') as_str),
           ly_rebuild_on_open = Option.bind (map_of obj ''rebuild_on_open'') as_bool\<rparr>)"

definition parse_env_bool :: "string \<Rightarrow> bool option" where
  "parse_env_bool raw =
     (let s = to_ascii_lowercase (trim raw) in
      if s = ''true'' then Some True else if s = ''false'' then Some False else None)"

section \<open>Files and paths\<close>

datatype read_result = Absent | Unreadable string | Bytes string

record disk =
  dk_read :: "string \<Rightarrow> read_result"
  dk_mkdir_error :: "string \<Rightarrow> string option"
  dk_write_error :: "string \<Rightarrow> string option"

definition read_toml_layer :: "disk \<Rightarrow> string \<Rightarrow> layer" where
  "read_toml_layer d root =
     (case dk_read d (join root ''innen.toml'') of
        Bytes b \<Rightarrow> if valid_utf8 b then parse_toml_text b else empty_layer
      | _ \<Rightarrow> empty_layer)"

definition machine_path :: "string \<Rightarrow> string" where
  "machine_path root = join (join root ''.innen'') ''machine.json''"

definition read_machine_layer :: "(string \<Rightarrow> json option) \<Rightarrow> disk \<Rightarrow> string \<Rightarrow> layer" where
  "read_machine_layer parse d root =
     (case dk_read d (machine_path root) of Bytes b \<Rightarrow> parse_machine_bytes parse b | _ \<Rightarrow> empty_layer)"

section \<open>Precedence\<close>

definition overlap_warnings :: "layer \<Rightarrow> layer \<Rightarrow> string list" where
  "overlap_warnings toml machine =
     map (\<lambda>key. ''warning: machine.json overrides innen.toml: '' @ key)
       (filter (\<lambda>key.
          if key = ''root'' then ly_root toml \<noteq> None \<and> ly_root machine \<noteq> None
          else if key = ''format'' then ly_format toml \<noteq> None \<and> ly_format machine \<noteq> None
          else ly_rebuild_on_open toml \<noteq> None \<and> ly_rebuild_on_open machine \<noteq> None)
        [''root'', ''format'', ''rebuild_on_open''])"

definition override :: "string option \<Rightarrow> string option \<Rightarrow> bool option \<Rightarrow> config \<Rightarrow> config" where
  "override root fmt rebuild c =
     (let c1 = (case root of None \<Rightarrow> c | Some v \<Rightarrow> c\<lparr>cf_root := v\<rparr>);
          c2 = (case fmt of None \<Rightarrow> c1 | Some v \<Rightarrow> c1\<lparr>cf_format := v\<rparr>)
      in case rebuild of None \<Rightarrow> c2 | Some v \<Rightarrow> c2\<lparr>cf_rebuild_on_open := v\<rparr>)"

definition merge_layers ::
  "string \<Rightarrow> layer \<Rightarrow> layer \<Rightarrow> string option \<Rightarrow> string option \<Rightarrow> bool option \<Rightarrow> cli_overrides \<Rightarrow> config \<times> string list" where
  "merge_layers root_arg toml machine env_root env_format env_rebuild cli =
     (let builtin = \<lparr>cf_root = root_arg, cf_format = ''human'', cf_rebuild_on_open = False\<rparr>;
          with_toml = override (ly_root toml) (ly_format toml) (ly_rebuild_on_open toml) builtin;
          with_machine = override (ly_root machine) (ly_format machine) (ly_rebuild_on_open machine) with_toml;
          with_env = override env_root env_format env_rebuild with_machine
      in (override (co_root cli) (co_format cli) (co_rebuild_on_open cli) with_env, overlap_warnings toml machine))"

definition env_text :: "(string \<Rightarrow> string option) \<Rightarrow> string \<Rightarrow> string option" where
  "env_text env k = (case env k of None \<Rightarrow> None | Some s \<Rightarrow> if trim s = [] then None else Some s)"

definition load_with_env ::
  "(string \<Rightarrow> json option) \<Rightarrow> disk \<Rightarrow> string \<Rightarrow> cli_overrides \<Rightarrow> (string \<Rightarrow> string option) \<Rightarrow> config \<times> string list" where
  "load_with_env parse d root cli env =
     merge_layers root (read_toml_layer d root) (read_machine_layer parse d root)
       (env_text env ''INNEN_ROOT'') (env_text env ''INNEN_FORMAT'')
       (Option.bind (env ''INNEN_REBUILD_ON_OPEN'') parse_env_bool) cli"

section \<open>The root of the knowledge base\<close>

datatype root_error =
    Unconfigured
  | RelativeEnvRoot string
  | RelativeGlobalRoot string
  | RelativeConfigHome string string
  | CorruptConfig string
  | UnreadableConfig string string
  | NoGlobalDir

datatype config_set_error =
    UnknownKey string
  | InvalidBool
  | EmptyValue string
  | NotAbsolute string
  | SetRelativeConfigHome string string
  | CorruptGlobal string
  | SetNoGlobalDir
  | SetIo string

definition env_dir :: "(string \<Rightarrow> string option) \<Rightarrow> string \<Rightarrow> string option" where
  "env_dir env k = (case env k of None \<Rightarrow> None | Some s \<Rightarrow> if trim s = [] then None else Some (trim s))"

definition global_config_dir :: "(string \<Rightarrow> string option) \<Rightarrow> root_error + string" where
  "global_config_dir env =
     (case env_dir env ''XDG_CONFIG_HOME'' of
        Some p \<Rightarrow> if \<not> is_absolute p then Inl (RelativeConfigHome ''XDG_CONFIG_HOME'' p) else Inr (join p ''innen'')
      | None \<Rightarrow>
          (case env_dir env ''HOME'' of
             Some p \<Rightarrow> if \<not> is_absolute p then Inl (RelativeConfigHome ''HOME'' p)
                       else Inr (join (join p ''.config'') ''innen'')
           | None \<Rightarrow> Inl NoGlobalDir))"

definition global_config_path :: "(string \<Rightarrow> string option) \<Rightarrow> root_error + string" where
  "global_config_path env = bindE (global_config_dir env) (\<lambda>dir. Inr (join dir ''config.json''))"

definition root_value :: "string \<Rightarrow> jobject \<Rightarrow> root_error + string" where
  "root_value path obj =
     (case map_of obj ''root'' of
        None \<Rightarrow> Inl Unconfigured
      | Some v \<Rightarrow>
          (case as_str v of
             Some s \<Rightarrow>
               if trim s = [] then Inl (CorruptConfig path)
               else if \<not> is_absolute (trim s) then Inl (RelativeGlobalRoot (trim s))
               else Inr (trim s)
           | None \<Rightarrow> Inl (CorruptConfig path)))"

definition persisted_root :: "(string \<Rightarrow> json option) \<Rightarrow> disk \<Rightarrow> (string \<Rightarrow> string option) \<Rightarrow> root_error + string" where
  "persisted_root parse d env =
     (case global_config_path env of
        Inl NoGlobalDir \<Rightarrow> Inl Unconfigured
      | Inl e \<Rightarrow> Inl e
      | Inr path \<Rightarrow>
          (case dk_read d path of
             Absent \<Rightarrow> Inl Unconfigured
           | Unreadable detail \<Rightarrow> Inl (UnreadableConfig path detail)
           | Bytes bytes \<Rightarrow>
               (case Option.bind (parse (strip_bom bytes)) as_object of
                  None \<Rightarrow> Inl (CorruptConfig path)
                | Some obj \<Rightarrow> root_value path obj)))"

definition resolve_root ::
  "(string \<Rightarrow> json option) \<Rightarrow> disk \<Rightarrow> string option \<Rightarrow> (string \<Rightarrow> string option) \<Rightarrow> root_error + string" where
  "resolve_root parse d cli_root env =
     (case nonempty cli_root of
        Some r \<Rightarrow> Inr r
      | None \<Rightarrow>
          (case env_dir env ''INNEN_ROOT'' of
             Some p \<Rightarrow> if \<not> is_absolute p then Inl (RelativeEnvRoot p) else Inr p
           | None \<Rightarrow> persisted_root parse d env))"

section \<open>Writing\<close>

definition is_config_key :: "string \<Rightarrow> bool" where
  "is_config_key key = (key \<in> set [''root'', ''format'', ''rebuild_on_open''])"

definition is_bool_text :: "string \<Rightarrow> bool" where
  "is_bool_text v = (to_ascii_lowercase v \<in> set [''true'', ''false''])"

text \<open>Writing the whole file.  Directories carry no content; what a failed write leaves behind is not modelled.\<close>

definition write_config :: "disk \<Rightarrow> string \<Rightarrow> string \<Rightarrow> (config_set_error + unit) \<times> disk" where
  "write_config d path bytes =
     (case dk_write_error d path of
        Some e \<Rightarrow> (Inl (SetIo e), d)
      | None \<Rightarrow> (Inr (), d\<lparr>dk_read := (dk_read d)(path := Bytes bytes)\<rparr>))"

definition stored_value :: "string \<Rightarrow> string \<Rightarrow> json" where
  "stored_value key v = (if key = ''rebuild_on_open'' then JBool (eq_ignore_ascii_case v ''true'') else JStr v)"

definition machine_stored :: "string \<Rightarrow> string \<Rightarrow> json" where
  "machine_stored key value =
     (if key = ''rebuild_on_open'' then stored_value key (trim value) else stored_value key value)"

definition check_machine_value :: "string \<Rightarrow> string \<Rightarrow> config_set_error + unit" where
  "check_machine_value key value =
     (if \<not> is_config_key key then Inl (UnknownKey key)
      else if key = ''rebuild_on_open'' \<and> \<not> is_bool_text (trim value) then Inl InvalidBool
      else if (key = ''root'' \<or> key = ''format'') \<and> trim value = [] then Inl (EmptyValue key)
      else Inr ())"

text \<open>Bytes that do not parse as an object count as an empty map.\<close>

definition machine_map :: "(string \<Rightarrow> json option) \<Rightarrow> read_result \<Rightarrow> config_set_error + jobject" where
  "machine_map parse r =
     (case r of
        Bytes bytes \<Rightarrow> Inr (case Option.bind (parse bytes) as_object of None \<Rightarrow> [] | Some m \<Rightarrow> m)
      | Absent \<Rightarrow> Inr []
      | Unreadable e \<Rightarrow> Inl (SetIo e))"

definition set_machine_value ::
  "(json \<Rightarrow> string) \<Rightarrow> (string \<Rightarrow> json option) \<Rightarrow> string \<Rightarrow> string \<Rightarrow> string \<Rightarrow> disk \<Rightarrow> (config_set_error + string) \<times> disk" where
  "set_machine_value ser parse root key value d =
     (case check_machine_value key value of
        Inl e \<Rightarrow> (Inl e, d)
      | Inr _ \<Rightarrow>
          let stored = machine_stored key value; path = machine_path root in
          case dk_mkdir_error d (join root ''.innen'') of
            Some e \<Rightarrow> (Inl (SetIo e), d)
          | None \<Rightarrow>
              (case machine_map parse (dk_read d path) of
                 Inl e \<Rightarrow> (Inl e, d)
               | Inr m \<Rightarrow>
                   (case write_config d path (ser (JObj (omap_insert key stored m)) @ [CHR 0x0A]) of
                      (Inl e, d') \<Rightarrow> (Inl e, d')
                    | (Inr _, d') \<Rightarrow>
                        (Inr (if key = ''rebuild_on_open'' then to_ascii_lowercase (trim value) else value), d'))))"

definition check_global_value :: "string \<Rightarrow> string \<Rightarrow> config_set_error + unit" where
  "check_global_value key v =
     (if \<not> is_config_key key then Inl (UnknownKey key)
      else if (key = ''root'' \<or> key = ''format'') \<and> v = [] then Inl (EmptyValue key)
      else if key = ''rebuild_on_open'' \<and> \<not> is_bool_text v then Inl InvalidBool
      else if key = ''root'' \<and> \<not> is_absolute v then Inl (NotAbsolute v)
      else Inr ())"

definition set_error_of :: "root_error \<Rightarrow> config_set_error" where
  "set_error_of e =
     (case e of
        NoGlobalDir \<Rightarrow> SetNoGlobalDir
      | RelativeConfigHome var path \<Rightarrow> SetRelativeConfigHome var path
      | _ \<Rightarrow> CorruptGlobal [])"

definition global_map :: "(string \<Rightarrow> json option) \<Rightarrow> string \<Rightarrow> read_result \<Rightarrow> config_set_error + jobject" where
  "global_map parse path r =
     (case r of
        Bytes bytes \<Rightarrow> ok_or (CorruptGlobal path) (Option.bind (parse (strip_bom bytes)) as_object)
      | Absent \<Rightarrow> Inr []
      | Unreadable e \<Rightarrow> Inl (SetIo e))"

definition set_global_value ::
  "(json \<Rightarrow> string) \<Rightarrow> (string \<Rightarrow> json option) \<Rightarrow> (string \<Rightarrow> string option) \<Rightarrow> string \<Rightarrow> string \<Rightarrow> disk \<Rightarrow>
     (config_set_error + string) \<times> disk" where
  "set_global_value ser parse env key value d =
     (let v = trim value in
      case bindE (check_global_value key v) (\<lambda>_. mapErr set_error_of (global_config_dir env)) of
        Inl e \<Rightarrow> (Inl e, d)
      | Inr dir \<Rightarrow>
          let path = join dir ''config.json'' in
          case dk_mkdir_error d dir of
            Some e \<Rightarrow> (Inl (SetIo e), d)
          | None \<Rightarrow>
              (case global_map parse path (dk_read d path) of
                 Inl e \<Rightarrow> (Inl e, d)
               | Inr m \<Rightarrow>
                   (case write_config d path (ser (JObj (omap_insert key (stored_value key v) m)) @ [CHR 0x0A]) of
                      (Inl e, d') \<Rightarrow> (Inl e, d')
                    | (Inr _, d') \<Rightarrow> (Inr (if key = ''rebuild_on_open'' then to_ascii_lowercase v else v), d'))))"

definition global_text :: "string \<Rightarrow> jobject \<Rightarrow> string option" where
  "global_text key obj =
     (if key = ''rebuild_on_open'' then
        map_option (\<lambda>b. if b then ''true'' else ''false'') (Option.bind (map_of obj key) as_bool)
      else Option.bind (map_of obj key) as_str)"

definition get_global_value ::
  "(string \<Rightarrow> json option) \<Rightarrow> (string \<Rightarrow> string option) \<Rightarrow> string \<Rightarrow> disk \<Rightarrow> config_set_error + string option" where
  "get_global_value parse env key d =
     (if \<not> is_config_key key then Inl (UnknownKey key)
      else case global_config_path env of
             Inl NoGlobalDir \<Rightarrow> Inr None
           | Inl e \<Rightarrow> Inl (set_error_of e)
           | Inr path \<Rightarrow>
               (case dk_read d path of
                  Absent \<Rightarrow> Inr None
                | Unreadable e \<Rightarrow> Inl (SetIo e)
                | Bytes bytes \<Rightarrow>
                    bindE (ok_or (CorruptGlobal path) (Option.bind (parse (strip_bom bytes)) as_object)) (\<lambda>obj.
                    Inr (global_text key obj))))"

section \<open>What a setting is\<close>

text \<open>The first layer that has the key decides.\<close>

fun first_of :: "'a option list \<Rightarrow> 'a \<Rightarrow> 'a" where
  "first_of [] v = v"
| "first_of (None # xs) v = first_of xs v"
| "first_of (Some x # xs) v = x"

theorem configuration_precedence:
  fixes parse :: "string \<Rightarrow> json option" and d :: disk and root :: string
  defines "toml \<equiv> read_toml_layer d root" and "machine \<equiv> read_machine_layer parse d root"
  shows "fst (load_with_env parse d root cli env) =
    \<lparr>cf_root = first_of [co_root cli, env_text env ''INNEN_ROOT'', ly_root machine, ly_root toml] root,
     cf_format = first_of [co_format cli, env_text env ''INNEN_FORMAT'', ly_format machine, ly_format toml] ''human'',
     cf_rebuild_on_open = first_of [co_rebuild_on_open cli, Option.bind (env ''INNEN_REBUILD_ON_OPEN'') parse_env_bool,
       ly_rebuild_on_open machine, ly_rebuild_on_open toml] False\<rparr>"
  unfolding load_with_env_def toml_def [symmetric] machine_def [symmetric] merge_layers_def override_def Let_def
  by (simp split: option.split)

section \<open>What is written is read\<close>

text \<open>What the configuration relies on from \<open>serde_json\<close>: the printed object parses back, and starts with no mark.\<close>

definition prints_back :: "(json \<Rightarrow> string) \<Rightarrow> (string \<Rightarrow> json option) \<Rightarrow> jobject \<Rightarrow> bool" where
  "prints_back ser parse m \<longleftrightarrow> parse (ser (JObj m) @ [CHR 0x0A]) = Some (JObj m) \<and>
     strip_bom (ser (JObj m) @ [CHR 0x0A]) = ser (JObj m) @ [CHR 0x0A]"

text \<open>The settings of an object, and the change of one of them.\<close>

definition settings :: "jobject \<Rightarrow> layer" where
  "settings obj = \<lparr>ly_root = nonempty (Option.bind (map_of obj ''root'') as_str),
     ly_format = nonempty (Option.bind (map_of obj ''format'') as_str),
     ly_rebuild_on_open = Option.bind (map_of obj ''rebuild_on_open'') as_bool\<rparr>"

definition with_setting :: "string \<Rightarrow> string \<Rightarrow> layer \<Rightarrow> layer" where
  "with_setting key value l =
     (if key = ''root'' then l\<lparr>ly_root := Some value\<rparr>
      else if key = ''format'' then l\<lparr>ly_format := Some value\<rparr>
      else l\<lparr>ly_rebuild_on_open := Some (to_ascii_lowercase (trim value) = ''true'')\<rparr>)"

lemma parse_machine_settings:
  "parse_machine_bytes parse b = (case Option.bind (parse (strip_bom b)) as_object of None \<Rightarrow> empty_layer | Some m \<Rightarrow> settings m)"
  by (simp add: parse_machine_bytes_def settings_def split: option.split)

lemma settings_Nil: "settings [] = empty_layer"
  by (simp add: settings_def empty_layer_def nonempty_def)

lemma trim_Nil [simp]: "trim [] = []"
  by code_simp

text \<open>C38. A setting that the program stores for the machine is the setting that is loaded, and the other settings of the
  file stay, unless the file begins with a byte order mark: a load accepts it, but a store does not, and then drops
  every other setting without an error.\<close>

theorem machine_setting_loads:
  assumes "set_machine_value ser parse root key value d = (Inr echo, d')"
    and "machine_map parse (dk_read d (machine_path root)) = Inr m"
    and "prints_back ser parse (omap_insert key (machine_stored key value) m)"
  shows "read_machine_layer parse d' root = with_setting key value (settings m) \<and>
    (\<forall>b. dk_read d (machine_path root) = Bytes b \<and> strip_bom b = b \<longrightarrow> settings m = read_machine_layer parse d root) \<and>
    (\<forall>t. dk_read d (machine_path root) = Bytes (BOM @ t) \<and> parse (BOM @ t) = None \<longrightarrow> settings m = empty_layer)"
proof -
  let ?stored = "machine_stored key value"
  from assms(1,2) have c: "check_machine_value key value = Inr ()"
    and d': "dk_read d' (machine_path root) = Bytes (ser (JObj (omap_insert key ?stored m)) @ [CHR 0x0A])"
    by (auto simp: set_machine_value_def write_config_def Let_def split: sum.splits option.splits)
  have k: "key \<in> {''root'', ''format'', ''rebuild_on_open''}" and v: "key \<noteq> ''rebuild_on_open'' \<Longrightarrow> value \<noteq> []"
    using c by (auto simp: check_machine_value_def is_config_key_def split: if_splits)
  have "read_machine_layer parse d' root = settings (omap_insert key ?stored m)"
    using assms(3) by (simp add: read_machine_layer_def d' parse_machine_settings prints_back_def)
  also have "\<dots> = with_setting key value (settings m)"
    using k v by (auto simp: settings_def with_setting_def machine_stored_def stored_value_def nonempty_def eq_ignore_ascii_case_def
        to_ascii_lowercase_def lower_char_def byte_def)
  finally have "read_machine_layer parse d' root = with_setting key value (settings m)" .
  moreover have "settings m = read_machine_layer parse d root"
    if "dk_read d (machine_path root) = Bytes b" "strip_bom b = b" for b
    using assms(2) that by (auto simp: machine_map_def read_machine_layer_def parse_machine_settings settings_Nil split: option.splits)
  moreover have "settings m = empty_layer" if "dk_read d (machine_path root) = Bytes (BOM @ t)" "parse (BOM @ t) = None" for t
    using assms(2) that by (simp add: machine_map_def settings_Nil)
  ultimately show ?thesis by blast
qed

lemma machine_setting_loads_witness:
  "read_machine_layer (\<lambda>_. Some (JObj [(''root'', JStr ''/kb'')]))
     (snd (set_machine_value (\<lambda>_. ''o'') (\<lambda>_. Some (JObj [(''root'', JStr ''/kb'')])) ''/r'' ''root'' ''/kb''
       \<lparr>dk_read = \<lambda>_. Absent, dk_mkdir_error = \<lambda>_. None, dk_write_error = \<lambda>_. None\<rparr>)) ''/r'' =
   with_setting ''root'' ''/kb'' (settings [])"
proof -
  let ?ser = "\<lambda>_ :: json. ''o''" and ?parse = "\<lambda>_ :: string. Some (JObj [(''root'', JStr ''/kb'')])"
    and ?d = "\<lparr>dk_read = \<lambda>_. Absent, dk_mkdir_error = \<lambda>_. None, dk_write_error = \<lambda>_. None\<rparr>"
  let ?run = "set_machine_value ?ser ?parse ''/r'' ''root'' ''/kb'' ?d"
  have "fst ?run = Inr ''/kb''" by code_simp
  then have 1: "?run = (Inr ''/kb'', snd ?run)" by (metis prod.collapse)
  have 2: "machine_map ?parse (dk_read ?d (machine_path ''/r'')) = Inr []" by (simp add: machine_map_def)
  have 3: "prints_back ?ser ?parse (omap_insert ''root'' (machine_stored ''root'' ''/kb'') [])" by code_simp
  show ?thesis using machine_setting_loads [OF 1 2 3] by blast
qed

lemma trim_start_done: "ws_len (trim_start s) = 0"
  by (induction s rule: trim_start.induct) (metis trim_start.simps)

lemma trim_end_done: "ws_len_end (trim_end s) = 0"
  by (induction s rule: trim_end.induct) (metis trim_end.simps)

lemma trim_end_prefix: "prefix (trim_end s) s"
proof (induction s rule: trim_end.induct)
  case (1 s)
  show ?case
  proof (cases "ws_len_end s = 0")
    case False
    then have "trim_end s = trim_end (take (length s - ws_len_end s) s)" by (simp add: trim_end.simps [of s])
    then show ?thesis using 1 [OF False] take_is_prefix prefix_order.order_trans by metis
  qed (simp add: trim_end.simps)
qed

lemma ws_len_prefix: "prefix p t \<Longrightarrow> ws_len p \<noteq> 0 \<Longrightarrow> ws_len t \<noteq> 0"
proof -
  assume "prefix p t" and n: "ws_len p \<noteq> 0"
  then obtain u where t: "t = p @ u" by (auto simp: prefix_def)
  consider "p = []" | a where "p = [a]" | a b where "p = [a, b]" | a b c q where "p = a # b # c # q"
    by (metis list.exhaust)
  then show ?thesis
    by cases (use n in \<open>auto simp add: t ws_len.simps(2) split: if_splits list.splits\<close>)
qed

lemma trim_trim: "trim (trim s) = trim s"
proof -
  have "ws_len (trim s) = 0"
    using ws_len_prefix [OF trim_end_prefix [of "trim_start s"]] trim_start_done [of s] unfolding trim_def by metis
  then have "trim_start (trim s) = trim s" by (subst trim_start.simps) simp
  moreover have "trim_end (trim s) = trim s"
    using trim_end_done [of "trim_start s"] unfolding trim_def by (subst trim_end.simps) simp
  ultimately show ?thesis by (simp add: trim_def [of "trim s"])
qed

text \<open>The user's own file: the root that is stored is the one that is resolved, and the other settings stay.\<close>

text \<open>C26. The root that is stored for the user is the root that every later command resolves without a flag and without
  \<open>INNEN_ROOT\<close>, and storing any setting leaves the others as they were.\<close>

theorem global_setting_is_found:
  assumes "set_global_value ser parse env key value d = (Inr echo, d')"
    and "global_config_path env = Inr path" and "global_map parse path (dk_read d path) = Inr m"
    and "prints_back ser parse (omap_insert key (stored_value key (trim value)) m)"
  shows "get_global_value parse env key d' = Inr (Some echo) \<and>
    (key = ''root'' \<and> env_dir env ''INNEN_ROOT'' = None \<longrightarrow> resolve_root parse d' None env = Inr (trim value)) \<and>
    (\<forall>other. other \<noteq> key \<longrightarrow> get_global_value parse env other d' = get_global_value parse env other d)"
proof -
  let ?m = "omap_insert key (stored_value key (trim value)) m"
  from assms(1-3) have c: "check_global_value key (trim value) = Inr ()"
    and d': "dk_read d' path = Bytes (ser (JObj ?m) @ [CHR 0x0A])"
    and echo: "echo = (if key = ''rebuild_on_open'' then to_ascii_lowercase (trim value) else trim value)"
    by (auto simp: set_global_value_def global_config_path_def write_config_def Let_def
        split: sum.splits option.splits)
  have k: "is_config_key key" using c by (auto simp: check_global_value_def split: if_splits)
  have b: "is_bool_text (trim value)" if "key = ''rebuild_on_open''"
    using c that by (auto simp: check_global_value_def split: if_splits)
  have r: "trim value \<noteq> [] \<and> is_absolute (trim value)" if "key = ''root''"
    using c that by (auto simp: check_global_value_def split: if_splits)
  have p: "parse (strip_bom (ser (JObj ?m) @ [CHR 0x0A])) = Some (JObj ?m)" using assms(4) by (simp add: prints_back_def)
  have get: "get_global_value parse env other d' = (if is_config_key other then Inr (global_text other ?m) else Inl (UnknownKey other))"
    for other by (simp add: get_global_value_def assms(2) d' p)
  have "global_text key ?m = Some echo"
    using b by (auto simp: global_text_def stored_value_def echo is_bool_text_def eq_ignore_ascii_case_def to_ascii_lowercase_def
        lower_char_def byte_def)
  moreover have "get_global_value parse env other d' = get_global_value parse env other d" if "other \<noteq> key" for other
    using that assms(2,3)
    by (simp only: get) (auto simp: get_global_value_def global_text_def global_map_def split: read_result.splits)
  moreover have "resolve_root parse d' None env = Inr (trim value)" if "key = ''root''" "env_dir env ''INNEN_ROOT'' = None"
    using that r p by (simp add: resolve_root_def nonempty_def persisted_root_def assms(2) d' root_value_def stored_value_def trim_trim)
  ultimately show ?thesis using k by (simp add: get)
qed

lemma global_setting_is_found_witness:
  "resolve_root (\<lambda>_. Some (JObj [(''root'', JStr ''/kb'')]))
     (snd (set_global_value (\<lambda>_. ''o'') (\<lambda>_. Some (JObj [(''root'', JStr ''/kb'')])) [''HOME'' \<mapsto> ''/u''] ''root'' ''/kb ''
       \<lparr>dk_read = \<lambda>_. Absent, dk_mkdir_error = \<lambda>_. None, dk_write_error = \<lambda>_. None\<rparr>)) None [''HOME'' \<mapsto> ''/u''] =
   Inr ''/kb''"
proof -
  let ?ser = "\<lambda>_ :: json. ''o''" and ?parse = "\<lambda>_ :: string. Some (JObj [(''root'', JStr ''/kb'')])"
    and ?d = "\<lparr>dk_read = \<lambda>_. Absent, dk_mkdir_error = \<lambda>_. None, dk_write_error = \<lambda>_. None\<rparr>"
    and ?env = "[''HOME'' \<mapsto> ''/u'']"
  let ?run = "set_global_value ?ser ?parse ?env ''root'' ''/kb '' ?d"
  have "fst ?run = Inr ''/kb''" by code_simp
  then have 1: "?run = (Inr ''/kb'', snd ?run)" by (metis prod.collapse)
  have 2: "global_config_path ?env = Inr ''/u/.config/innen/config.json''" by code_simp
  have 3: "global_map ?parse ''/u/.config/innen/config.json'' (dk_read ?d ''/u/.config/innen/config.json'') = Inr []"
    by (simp add: global_map_def)
  have 4: "prints_back ?ser ?parse (omap_insert ''root'' (stored_value ''root'' (trim ''/kb '')) [])" by code_simp
  have "env_dir ?env ''INNEN_ROOT'' = None" "trim ''/kb '' = ''/kb''" by code_simp+
  then show ?thesis using global_setting_is_found [OF 1 2 3 4] by metis
qed

section \<open>Quoted values\<close>

text \<open>A byte that no white space character ends or starts with.\<close>

definition solid :: "char \<Rightarrow> bool" where
  "solid c \<longleftrightarrow> 32 < byte c \<and> byte c < 128"

lemma trim_end_solid: "solid c \<Longrightarrow> trim_end (s @ [c]) = s @ [c]"
proof -
  assume c: "solid c"
  let ?n = "length s"
  have 1: "ws_len [c] = 0" "ws_len [x, c] \<noteq> 2" "ws_len [x, y, c] \<noteq> 3" for x y
    using c by (auto simp: ws_len.simps(2) solid_def)
  have d2: "\<exists>x. drop (?n - 1) s = [x]" if "1 \<le> ?n"
    using that by (cases s rule: rev_cases) auto
  have d3: "\<exists>x y. drop (?n - 2) s = [x, y]" if "2 \<le> ?n"
    using that by (cases s rule: rev_cases; cases "butlast s" rule: rev_cases) auto
  have "ws_len_end (s @ [c]) = 0" using 1 d2 d3 by (fastforce simp: ws_len_end_def Let_def)
  then show ?thesis by (simp add: trim_end.simps)
qed

lemma trim_start_solid: "solid c \<Longrightarrow> trim_start (c # s) = c # s"
  by (subst trim_start.simps) (auto simp: ws_len.simps(2) solid_def split: list.splits)

lemma trim_end_space: "trim_end (s @ [CHR 0x20]) = trim_end s"
  by (subst trim_end.simps) (simp add: ws_len_end_def ws_len.simps(2) byte_def)

lemma trim_start_space: "trim_start (CHR 0x20 # s) = trim_start s"
  by (subst trim_start.simps) (simp add: ws_len.simps(2) byte_def)

lemma trim_solid: "solid c \<Longrightarrow> solid e \<Longrightarrow> trim (c # s @ [e]) = c # s @ [e]"
  using trim_end_solid [of e "c # s"] by (simp add: trim_def trim_start_solid)

text \<open>How a value is quoted.\<close>

fun escape :: "string \<Rightarrow> string" where
  "escape [] = []"
| "escape (c # s) = (if c = CHR 0x5C \<or> c = CHR 0x22 then CHR 0x5C # c # escape s else c # escape s)"

definition quoted :: "string \<Rightarrow> string" where
  "quoted s = [CHR 0x22] @ escape s @ [CHR 0x22]"

lemma unescape_escape: "unescape (escape s) = Some s"
  by (induction s) auto

lemma unquote_quoted: "unquote (quoted s) = Some s"
  by (simp add: unquote_def quoted_def strip_prefix_def strip_suffix_def unescape_escape)

lemma comment_start_escape:
  "comment_start True i (escape s @ CHR 0x22 # rest) = comment_start False (i + length (escape s) + 1) rest"
  by (induction s arbitrary: i) auto

lemma escape_line: "CHR 0x0A \<notin> set s \<Longrightarrow> CHR 0x0A \<notin> set (escape s)"
  by (induction s) auto

lemma strip_comment_quoted:
  assumes "comment = [] \<or> (\<exists>remark. comment = '' #'' @ remark)"
  shows "trim (strip_comment (''root = '' @ quoted s @ comment)) = ''root = '' @ quoted s"
proof -
  let ?q = "''root = '' @ quoted s"
  have c: "comment_start False 0 (?q @ rest) = comment_start False (length ?q) rest" for rest
    using comment_start_escape [of 8 s rest] by (simp add: quoted_def eval_nat_numeral)
  have e: "trim_end ?q = ?q" using trim_end_solid [of "CHR 0x22" "''root = '' @ [CHR 0x22] @ escape s"]
    by (simp add: quoted_def solid_def byte_def)
  have t: "trim ?q = ?q" using trim_solid [of "CHR ''r''" "CHR 0x22" "''oot = '' @ [CHR 0x22] @ escape s"]
    by (simp add: quoted_def solid_def byte_def)
  from assms show ?thesis
  proof
    assume "comment = []"
    then show ?thesis using c [of "[]"] t by (simp add: strip_comment_def)
  next
    assume "\<exists>remark. comment = '' #'' @ remark"
    then obtain remark where n: "comment = '' #'' @ remark" by blast
    have "comment_start False 0 (?q @ comment) = Some (length ?q + 1)" unfolding c by (simp add: n)
    then have "strip_comment (?q @ comment) = trim_end (?q @ [CHR 0x20])"
      by (simp add: strip_comment_def n)
    then show ?thesis using t e trim_end_space [of ?q] by simp
  qed
qed

text \<open>Every text without a line break can be written as the root in \<open>innen.toml\<close>, with quotes, backslashes, number
  signs and equals signs in it and a comment behind it, and is read back as it is.\<close>

theorem quoted_root_is_read:
  assumes "s \<noteq> []" and "CHR 0x0A \<notin> set s" and "comment = [] \<or> (\<exists>remark. comment = '' #'' @ remark)" and "CHR 0x0A \<notin> set comment"
  shows "parse_toml_text (''[core]'' @ [CHR 0x0A] @ ''root = '' @ quoted s @ comment) = empty_layer\<lparr>ly_root := Some s\<rparr>"
proof -
  let ?line = "''root = '' @ quoted s @ comment"
  have lf: "CHR 0x0A \<notin> set ?line" using assms(2,4) escape_line by (auto simp: quoted_def)
  then have "lines ?line = [?line]" by (simp add: lines_def split_inclusive_tail strip_eol_id del: append_Cons)
  moreover have "lines (''[core]'' @ [CHR 0x0A]) = [''[core]'']" by code_simp
  ultimately have l: "lines ((''[core]'' @ [CHR 0x0A]) @ ?line) = [''[core]'', ?line]" by (subst lines_append) auto
  have core: "toml_line ''[core]'' (None, empty_layer) = (Some CoreSection, empty_layer)" by code_simp
  have key: "key_value (''root = '' @ quoted s) = Some (''root'', quoted s)"
  proof -
    have "split_once (''root = '' @ quoted s) ''='' = Some (''root '', CHR 0x20 # quoted s)" by simp
    moreover have "trim ''root '' = ''root''" by code_simp
    moreover have "trim (CHR 0x20 # quoted s) = quoted s"
      using trim_solid [of "CHR 0x22" "CHR 0x22" "escape s"]
      by (simp add: trim_def trim_start_space quoted_def solid_def byte_def)
    ultimately show ?thesis by (simp add: key_value_def)
  qed
  have "toml_line ?line (Some CoreSection, empty_layer) = (Some CoreSection, empty_layer\<lparr>ly_root := Some s\<rparr>)"
    unfolding toml_line_def prod.case Let_def strip_comment_quoted [OF assms(3)]
    using assms(1) by (simp add: key set_key_def unquote_quoted starts_with_def del: append_Cons) (simp add: starts_with_def)
  moreover have "strip_bom (''[core]'' @ [CHR 0x0A] @ ?line) = ''[core]'' @ [CHR 0x0A] @ ?line"
    by (simp add: strip_bom_def strip_prefix_def BOM_def)
  ultimately show ?thesis using l core by (simp add: parse_toml_text_def)
qed

lemma quoted_root_is_read_witness:
  "parse_toml_text (''[core]'' @ [CHR 0x0A] @ ''root = '' @ quoted (''/a # '' @ [CHR 0x22]) @ '' # kb'') =
     empty_layer\<lparr>ly_root := Some (''/a # '' @ [CHR 0x22])\<rparr>"
  by (rule quoted_root_is_read) auto

end
