(* ===== verification/Artifact_Tree.thy ===== *)
theory Artifact_Tree
  imports Journal Paths
begin

text \<open>
  The inventory of a directory (\<open>inventory_tree\<close> of \<open>crates/innen-core/src/artifact.rs\<close>): what a
  walk sees, the entries it lists, and the manifest that binds them.  The lemmas compare the walk,
  which keeps a stack of directories, with a recursive listing.
\<close>

section \<open>Data\<close>

text \<open>What the walk sees at a path.  A broken node is one that cannot be read: for a directory the reason, otherwise
  the step that fails (metadata, readlink, open or read) and the reason.  The error of an inventory is the text of
  \<open>ArtifactError::Io\<close>.\<close>

datatype tree_node =
    FileNode string
  | DirNode "(string \<times> tree_node) list"
  | LinkNode string
  | BrokenFile string string
  | BrokenDir string
  | SpecialNode

record tree_entry =
  te_path :: string
  te_kind :: string
  te_sha256 :: "string option"
  te_bytes :: "nat option"
  te_target :: "string option"

record tree_manifest =
  tm_format :: string
  tm_source_path :: string
  tm_tree_sha256 :: string
  tm_files :: nat
  tm_symlinks :: nat
  tm_bytes :: nat
  tm_entries :: "tree_entry list"

section \<open>The walk\<close>

text \<open>The path of a child below the source; it is shown as text, with every backslash replaced.\<close>

definition relative_path :: "string \<Rightarrow> string \<Rightarrow> string" where
  "relative_path dir name = (if dir = [] then name else dir @ ''/'' @ name)"

text \<open>The path itself, for messages.\<close>

definition full_path :: "string \<Rightarrow> string \<Rightarrow> string" where
  "full_path src p = to_string_lossy (if p = [] then src else join src p)"

definition shown_path :: "string \<Rightarrow> string" where
  "shown_path p = replace_char (CHR 0x5C) ''/'' (to_string_lossy p)"

definition file_entry :: "lib \<Rightarrow> string \<Rightarrow> string \<Rightarrow> tree_entry" where
  "file_entry L p b =
     \<lparr>te_path = shown_path p, te_kind = ''file'', te_sha256 = Some (sha256_hex (x_sha L) b),
      te_bytes = Some (length b), te_target = None\<rparr>"

definition link_entry :: "string \<Rightarrow> string \<Rightarrow> tree_entry" where
  "link_entry p target =
     \<lparr>te_path = shown_path p, te_kind = ''symlink'', te_sha256 = None, te_bytes = None,
      te_target = Some (to_string_lossy target)\<rparr>"

text \<open>A directory on the stack: its path below the source, and its children or the reason they cannot be read.\<close>

type_synonym pending = "string \<times> (string + (string \<times> tree_node) list)"

definition visit_child ::
  "lib \<Rightarrow> string \<Rightarrow> string \<Rightarrow> string \<times> tree_node \<Rightarrow> pending list \<times> tree_entry list \<Rightarrow>
     string + pending list \<times> tree_entry list" where
  "visit_child L src dir child acc =
     (let p = relative_path dir (fst child) in
      case snd child of
        LinkNode target \<Rightarrow> Inr (fst acc, snd acc @ [link_entry p target])
      | DirNode children \<Rightarrow> Inr ((p, Inr children) # fst acc, snd acc)
      | BrokenDir e \<Rightarrow> Inr ((p, Inl e) # fst acc, snd acc)
      | FileNode b \<Rightarrow> Inr (fst acc, snd acc @ [file_entry L p b])
      | BrokenFile step e \<Rightarrow> Inl (step @ '' '' @ full_path src p @ '': '' @ e)
      | SpecialNode \<Rightarrow> Inl (''unsupported filesystem entry: '' @ full_path src p))"

fun node_weight :: "tree_node \<Rightarrow> nat" where
  "node_weight (DirNode children) = 1 + sum_list (map (\<lambda>c. node_weight (snd c)) children)"
| "node_weight _ = 1"

definition pending_weight :: "pending \<Rightarrow> nat" where
  "pending_weight d = (case snd d of Inl _ \<Rightarrow> 1 | Inr children \<Rightarrow> 1 + sum_list (map (\<lambda>c. node_weight (snd c)) children))"

lemma visit_weight:
  assumes "visit_child L src dir c acc = Inr acc'"
  shows "sum_list (map pending_weight (fst acc')) \<le> sum_list (map pending_weight (fst acc)) + node_weight (snd c)"
  using assms by (cases "snd c") (auto simp: visit_child_def pending_weight_def Let_def)

lemma visits_weight:
  "foldE (visit_child L src dir) cs acc = Inr acc' \<Longrightarrow>
   sum_list (map pending_weight (fst acc')) \<le>
     sum_list (map pending_weight (fst acc)) + sum_list (map (\<lambda>c. node_weight (snd c)) cs)"
proof (induction cs arbitrary: acc)
  case (Cons c cs)
  then obtain acc1 where v: "visit_child L src dir c acc = Inr acc1" and r: "foldE (visit_child L src dir) cs acc1 = Inr acc'"
    by auto
  from Cons.IH [OF r] visit_weight [OF v] show ?case by simp
qed simp

function walk_tree :: "lib \<Rightarrow> string \<Rightarrow> pending list \<Rightarrow> tree_entry list \<Rightarrow> string + tree_entry list" where
  "walk_tree L src [] entries = Inr entries"
| "walk_tree L src ((dir, Inl e) # stack) entries = Inl (''read_dir '' @ full_path src dir @ '': '' @ e)"
| "walk_tree L src ((dir, Inr children) # stack) entries =
     (case foldE (visit_child L src dir) children (stack, entries) of
        Inl e \<Rightarrow> Inl e
      | Inr (stack', entries') \<Rightarrow> walk_tree L src stack' entries')"
  by pat_completeness auto
termination
proof (relation "measure (\<lambda>(L, src, stack, entries). sum_list (map pending_weight stack))", goal_cases)
  case (2 L src dir children stack entries r stack' entries')
  then have "foldE (visit_child L src dir) children (stack, entries) = Inr (stack', entries')" by simp
  from visits_weight [OF this] show ?case by (simp add: pending_weight_def)
qed simp

text \<open>The serialized entries: fields in declaration order, absent ones left out.\<close>

definition entry_text :: "lib \<Rightarrow> tree_entry \<Rightarrow> string" where
  "entry_text L e =
     ''{'' @ join_with '',''
       ([field_text L ''path'' (JStr (te_path e)), field_text L ''kind'' (JStr (te_kind e))] @
        (case te_sha256 e of None \<Rightarrow> [] | Some s \<Rightarrow> [field_text L ''sha256'' (JStr s)]) @
        (case te_bytes e of None \<Rightarrow> [] | Some n \<Rightarrow> [field_text L ''bytes'' (jnat n)]) @
        (case te_target e of None \<Rightarrow> [] | Some t \<Rightarrow> [field_text L ''target'' (JStr t)])) @ ''}''"

definition entries_text :: "lib \<Rightarrow> tree_entry list \<Rightarrow> string" where
  "entries_text L es = ''['' @ join_with '','' (map (entry_text L) es) @ '']''"

definition manifest_of :: "lib \<Rightarrow> string \<Rightarrow> tree_entry list \<Rightarrow> tree_manifest" where
  "manifest_of L source entries =
     \<lparr>tm_format = ''innen.directory-tree.v1'', tm_source_path = to_string_lossy source,
      tm_tree_sha256 = sha256_hex (x_sha L) (entries_text L entries),
      tm_files = length (filter (\<lambda>e. te_kind e = ''file'') entries),
      tm_symlinks = length (filter (\<lambda>e. te_kind e = ''symlink'') entries),
      tm_bytes = sum_list (List.map_filter te_bytes entries),
      tm_entries = entries\<rparr>"

text \<open>\<open>source\<close> is the path that \<open>canonicalize\<close> gives for \<open>raw\<close>, and what is there.\<close>

definition inventory_tree :: "lib \<Rightarrow> string \<Rightarrow> string + (string \<times> tree_node) \<Rightarrow> string + tree_manifest" where
  "inventory_tree L raw source =
     (case source of
        Inl e \<Rightarrow> Inl (''canonicalize '' @ to_string_lossy raw @ '': '' @ e)
      | Inr (src, node) \<Rightarrow>
          bindE (case node of
              DirNode children \<Rightarrow> walk_tree L src [([], Inr children)] []
            | BrokenDir e \<Rightarrow> walk_tree L src [([], Inl e)] []
            | _ \<Rightarrow> Inl (''directory inventory requires a directory: '' @ to_string_lossy src)) (\<lambda>entries.
          Inr (manifest_of L src (sort_key te_path entries))))"

section \<open>What the walk lists\<close>

text \<open>The recursive listing, and whether everything in the tree can be read.\<close>

fun listing :: "lib \<Rightarrow> string \<Rightarrow> tree_node \<Rightarrow> tree_entry list" where
  "listing L p (FileNode b) = [file_entry L p b]"
| "listing L p (LinkNode t) = [link_entry p t]"
| "listing L p (DirNode children) = concat (map (\<lambda>c. listing L (relative_path p (fst c)) (snd c)) children)"
| "listing L p _ = []"

fun readable :: "tree_node \<Rightarrow> bool" where
  "readable (FileNode b) = True"
| "readable (LinkNode t) = True"
| "readable (DirNode children) = list_all (\<lambda>c. readable (snd c)) children"
| "readable _ = False"

definition pending_listing :: "lib \<Rightarrow> pending \<Rightarrow> tree_entry list" where
  "pending_listing L d = (case snd d of Inl _ \<Rightarrow> [] | Inr children \<Rightarrow> listing L (fst d) (DirNode children))"

definition pending_readable :: "pending \<Rightarrow> bool" where
  "pending_readable d = (case snd d of Inl _ \<Rightarrow> False | Inr children \<Rightarrow> readable (DirNode children))"

lemma pending_simps [simp]:
  "pending_listing L (d, Inl e) = []" "pending_listing L (d, Inr cs) = listing L d (DirNode cs)"
  "pending_readable (d, Inl e) = False" "pending_readable (d, Inr cs) = readable (DirNode cs)"
  by (simp_all add: pending_listing_def pending_readable_def)

abbreviation seen :: "lib \<Rightarrow> pending list \<times> tree_entry list \<Rightarrow> tree_entry multiset" where
  "seen L acc \<equiv> mset (snd acc) + mset (concat (map (pending_listing L) (fst acc)))"

lemma visit_seen:
  assumes "visit_child L src dir c acc = Inr acc'"
  shows "seen L acc' = seen L acc + mset (listing L (relative_path dir (fst c)) (snd c)) \<and>
    list_all pending_readable (fst acc') = (list_all pending_readable (fst acc) \<and> readable (snd c))"
  using assms by (cases "snd c") (auto simp: visit_child_def Let_def)

lemma visits_seen:
  "foldE (visit_child L src dir) cs acc = Inr acc' \<Longrightarrow>
   seen L acc' = seen L acc + mset (concat (map (\<lambda>c. listing L (relative_path dir (fst c)) (snd c)) cs)) \<and>
   list_all pending_readable (fst acc') = (list_all pending_readable (fst acc) \<and> list_all (\<lambda>c. readable (snd c)) cs)"
proof (induction cs arbitrary: acc)
  case (Cons c cs)
  then obtain acc1 where v: "visit_child L src dir c acc = Inr acc1" and r: "foldE (visit_child L src dir) cs acc1 = Inr acc'"
    by auto
  from Cons.IH [OF r] visit_seen [OF v] show ?case by (auto simp: ac_simps)
qed simp

lemma visits_total:
  "list_all (\<lambda>c. readable (snd c)) cs \<Longrightarrow> \<exists>acc'. foldE (visit_child L src dir) cs acc = Inr acc'"
proof (induction cs arbitrary: acc)
  case (Cons c cs)
  then obtain acc1 where "visit_child L src dir c acc = Inr acc1"
    by (cases "snd c") (auto simp: visit_child_def Let_def)
  then show ?case using Cons by simp
qed simp

lemma walk_lists:
  "(case walk_tree L src stack entries of
      Inr out \<Rightarrow> list_all pending_readable stack \<and> mset out = seen L (stack, entries)
    | Inl _ \<Rightarrow> \<not> list_all pending_readable stack)"
proof (induction L src stack entries rule: walk_tree.induct)
  case (3 L src dir children stack entries)
  show ?case
  proof (cases "foldE (visit_child L src dir) children (stack, entries)")
    case (Inl e)
    then have "\<not> list_all (\<lambda>c. readable (snd c)) children" using visits_total [of children L src dir "(stack, entries)"] by auto
    then show ?thesis using Inl by simp
  next
    case (Inr acc)
    obtain stack' entries' where acc: "acc = (stack', entries')" by (cases acc)
    note IH = 3 [OF Inr [unfolded acc] refl]
    from visits_seen [OF Inr] IH show ?thesis
      by (auto simp: Inr acc ac_simps split: sum.splits)
  qed
qed simp_all

fun tree_files :: "tree_node \<Rightarrow> nat" where
  "tree_files (FileNode b) = 1"
| "tree_files (DirNode children) = sum_list (map (\<lambda>c. tree_files (snd c)) children)"
| "tree_files _ = 0"

fun tree_links :: "tree_node \<Rightarrow> nat" where
  "tree_links (LinkNode t) = 1"
| "tree_links (DirNode children) = sum_list (map (\<lambda>c. tree_links (snd c)) children)"
| "tree_links _ = 0"

fun tree_bytes :: "tree_node \<Rightarrow> nat" where
  "tree_bytes (FileNode b) = length b"
| "tree_bytes (DirNode children) = sum_list (map (\<lambda>c. tree_bytes (snd c)) children)"
| "tree_bytes _ = 0"

lemma totals_concat:
  "length (filter P (concat (map f cs))) = sum_list (map (\<lambda>c. length (filter P (f c))) cs)"
  "sum_list (List.map_filter h (concat (map f cs))) = sum_list (map (\<lambda>c. sum_list (List.map_filter h (f c))) cs)"
  by (induction cs) (simp_all add: List.map_filter_def)

lemma listing_files: "length (filter (\<lambda>e. te_kind e = ''file'') (listing L p t)) = tree_files t"
  by (induction L p t rule: listing.induct)
    (simp_all add: file_entry_def link_entry_def totals_concat cong: map_cong)

lemma listing_links: "length (filter (\<lambda>e. te_kind e = ''symlink'') (listing L p t)) = tree_links t"
  by (induction L p t rule: listing.induct)
    (simp_all add: file_entry_def link_entry_def totals_concat cong: map_cong)

lemma listing_bytes: "sum_list (List.map_filter te_bytes (listing L p t)) = tree_bytes t"
  by (induction L p t rule: listing.induct)
    (simp_all add: file_entry_def link_entry_def totals_concat map_filter_simps cong: map_cong)

lemmas listing_totals = listing_files listing_links listing_bytes

lemma totals_mset:
  assumes "mset xs = mset ys"
  shows "length (filter P xs) = length (filter P ys)"
    and "sum_list (List.map_filter h xs) = sum_list (List.map_filter h ys :: nat list)"
proof -
  have "mset (filter P xs) = mset (filter P ys)" using assms by (simp add: mset_filter)
  then show "length (filter P xs) = length (filter P ys)" by (metis size_mset)
  have "mset (List.map_filter h zs) = image_mset (\<lambda>x. the (h x)) (filter_mset (\<lambda>x. h x \<noteq> None) (mset zs))" for zs
    by (simp add: List.map_filter_def o_def flip: mset_filter)
  then have "mset (List.map_filter h xs) = mset (List.map_filter h ys)" using assms by simp
  then show "sum_list (List.map_filter h xs) = sum_list (List.map_filter h ys :: nat list)" by (metis sum_mset_sum_list)
qed

text \<open>C25. An inventory of a directory lists every file and every link below it once, each with its path and its
  digest or target, in the order of the paths, with the right totals; and it fails exactly when something below is
  neither a file, a directory nor a link, or cannot be read.  No link is followed.\<close>

theorem inventory_exact:
  "case inventory_tree L raw (Inr (src, DirNode children)) of
     Inr m \<Rightarrow> readable (DirNode children) \<and> mset (tm_entries m) = mset (listing L [] (DirNode children)) \<and>
       sorted (map te_path (tm_entries m)) \<and> tm_files m = tree_files (DirNode children) \<and>
       tm_symlinks m = tree_links (DirNode children) \<and> tm_bytes m = tree_bytes (DirNode children) \<and>
       tm_tree_sha256 m = sha256_hex (x_sha L) (entries_text L (tm_entries m))
   | Inl _ \<Rightarrow> \<not> readable (DirNode children)"
proof (cases "walk_tree L src [([], Inr children)] []")
  case (Inl e)
  then show ?thesis using walk_lists [where L = L and src = src and stack = "[([], Inr children)]" and entries = "[]"]
    by (simp add: inventory_tree_def del: walk_tree.simps)
next
  case (Inr out)
  have m: "readable (DirNode children)" "mset out = mset (listing L [] (DirNode children))"
    using Inr walk_lists [where L = L and src = src and stack = "[([], Inr children)]" and entries = "[]"]
    by (simp_all del: walk_tree.simps)
  have t: "mset (sort_key te_path out) = mset (listing L [] (DirNode children))" using m by simp
  have "inventory_tree L raw (Inr (src, DirNode children)) = Inr (manifest_of L src (sort_key te_path out))"
    by (simp add: inventory_tree_def Inr del: walk_tree.simps)
  moreover have "tm_files (manifest_of L src (sort_key te_path out)) = tree_files (DirNode children)"
    "tm_symlinks (manifest_of L src (sort_key te_path out)) = tree_links (DirNode children)"
    "tm_bytes (manifest_of L src (sort_key te_path out)) = tree_bytes (DirNode children)"
    unfolding manifest_of_def tree_manifest.simps totals_mset [OF t] listing_totals by (rule refl)+
  ultimately show ?thesis using m by (simp add: manifest_of_def)
qed

text \<open>C40. The digest of an inventory leaves out three differences between directories: an empty directory is not
  recorded at all, a file whose name has a backslash is recorded like a file in a directory, and two names
  that are no UTF-8 text and differ in one such byte are recorded alike.\<close>

theorem inventory_misses:
  "inventory_tree L raw (Inr (src, DirNode (children @ [(n, DirNode [])]))) = inventory_tree L raw (Inr (src, DirNode children)) \<and>
   inventory_tree L raw (Inr (src, DirNode [(''a'', DirNode [(''b'', FileNode b)])])) =
     inventory_tree L raw (Inr (src, DirNode [(''a'' @ [CHR 0x5C] @ ''b'', FileNode b)])) \<and>
   (\<exists>m. inventory_tree L raw (Inr (src, DirNode [(''a'', DirNode [(''b'', FileNode b)])])) = Inr m) \<and>
   inventory_tree L raw (Inr (src, DirNode [([CHR 0xFF], FileNode b)])) =
     inventory_tree L raw (Inr (src, DirNode [([CHR 0xFE], FileNode b)]))"
proof -
  have v: "valid_utf8 ''a/b''" "valid_utf8 (''a'' @ [CHR 0x5C] @ ''b'')" by (simp_all add: valid_utf8.simps(2) byte_def)
  have "utf8_step (CHR 0xFF) [] = (0, False)" "utf8_step (CHR 0xFE) [] = (0, False)"
    by (simp_all add: utf8_step_def byte_def)
  then have l: "to_string_lossy [CHR 0xFF] = to_string_lossy [CHR 0xFE]" by simp
  have "foldE (visit_child L src []) (children @ [(n, DirNode [])]) ([], []) =
      bindE (foldE (visit_child L src []) children ([], [])) (\<lambda>(stack, entries). Inr ((n, Inr []) # stack, entries))"
    by (cases "foldE (visit_child L src []) children ([], [])") (auto simp: visit_child_def relative_path_def Let_def)
  then have "walk_tree L src [([], Inr (children @ [(n, DirNode [])]))] [] = walk_tree L src [([], Inr children)] []"
    by (auto split: sum.split)
  moreover have "shown_path ''a/b'' = shown_path (''a'' @ [CHR 0x5C] @ ''b'')"
    unfolding shown_path_def lossy_valid [OF v(1)] lossy_valid [OF v(2)] by (simp add: replace_char_def)
  moreover have "shown_path [CHR 0xFF] = shown_path [CHR 0xFE]" unfolding shown_path_def l by (rule refl)
  ultimately show ?thesis
    by (simp add: inventory_tree_def visit_child_def relative_path_def file_entry_def del: to_string_lossy.simps)
qed

end
