(* ===== verification/Artifact.thy ===== *)
theory Artifact
  imports Artifact_Tree Edge_Write Project_Ref
begin

text \<open>
  Storing files by their content (\<open>crates/innen-core/src/artifact.rs\<close>): \<open>add\<close>, which copies a file into
  the directory of its digest and records it in the journal, and \<open>add_tree\<close>, which stores the manifest
  of a directory.  The world is a map of files and the journal's directory; what goes wrong with a path is
  part of the world.  A path names one file by its text.
\<close>

text \<open>The constructors that wrap another error stand for its text with a context.\<close>

datatype artifact_error =
    ArtIo string
  | ArtOpen journal_error
  | ArtRead journal_error
  | ArtProject string
  | ArtNode journal_error
  | ArtEdge edge_write_error

section \<open>Files\<close>

text \<open>How a write of a whole file fails: nothing is created; part of it is written; all of it is written, but it is
  not synced; the rename fails.\<close>

datatype write_fault = CreateFails string | WriteFails string string | SyncFails string | RenameFails string

record art_files =
  af_files :: "(string \<times> string) list"
  af_read_fault :: "string \<Rightarrow> string option"
  af_write_fault :: "string \<Rightarrow> write_fault option"
  af_dir_fault :: "string \<Rightarrow> string option"

datatype file_read = Missing | Fault string | Content string

definition read_file :: "art_files \<Rightarrow> string \<Rightarrow> file_read" where
  "read_file F p =
     (case af_read_fault F p of
        Some e \<Rightarrow> Fault e
      | None \<Rightarrow> (case map_of (af_files F) p of None \<Rightarrow> Missing | Some b \<Rightarrow> Content b))"

definition put_file :: "string \<Rightarrow> string \<Rightarrow> art_files \<Rightarrow> art_files" where
  "put_file p b F = F\<lparr>af_files := omap_insert p b (af_files F)\<rparr>"

definition NOT_FOUND :: string where
  "NOT_FOUND = ''No such file or directory (os error 2)''"

definition create_dir_all :: "string \<Rightarrow> art_files \<Rightarrow> artifact_error + unit" where
  "create_dir_all d F =
     (case af_dir_fault F d of Some e \<Rightarrow> Inl (ArtIo (''create_dir '' @ to_string_lossy d @ '': '' @ e)) | None \<Rightarrow> Inr ())"

definition write_atomic :: "string \<Rightarrow> string \<Rightarrow> art_files \<Rightarrow> (artifact_error + unit) \<times> art_files" where
  "write_atomic target bytes F =
     (let tmp = target @ ''.tmp'' in
      case af_write_fault F target of
        Some (CreateFails e) \<Rightarrow> (Inl (ArtIo (''create '' @ to_string_lossy tmp @ '': '' @ e)), F)
      | Some (WriteFails e part) \<Rightarrow> (Inl (ArtIo (''write '' @ to_string_lossy tmp @ '': '' @ e)), put_file tmp part F)
      | Some (SyncFails e) \<Rightarrow> (Inl (ArtIo (''sync '' @ to_string_lossy tmp @ '': '' @ e)), put_file tmp bytes F)
      | Some (RenameFails e) \<Rightarrow>
          (Inl (ArtIo (''rename '' @ to_string_lossy tmp @ '' -> '' @ to_string_lossy target @ '': '' @ e)), put_file tmp bytes F)
      | None \<Rightarrow> (Inr (), put_file target bytes (F\<lparr>af_files := omap_remove tmp (af_files F)\<rparr>)))"

section \<open>Storing by content\<close>

definition artifact_file_name :: "string \<Rightarrow> string" where
  "artifact_file_name src =
     (case extension src of
        Some ext \<Rightarrow>
          if ext \<noteq> [] \<and> length ext \<le> 10 \<and> list_all is_ascii_alphanumeric ext then ''artifact.'' @ ext
          else ''artifact''
      | None \<Rightarrow> ''artifact'')"

definition artifact_dir :: "string \<Rightarrow> string \<Rightarrow> string" where
  "artifact_dir root sha = join (join (join root ''03-output/artifacts/by-sha256'') (take 2 sha)) sha"

text \<open>The names in a directory.\<close>

definition dir_names :: "string \<Rightarrow> art_files \<Rightarrow> string list" where
  "dir_names d F =
     filter is_name (List.map_filter (\<lambda>(p, b). strip_prefix p (d @ ''/'')) (af_files F))"

definition reusable_step :: "string \<Rightarrow> string \<Rightarrow> art_files \<Rightarrow> string \<Rightarrow> string list \<Rightarrow> artifact_error + string list" where
  "reusable_step dir bytes F name hits =
     (let path = join dir name in
      if name = ''provenance.json'' \<or> ends_with name ''.tmp'' then Inr hits
      else if \<not> starts_with name ''artifact'' then Inr hits
      else case read_file F path of
             Content existing \<Rightarrow> Inr (if existing = bytes then hits @ [path] else hits)
           | Missing \<Rightarrow> Inl (ArtIo (''read '' @ to_string_lossy path @ '': '' @ NOT_FOUND))
           | Fault e \<Rightarrow> Inl (ArtIo (''read '' @ to_string_lossy path @ '': '' @ e)))"

definition find_reusable_artifact :: "string \<Rightarrow> string \<Rightarrow> art_files \<Rightarrow> artifact_error + string option" where
  "find_reusable_artifact dir bytes F =
     (case af_dir_fault F dir of
        Some e \<Rightarrow> Inl (ArtIo (''read_dir '' @ to_string_lossy dir @ '': '' @ e))
      | None \<Rightarrow>
          bindE (foldE (reusable_step dir bytes F) (dir_names dir F) []) (\<lambda>hits.
          Inr (case sort hits of [] \<Rightarrow> None | h # _ \<Rightarrow> Some h)))"

text \<open>The stored path: the candidate when it holds the bytes, or another file that does, or the candidate written anew.\<close>

definition store_bytes :: "string \<Rightarrow> string \<Rightarrow> string \<Rightarrow> art_files \<Rightarrow> (artifact_error + string) \<times> art_files" where
  "store_bytes dir name bytes F =
     (let candidate = join dir name;
          written = (case write_atomic candidate bytes F of (Inl e, F') \<Rightarrow> (Inl e, F') | (Inr _, F') \<Rightarrow> (Inr candidate, F'))
      in case read_file F candidate of
           Content existing \<Rightarrow> if existing = bytes then (Inr candidate, F) else written
         | Missing \<Rightarrow>
             (case find_reusable_artifact dir bytes F of
                Inl e \<Rightarrow> (Inl e, F)
              | Inr (Some reused) \<Rightarrow> (Inr reused, F)
              | Inr None \<Rightarrow> written)
         | Fault e \<Rightarrow> (Inl (ArtIo (''read '' @ to_string_lossy candidate @ '': '' @ e)), F))"

section \<open>Adding a file\<close>

record art_receipt =
  ar_sha256 :: string
  ar_stored_path :: string
  ar_bytes :: nat

record art_world =
  aw_files :: art_files
  aw_store :: store

text \<open>The clock is read once per operation: \<open>secs\<close>.  \<open>q\<close> is the path of the journal's quarantine.\<close>

definition art_resolve_project ::
  "lib \<Rightarrow> string \<Rightarrow> nat \<Rightarrow> string \<Rightarrow> store \<Rightarrow> (artifact_error + string) \<times> store" where
  "art_resolve_project L q secs input st =
     (case journal_open L q secs st of
        (Inl e, st') \<Rightarrow> (Inl (ArtOpen e), st')
      | (Inr _, st') \<Rightarrow>
          (case read_all L st' of
             Inl e \<Rightarrow> (Inl (ArtRead e), st')
           | Inr events \<Rightarrow>
               (mapErr ArtProject (resolve_project_id (materialize secs (map event_value events) None False) input), st')))"

definition provenance_text :: "lib \<Rightarrow> nat \<Rightarrow> string \<Rightarrow> string \<Rightarrow> string \<Rightarrow> string" where
  "provenance_text L secs src sha bytes =
     x_ser L (jobj [(''source_path'', JStr (to_string_lossy src)), (''sha256'', JStr sha), (''bytes'', jnat (length bytes)),
       (''observed_utc'', JStr (format_utc secs))]) @ [CHR 0x0A]"

definition artifact_id :: "string \<Rightarrow> string" where
  "artifact_id sha = ''artifact:'' @ take 8 sha"

definition artifact_node :: "string \<Rightarrow> string \<Rightarrow> json" where
  "artifact_node sha src =
     jobj [(''id'', JStr (artifact_id sha)), (''type'', JStr (node_name (CustomNode ''artifact''))),
       (''label'', JStr (case file_name src of None \<Rightarrow> ''artifact'' | Some n \<Rightarrow> to_string_lossy n)),
       (''provenance'', JStr ''local file add'')]"

definition artifact_edge :: "string \<Rightarrow> string \<Rightarrow> edge_assert" where
  "artifact_edge sha project = (new_edge_assert (artifact_id sha) BelongsTo project)\<lparr>a_provenance := Some ''local file add''\<rparr>"

text \<open>The journal part: the node, and the edge to the project.\<close>

definition record_artifact ::
  "lib \<Rightarrow> string \<Rightarrow> nat \<Rightarrow> string \<Rightarrow> string \<Rightarrow> string option \<Rightarrow> store \<Rightarrow> (artifact_error + unit) \<times> store" where
  "record_artifact L q secs sha src project st =
     (case journal_open L q secs st of
        (Inl e, st') \<Rightarrow> (Inl (ArtOpen e), st')
      | (Inr _, st') \<Rightarrow>
          (case journal_append L secs ''node.upsert'' (artifact_node sha src) st' of
             (Inl e, st'') \<Rightarrow> (Inl (ArtNode e), st'')
           | (Inr _, st'') \<Rightarrow>
               (case project of
                  None \<Rightarrow> (Inr (), st'')
                | Some p \<Rightarrow>
                    (case append_edge_assert L q secs (artifact_edge sha p) st'' of
                       (Inl e, st3) \<Rightarrow> (Inl (ArtEdge e), st3)
                     | (Inr _, st3) \<Rightarrow> (Inr (), st3)))))"

definition file_artifact ::
  "lib \<Rightarrow> nat \<Rightarrow> string \<Rightarrow> string \<Rightarrow> art_files \<Rightarrow> (artifact_error + art_receipt) \<times> art_files" where
  "file_artifact L secs root src F =
     (case read_file F src of
        Missing \<Rightarrow> (Inl (ArtIo (''read '' @ to_string_lossy src @ '': '' @ NOT_FOUND)), F)
      | Fault e \<Rightarrow> (Inl (ArtIo (''read '' @ to_string_lossy src @ '': '' @ e)), F)
      | Content bytes \<Rightarrow>
          let sha = sha256_hex (x_sha L) bytes; dir = artifact_dir root sha in
          case create_dir_all dir F of
            Inl e \<Rightarrow> (Inl e, F)
          | Inr _ \<Rightarrow>
              (case store_bytes dir (artifact_file_name src) bytes F of
                 (Inl e, F') \<Rightarrow> (Inl e, F')
               | (Inr stored, F') \<Rightarrow>
                   (case write_atomic (join dir ''provenance.json'') (provenance_text L secs src sha bytes) F' of
                      (Inl e, F'') \<Rightarrow> (Inl e, F'')
                    | (Inr _, F'') \<Rightarrow>
                        (Inr \<lparr>ar_sha256 = sha, ar_stored_path = stored, ar_bytes = length bytes\<rparr>, F''))))"

definition add_artifact ::
  "lib \<Rightarrow> string \<Rightarrow> nat \<Rightarrow> string \<Rightarrow> string \<Rightarrow> string option \<Rightarrow> art_world \<Rightarrow> (artifact_error + art_receipt) \<times> art_world" where
  "add_artifact L q secs root src project w =
     (let (resolved, st) = (case project of
            None \<Rightarrow> (Inr None, aw_store w)
          | Some input \<Rightarrow>
              (case art_resolve_project L q secs input (aw_store w) of
                 (Inl e, st) \<Rightarrow> (Inl e, st)
               | (Inr p, st) \<Rightarrow> (Inr (Some p), st)))
      in case resolved of
           Inl e \<Rightarrow> (Inl e, w\<lparr>aw_store := st\<rparr>)
         | Inr p \<Rightarrow>
             (case file_artifact L secs root src (aw_files w) of
                (Inl e, F) \<Rightarrow> (Inl e, w\<lparr>aw_store := st, aw_files := F\<rparr>)
              | (Inr r, F) \<Rightarrow>
                  (case record_artifact L q secs (ar_sha256 r) src p st of
                     (Inl e, st') \<Rightarrow> (Inl e, w\<lparr>aw_store := st', aw_files := F\<rparr>)
                   | (Inr _, st') \<Rightarrow> (Inr r, w\<lparr>aw_store := st', aw_files := F\<rparr>))))"

section \<open>Adding a directory\<close>

text \<open>\<open>pretty\<close> is the indented JSON printer.\<close>

definition add_tree ::
  "lib \<Rightarrow> (tree_manifest \<Rightarrow> string) \<Rightarrow> string \<Rightarrow> nat \<Rightarrow> string \<Rightarrow> string \<Rightarrow> string + (string \<times> tree_node) \<Rightarrow> string \<Rightarrow>
     string option \<Rightarrow> art_world \<Rightarrow> (artifact_error + tree_manifest \<times> art_receipt) \<times> art_world" where
  "add_tree L pretty q secs root src source manifest_path project w =
     (let (resolved, st) = (case project of
            None \<Rightarrow> (Inr [], aw_store w)
          | Some input \<Rightarrow> art_resolve_project L q secs input (aw_store w));
          w1 = w\<lparr>aw_store := st\<rparr>
      in case bindE resolved (\<lambda>_.
              bindE (mapErr ArtIo (inventory_tree L src source)) (\<lambda>manifest.
              if path_starts_with manifest_path src
              then Inl (ArtIo ''tree manifest must be outside the inventoried directory'')
              else bindE (case parent manifest_path of None \<Rightarrow> Inr () | Some d \<Rightarrow> create_dir_all d (aw_files w)) (\<lambda>_.
              Inr manifest))) of
           Inl e \<Rightarrow> (Inl e, w1)
         | Inr manifest \<Rightarrow>
             (case write_atomic manifest_path (pretty manifest @ [CHR 0x0A]) (aw_files w) of
                (Inl e, F) \<Rightarrow> (Inl e, w1\<lparr>aw_files := F\<rparr>)
              | (Inr _, F) \<Rightarrow>
                  (case add_artifact L q secs root manifest_path project (w1\<lparr>aw_files := F\<rparr>) of
                     (Inl e, w2) \<Rightarrow> (Inl e, w2)
                   | (Inr receipt, w2) \<Rightarrow> (Inr (manifest, receipt), w2))))"

section \<open>Paths of the store\<close>

lemma sha_name: "x_sha L b \<noteq> [] \<Longrightarrow> is_name (sha256_hex (x_sha L) b)"
proof -
  assume "x_sha L b \<noteq> []"
  then have "sha256_hex (x_sha L) b \<noteq> []" using sha256_hex_length [of "x_sha L" b] by auto
  moreover have "HEX ! i \<noteq> CHR ''/''" if "i < 16" for i
  proof -
    have "CHR ''/'' \<notin> set HEX" "length HEX = 16" by (simp_all add: HEX_def)
    then show ?thesis using that by (metis nth_mem)
  qed
  then have "CHR ''/'' \<notin> set (sha256_hex (x_sha L) b)"
    using hex_nibbles by (fastforce simp: sha256_hex_def hex_byte_def)
  ultimately show ?thesis by (simp add: is_name_def)
qed

lemma ends_slash: "ends_with s ''/'' \<longleftrightarrow> s \<noteq> [] \<and> last s = CHR ''/''"
  by (cases s rule: rev_cases) (auto simp: ends_with_def)

definition store_root :: "string \<Rightarrow> string" where
  "store_root root = join root ''03-output/artifacts/by-sha256''"

lemma store_root_end: "store_root root \<noteq> []" "\<not> ends_with (store_root root) ''/''"
proof -
  have "store_root root = root @ ''/03-output/artifacts/by-sha256'' \<or> store_root root = root @ ''03-output/artifacts/by-sha256'' \<or>
      store_root root = ''03-output/artifacts/by-sha256''"
    by (simp add: store_root_def join_def)
  then have "store_root root \<noteq> [] \<and> last (store_root root) = CHR ''6''" by (elim disjE) simp_all
  then show "store_root root \<noteq> []" "\<not> ends_with (store_root root) ''/''"
    by (auto simp: ends_slash)
qed

lemma artifact_dir_eq:
  assumes "is_name sha"
  shows "artifact_dir root sha = (store_root root @ ''/'' @ take 2 sha) @ ''/'' @ sha"
    and "\<not> ends_with (artifact_dir root sha) ''/''"
proof -
  have t: "is_name (take 2 sha)" using assms by (auto simp: is_name_def dest: in_set_takeD)
  have last: "\<not> ends_with (d @ ''/'' @ n) ''/''" if "is_name n" for d n
  proof
    assume "ends_with (d @ ''/'' @ n) ''/''"
    then have "last n = CHR ''/''" using that by (simp add: ends_slash is_name_def)
    then show False using that last_in_set unfolding is_name_def by metis
  qed
  show e: "artifact_dir root sha = (store_root root @ ''/'' @ take 2 sha) @ ''/'' @ sha"
    using join_name [OF t store_root_end] join_name [OF assms _ last [OF t]]
    by (simp add: artifact_dir_def store_root_def [symmetric])
  show "\<not> ends_with (artifact_dir root sha) ''/''" unfolding e by (rule last [OF assms])
qed

lemma artifact_path:
  assumes "is_name sha" and "is_name n"
  shows "join (artifact_dir root sha) n = artifact_dir root sha @ ''/'' @ n"
proof -
  have "artifact_dir root sha \<noteq> []" using artifact_dir_eq(1) [OF assms(1)] by simp
  then show ?thesis using join_name [OF assms(2) _ artifact_dir_eq(2) [OF assms(1)]] by simp
qed

lemma artifact_dir_inj: "is_name a \<Longrightarrow> is_name b \<Longrightarrow> artifact_dir root a = artifact_dir root b \<Longrightarrow> a = b"
  by (simp only: artifact_dir_eq slash_split)

lemma is_name_literals [simp]: "is_name ''provenance.json''" "is_name ''artifact''" "is_name (n @ ''.tmp'') = (CHR ''/'' \<notin> set n)"
  by (simp_all add: is_name_def)

lemma alphanumeric_not: "\<not> is_ascii_alphanumeric (CHR ''/'')" "\<not> is_ascii_alphanumeric (CHR ''.'')"
  by code_simp+

lemma file_name_name:
  "is_name (artifact_file_name src)" "starts_with (artifact_file_name src) ''artifact''"
  using alphanumeric_not by (auto simp: artifact_file_name_def is_name_def list_all_iff starts_with_def split: option.splits)

lemma file_name_tmp: "ends_with (artifact_file_name src) ''.tmp'' \<longleftrightarrow> extension src = Some ''tmp''"
proof -
  have "ext = ''tmp''" if "ends_with (''artifact.'' @ ext) ''.tmp''" "list_all is_ascii_alphanumeric ext" for ext
  proof -
    have "\<exists>z. ''artifact.'' @ ext = z @ ''.tmp''" using that(1) by (simp only: ends_with_def suffix_def)
    then obtain z where "''artifact.'' @ ext = z @ ''.tmp''" by (elim exE)
    then have "takeWhile (\<lambda>c. c \<noteq> CHR ''.'') (rev (''artifact.'' @ ext)) = takeWhile (\<lambda>c. c \<noteq> CHR ''.'') (rev (z @ ''.tmp''))"
      by (simp only:)
    moreover have "\<forall>c \<in> set (rev ext). c \<noteq> CHR ''.''" using that(2) alphanumeric_not by (auto simp: list_all_iff)
    then have "takeWhile (\<lambda>c. c \<noteq> CHR ''.'') (rev (''artifact.'' @ ext)) = rev ext"
      unfolding rev_append by (subst takeWhile_append2) simp_all
    ultimately have "rev ext = rev ''tmp''" by simp
    then show ?thesis by simp
  qed
  moreover have "ends_with (''artifact.'' @ ''tmp'') ''.tmp''" "list_all is_ascii_alphanumeric ''tmp''" "\<not> ends_with ''artifact'' ''.tmp''"
    by code_simp+
  ultimately show ?thesis by (auto simp: artifact_file_name_def split: option.splits)
qed

section \<open>Writing files\<close>

lemma put_file_of [simp]: "map_of (af_files (put_file p b F)) = (map_of (af_files F))(p \<mapsto> b)"
  by (simp add: put_file_def)

lemma write_atomic_faults:
  "write_atomic t b F = (r, F') \<Longrightarrow>
   af_read_fault F' = af_read_fault F \<and> af_write_fault F' = af_write_fault F \<and> af_dir_fault F' = af_dir_fault F"
  by (auto simp: write_atomic_def put_file_def Let_def split: option.splits write_fault.splits)

lemma write_atomic_ok: "write_atomic t b F = (Inr u, F') \<Longrightarrow> map_of (af_files F') = (map_of (af_files F))(t @ ''.tmp'' := None, t \<mapsto> b)"
  by (auto simp: write_atomic_def Let_def fun_eq_iff split: option.splits write_fault.splits)

text \<open>A write changes its target and the temporary file next to it, and the target only to the bytes written.\<close>

lemma write_atomic_keeps:
  assumes "write_atomic t b F = (r, F')" and "p \<noteq> t @ ''.tmp''" and "p = t \<Longrightarrow> map_of (af_files F) p = Some b"
  shows "map_of (af_files F') p = map_of (af_files F) p"
  using assms by (auto simp: write_atomic_def Let_def split: option.splits write_fault.splits if_splits)

lemma read_file_Content: "read_file F p = Content b \<Longrightarrow> map_of (af_files F) p = Some b"
  by (auto simp: read_file_def split: option.splits)

lemma dir_names_iff: "n \<in> set (dir_names d F) \<longleftrightarrow> is_name n \<and> map_of (af_files F) (d @ ''/'' @ n) \<noteq> None"
proof -
  have "strip_prefix p (d @ ''/'') = Some n \<longleftrightarrow> p = d @ ''/'' @ n" for p
    by (auto simp: strip_prefix_def prefix_def)
  then have "n \<in> set (List.map_filter (\<lambda>(p, b). strip_prefix p (d @ ''/'')) fs) \<longleftrightarrow> d @ ''/'' @ n \<in> fst ` set fs" for fs
  proof (induction fs)
    case (Cons x fs)
    then show ?case
      using Cons.prems [of "fst x"] by (cases "strip_prefix (fst x) (d @ ''/'')") (auto simp: map_filter_simps split_beta)
  qed (simp add: map_filter_simps)
  then show ?thesis by (auto simp: dir_names_def map_of_eq_None_iff)
qed

lemma reusable_hits:
  "foldE (reusable_step d b F) ns hits = Inr hits' \<Longrightarrow> h \<in> set hits' \<Longrightarrow> h \<notin> set hits \<Longrightarrow>
   \<exists>n \<in> set ns. h = join d n \<and> starts_with n ''artifact'' \<and> \<not> ends_with n ''.tmp'' \<and> map_of (af_files F) h = Some b"
proof (induction ns arbitrary: hits)
  case (Cons n ns)
  then obtain hits1 where s: "reusable_step d b F n hits = Inr hits1" and r: "foldE (reusable_step d b F) ns hits1 = Inr hits'"
    by auto
  show ?case
  proof (cases "h \<in> set hits1")
    case True
    then show ?thesis using s Cons.prems(3)
      by (auto simp: reusable_step_def Let_def dest: read_file_Content split: if_splits file_read.splits)
  next
    case False
    then show ?thesis using Cons.IH [OF r Cons.prems(2)] by auto
  qed
qed simp

lemma find_reusable_Some:
  assumes "find_reusable_artifact d b F = Inr (Some p)"
  obtains n where "p = join d n" "is_name n" "starts_with n ''artifact''" "\<not> ends_with n ''.tmp''" "map_of (af_files F) p = Some b"
proof -
  from assms obtain hits where h: "foldE (reusable_step d b F) (dir_names d F) [] = Inr hits"
      and "(case sort hits of [] \<Rightarrow> None | h # _ \<Rightarrow> Some h) = Some p"
    by (auto simp: find_reusable_artifact_def split: option.splits)
  then have "p \<in> set hits" by (metis list.case(2) list.exhaust list.set_intros(1) option.distinct(1) option.inject set_sort list.simps(4))
  with reusable_hits [OF h, of p] obtain n where "n \<in> set (dir_names d F)" "p = join d n" "starts_with n ''artifact''"
    "\<not> ends_with n ''.tmp''" "map_of (af_files F) p = Some b" by auto
  with that show thesis by (auto simp: dir_names_iff)
qed

section \<open>What an addition does to the files\<close>

lemma store_bytes_cases:
  assumes "store_bytes d n b F = (r, F')"
  obtains "F' = F" "\<exists>e. r = Inl e"
    | "F' = F" "r = Inr (join d n)" "read_file F (join d n) = Content b"
    | p where "F' = F" "r = Inr p" "find_reusable_artifact d b F = Inr (Some p)"
    | e where "write_atomic (join d n) b F = (Inl e, F')" "r = Inl e"
    | "write_atomic (join d n) b F = (Inr (), F')" "r = Inr (join d n)"
proof -
  obtain r' Fw where w: "write_atomic (join d n) b F = (r', Fw)" by (cases "write_atomic (join d n) b F")
  define written where "written = (case r' of Inl e \<Rightarrow> (Inl e, Fw) | Inr _ \<Rightarrow> (Inr (join d n), Fw))"
  have sb: "store_bytes d n b F =
      (case read_file F (join d n) of
         Content existing \<Rightarrow> if existing = b then (Inr (join d n), F) else written
       | Missing \<Rightarrow> (case find_reusable_artifact d b F of
            Inl e \<Rightarrow> (Inl e, F) | Inr None \<Rightarrow> written | Inr (Some reused) \<Rightarrow> (Inr reused, F))
       | Fault e \<Rightarrow> (Inl (ArtIo (''read '' @ to_string_lossy (join d n) @ '': '' @ e)), F))"
    unfolding store_bytes_def Let_def w written_def
    by (cases r'; cases "read_file F (join d n)"; simp split: sum.split option.split)
  have wr: thesis if "written = (r, F')"
    using that that(1) w \<open>\<And>e. write_atomic (join d n) b F = (Inl e, F') \<Longrightarrow> r = Inl e \<Longrightarrow> thesis\<close>
      \<open>write_atomic (join d n) b F = (Inr (), F') \<Longrightarrow> r = Inr (join d n) \<Longrightarrow> thesis\<close>
    by (cases r') (simp_all add: written_def)
  show thesis
  proof (cases "read_file F (join d n)")
    case Missing
    show ?thesis
    proof (cases "find_reusable_artifact d b F")
      case (Inl e)
      then show ?thesis using assms that(1) by (auto simp: sb Missing)
    next
      case (Inr o')
      then show ?thesis using assms that(3) wr by (cases o') (auto simp: sb Missing)
    qed
  next
    case (Fault e)
    then show ?thesis using assms that(1) by (auto simp: sb)
  next
    case (Content c)
    then show ?thesis using assms that(2) wr by (cases "c = b") (simp_all add: sb)
  qed
qed

lemma store_bytes_writes:
  "store_bytes d n b F = (r, F') \<Longrightarrow> F' = F \<or> (\<exists>r'. write_atomic (join d n) b F = (r', F'))"
  by (elim store_bytes_cases) blast+

lemma store_bytes_ok:
  assumes "store_bytes d n b F = (Inr p, F')" and "is_name n" and "starts_with n ''artifact''"
  obtains m where "p = join d m" "is_name m" "starts_with m ''artifact''" "ends_with m ''.tmp'' \<longrightarrow> m = n"
    "map_of (af_files F') p = Some b"
  using assms(1)
proof (cases rule: store_bytes_cases)
  case 2
  then show ?thesis using that assms(2,3) read_file_Content by simp
next
  case (3 p')
  then show ?thesis using find_reusable_Some [OF 3(3)] that by (metis Inr_inject)
next
  case 5
  then show ?thesis using that assms(2,3) write_atomic_ok [OF 5(1)] by simp
qed auto

text \<open>The two writes of an addition: the file in the directory of its digest, and its provenance.\<close>

lemma file_artifact_writes:
  assumes "file_artifact L secs root src F = (r, F')"
  shows "F' = F \<or>
    (\<exists>b F1 r1 r2. read_file F src = Content b \<and>
       (F1 = F \<or> write_atomic (join (artifact_dir root (sha256_hex (x_sha L) b)) (artifact_file_name src)) b F = (r1, F1)) \<and>
       (F' = F1 \<or> write_atomic (join (artifact_dir root (sha256_hex (x_sha L) b)) ''provenance.json'')
          (provenance_text L secs src (sha256_hex (x_sha L) b) b) F1 = (r2, F')))"
proof (cases "read_file F src")
  case (Content b)
  let ?d = "artifact_dir root (sha256_hex (x_sha L) b)"
  obtain r1 F1 where s: "store_bytes ?d (artifact_file_name src) b F = (r1, F1)" by (cases "store_bytes ?d (artifact_file_name src) b F")
  obtain r2 F2 where p: "write_atomic (join ?d ''provenance.json'') (provenance_text L secs src (sha256_hex (x_sha L) b) b) F1 = (r2, F2)"
    by (cases "write_atomic (join ?d ''provenance.json'') (provenance_text L secs src (sha256_hex (x_sha L) b) b) F1")
  have "F' = F \<or> F' = F1 \<or> F' = F2"
    using assms by (auto simp: file_artifact_def Content Let_def s p split: sum.splits)
  then show ?thesis using store_bytes_writes [OF s] p Content by blast
qed (use assms in \<open>auto simp: file_artifact_def\<close>)

lemma file_artifact_ok:
  assumes "file_artifact L secs root src F = (Inr r, F')"
  obtains b F1 where "read_file F src = Content b"
    "store_bytes (artifact_dir root (sha256_hex (x_sha L) b)) (artifact_file_name src) b F = (Inr (ar_stored_path r), F1)"
    "write_atomic (join (artifact_dir root (sha256_hex (x_sha L) b)) ''provenance.json'')
       (provenance_text L secs src (sha256_hex (x_sha L) b) b) F1 = (Inr (), F')"
    "ar_sha256 r = sha256_hex (x_sha L) b" "ar_bytes r = length b"
proof (cases "read_file F src")
  case (Content b)
  let ?d = "artifact_dir root (sha256_hex (x_sha L) b)"
  obtain r1 F1 where s: "store_bytes ?d (artifact_file_name src) b F = (r1, F1)" by (cases "store_bytes ?d (artifact_file_name src) b F")
  obtain r2 F2 where p: "write_atomic (join ?d ''provenance.json'') (provenance_text L secs src (sha256_hex (x_sha L) b) b) F1 = (r2, F2)"
    by (cases "write_atomic (join ?d ''provenance.json'') (provenance_text L secs src (sha256_hex (x_sha L) b) b) F1")
  show thesis
    using assms that [OF Content]
    by (auto simp: file_artifact_def Content Let_def s p split: sum.splits)
qed (use assms in \<open>auto simp: file_artifact_def\<close>)

text \<open>A digest is not empty, and no other content has the digest of \<open>b\<close>.\<close>

definition digest_ok :: "lib \<Rightarrow> string \<Rightarrow> bool" where
  "digest_ok L b \<longleftrightarrow> (\<forall>c. x_sha L c \<noteq> [] \<and> (x_sha L c = x_sha L b \<longrightarrow> c = b))"

text \<open>A stored file: a name that an addition gives, and that no temporary file has.\<close>

definition stored_at :: "lib \<Rightarrow> string \<Rightarrow> string \<Rightarrow> string \<Rightarrow> art_files \<Rightarrow> bool" where
  "stored_at L root b p F \<longleftrightarrow>
     (\<exists>n. p = artifact_dir root (sha256_hex (x_sha L) b) @ ''/'' @ n \<and> is_name n \<and> starts_with n ''artifact'' \<and>
        \<not> ends_with n ''.tmp'') \<and> map_of (af_files F) p = Some b"

lemma write_keeps_stored:
  assumes "stored_at L root b p F" and "digest_ok L b"
    and "write_atomic (join (artifact_dir root (sha256_hex (x_sha L) c)) n) t F = (r, F')"
    and "is_name n" and "n = ''provenance.json'' \<or> t = c"
  shows "stored_at L root b p F'"
proof -
  let ?sha = "\<lambda>b. sha256_hex (x_sha L) b"
  obtain m where m: "p = artifact_dir root (?sha b) @ ''/'' @ m" "is_name m" "starts_with m ''artifact''" "\<not> ends_with m ''.tmp''"
    and old: "map_of (af_files F) p = Some b"
    using assms(1) by (auto simp: stored_at_def)
  have sha: "is_name (?sha x)" for x using assms(2) by (intro sha_name) (simp add: digest_ok_def)
  have path: "join (artifact_dir root (?sha c)) n = artifact_dir root (?sha c) @ ''/'' @ n"
    by (rule artifact_path [OF sha assms(4)])
  have n2: "is_name (n @ ''.tmp'')" using assms(4) by (simp add: is_name_def)
  have "p \<noteq> join (artifact_dir root (?sha c)) n @ ''.tmp''"
  proof
    assume "p = join (artifact_dir root (?sha c)) n @ ''.tmp''"
    then have "artifact_dir root (?sha b) @ ''/'' @ m = artifact_dir root (?sha c) @ ''/'' @ (n @ ''.tmp'')"
      unfolding path m(1) by simp
    then have "m = n @ ''.tmp''" by (simp only: slash_split [OF m(2) n2])
    then show False using m(4) by (auto simp: ends_with_def suffix_def)
  qed
  moreover have "map_of (af_files F) p = Some t" if "p = join (artifact_dir root (?sha c)) n"
  proof -
    from that have "artifact_dir root (?sha b) @ ''/'' @ m = artifact_dir root (?sha c) @ ''/'' @ n"
      unfolding path m(1) .
    then have d: "artifact_dir root (?sha b) = artifact_dir root (?sha c)" and "m = n"
      by (simp_all only: slash_split [OF m(2) assms(4)])
    from \<open>m = n\<close> m(3) have "n \<noteq> ''provenance.json''" by (auto simp: starts_with_def)
    moreover have "x_sha L c = x_sha L b" using artifact_dir_inj [OF sha sha d] sha256_hex_inj by metis
    then have "c = b" using assms(2) by (auto simp: digest_ok_def)
    ultimately show ?thesis using assms(5) old by simp
  qed
  ultimately have "map_of (af_files F') p = Some b" using write_atomic_keeps [OF assms(3)] old by simp
  then show ?thesis using m unfolding stored_at_def by blast
qed

lemma file_artifact_keeps_stored:
  assumes "stored_at L root b p F" and "digest_ok L b" and "file_artifact L secs root src F = (r, F')"
  shows "stored_at L root b p F'"
  using file_artifact_writes [OF assms(3)]
proof
  assume "\<exists>c F1 r1 r2. read_file F src = Content c \<and>
       (F1 = F \<or> write_atomic (join (artifact_dir root (sha256_hex (x_sha L) c)) (artifact_file_name src)) c F = (r1, F1)) \<and>
       (F' = F1 \<or> write_atomic (join (artifact_dir root (sha256_hex (x_sha L) c)) ''provenance.json'')
          (provenance_text L secs src (sha256_hex (x_sha L) c) c) F1 = (r2, F'))"
  then obtain c F1 r1 r2 where
    1: "F1 = F \<or> write_atomic (join (artifact_dir root (sha256_hex (x_sha L) c)) (artifact_file_name src)) c F = (r1, F1)" and
    2: "F' = F1 \<or> write_atomic (join (artifact_dir root (sha256_hex (x_sha L) c)) ''provenance.json'')
          (provenance_text L secs src (sha256_hex (x_sha L) c) c) F1 = (r2, F')" by blast
  have "stored_at L root b p F1" using 1 write_keeps_stored [OF assms(1,2) _ file_name_name(1)] assms(1) by blast
  then show ?thesis using 2 write_keeps_stored [OF _ assms(2) _ is_name_literals(1)] by blast
qed (use assms in simp)

lemma file_artifact_stores:
  assumes "file_artifact L secs root src F = (Inr r, F')" and "extension src \<noteq> Some ''tmp''" and "read_file F src = Content b"
    and "digest_ok L b"
  shows "stored_at L root b (ar_stored_path r) F' \<and> ar_sha256 r = sha256_hex (x_sha L) b \<and> ar_bytes r = length b"
proof -
  obtain F1 where s: "store_bytes (artifact_dir root (sha256_hex (x_sha L) b)) (artifact_file_name src) b F = (Inr (ar_stored_path r), F1)"
    and p: "write_atomic (join (artifact_dir root (sha256_hex (x_sha L) b)) ''provenance.json'')
       (provenance_text L secs src (sha256_hex (x_sha L) b) b) F1 = (Inr (), F')"
    and r: "ar_sha256 r = sha256_hex (x_sha L) b" "ar_bytes r = length b"
    using file_artifact_ok [OF assms(1)] assms(3) by (metis file_read.inject(2))
  have "is_name (sha256_hex (x_sha L) b)" using assms(4) by (intro sha_name) (simp add: digest_ok_def)
  then have "stored_at L root b (ar_stored_path r) F1"
    using store_bytes_ok [OF s file_name_name] file_name_tmp [of src] assms(2) artifact_path
    unfolding stored_at_def by metis
  then show ?thesis using write_keeps_stored [OF _ assms(4) p is_name_literals(1)] r by blast
qed

section \<open>Receipts\<close>

lemma add_artifact_files:
  assumes "add_artifact L q secs root src project w = (r, w')"
  shows "aw_files w' = aw_files w \<or> (\<exists>r'. file_artifact L secs root src (aw_files w) = (r', aw_files w'))"
  using assms by (auto simp: add_artifact_def split: option.splits prod.splits sum.splits)

lemma add_artifact_ok:
  assumes "add_artifact L q secs root src project w = (Inr r, w')"
  shows "file_artifact L secs root src (aw_files w) = (Inr r, aw_files w')"
  using assms by (auto simp: add_artifact_def split: option.splits prod.splits sum.splits)

text \<open>What may happen after an addition: further additions, which succeed or fail, and changes that leave the
  files of the store alone.\<close>

inductive art_steps :: "lib \<Rightarrow> string \<Rightarrow> art_world \<Rightarrow> art_world \<Rightarrow> bool" for L root where
  start: "art_steps L root w w"
| again: "art_steps L root w w1 \<Longrightarrow> add_artifact L q secs root src project w1 = (r, w2) \<Longrightarrow> art_steps L root w w2"
| elsewhere: "art_steps L root w w1 \<Longrightarrow>
    (\<And>p. prefix (store_root root) p \<Longrightarrow> map_of (af_files (aw_files w2)) p = map_of (af_files (aw_files w1)) p) \<Longrightarrow>
    art_steps L root w w2"

lemma steps_keep_stored:
  "art_steps L root w w' \<Longrightarrow> stored_at L root b p (aw_files w) \<Longrightarrow> digest_ok L b \<Longrightarrow> stored_at L root b p (aw_files w')"
proof (induction rule: art_steps.induct)
  case (again w w1 q secs src project r w2)
  then show ?case using add_artifact_files [OF again(2)] file_artifact_keeps_stored by metis
next
  case (elsewhere w w1 w2)
  have "is_name (sha256_hex (x_sha L) b)" using elsewhere.prems(2) by (intro sha_name) (simp add: digest_ok_def)
  then have "prefix (store_root root) p"
    using elsewhere.IH elsewhere.prems artifact_dir_eq(1) by (auto simp: stored_at_def)
  then show ?case using elsewhere by (simp add: stored_at_def)
qed simp

text \<open>C23. A receipt stays good: when a file was added whose name does not end in \<open>.tmp\<close>, then after any further
  additions, also ones that fail half way, the path of the receipt still holds the bytes of the file.\<close>

theorem receipt_stays_good:
  assumes "add_artifact L q secs root src project w = (Inr r, w1)" and "read_file (aw_files w) src = Content b"
    and "extension src \<noteq> Some ''tmp''" and "digest_ok L b" and "art_steps L root w1 w2"
  shows "map_of (af_files (aw_files w2)) (ar_stored_path r) = Some b \<and>
    ar_sha256 r = sha256_hex (x_sha L) b \<and> ar_bytes r = length b"
  using file_artifact_stores [OF add_artifact_ok [OF assms(1)] assms(3,2,4)] steps_keep_stored [OF assms(5) _ assms(4)]
  by (auto simp: stored_at_def)

text \<open>C39. A file whose name ends in \<open>.tmp\<close> is stored under a name that the program takes for a temporary file.
  When the same bytes are added again from a file without an extension, the stored file is not reused but
  overwritten as the temporary file of the new one and renamed away: the path of the first receipt is gone.\<close>

theorem tmp_artifact_is_lost:
  assumes "add_artifact L q secs root src project w = (Inr r, w1)" and "read_file (aw_files w) src = Content b"
    and "extension src = Some ''tmp''" and "dir_names (artifact_dir root (sha256_hex (x_sha L) b)) (aw_files w) = []"
    and "add_artifact L q' secs' root src' project' w1 = (Inr r', w2)" and "read_file (aw_files w1) src' = Content b"
    and "artifact_file_name src' = ''artifact''" and "x_sha L b \<noteq> []"
  shows "map_of (af_files (aw_files w1)) (ar_stored_path r) = Some b \<and> ar_sha256 r' = ar_sha256 r \<and>
    map_of (af_files (aw_files w2)) (ar_stored_path r) = None"
proof -
  let ?d = "artifact_dir root (sha256_hex (x_sha L) b)" and ?prov = "''provenance.json''"
  note path = artifact_path [OF sha_name [OF assms(8)]]
  have n1: "artifact_file_name src = ''artifact.tmp''"
    using assms(3) by (simp add: artifact_file_name_def is_ascii_alphanumeric_def is_ascii_digit_def byte_def)
  have tmp: "is_name ''artifact.tmp''" "is_name (?prov @ ''.tmp'')" "is_name ''artifact.tmp.tmp''" by (simp_all add: is_name_def)
  have used: "\<not> (is_name n \<and> map_of (af_files (aw_files w)) (?d @ ''/'' @ n) \<noteq> None)" for n
    using dir_names_iff [of n ?d "aw_files w"] assms(4) by simp
  obtain F1 where s1: "store_bytes ?d ''artifact.tmp'' b (aw_files w) = (Inr (ar_stored_path r), F1)"
    and p1: "write_atomic (join ?d ?prov) (provenance_text L secs src (sha256_hex (x_sha L) b) b) F1 = (Inr (), aw_files w1)"
    and r1: "ar_sha256 r = sha256_hex (x_sha L) b"
    using file_artifact_ok [OF add_artifact_ok [OF assms(1)]] assms(2) n1 by (metis file_read.inject(2))
  have F1: "ar_stored_path r = ?d @ ''/artifact.tmp'' \<and>
      map_of (af_files F1) = (map_of (af_files (aw_files w)))(?d @ ''/artifact.tmp.tmp'' := None, ?d @ ''/artifact.tmp'' \<mapsto> b)"
    using s1
  proof (cases rule: store_bytes_cases)
    case 2
    then show ?thesis using used [of "''artifact.tmp''"] tmp read_file_Content by (simp add: path)
  next
    case (3 p)
    then show ?thesis using find_reusable_Some [OF 3(3)] used path by (metis option.distinct(1))
  next
    case 5
    then show ?thesis using write_atomic_ok [OF 5(1)] path [OF tmp(1)] by simp
  qed simp_all
  note W1 = write_atomic_ok [OF p1, unfolded path [OF is_name_literals(1)]]
  have in1: "n = ''artifact.tmp'' \<or> n = ?prov" if "is_name n" "map_of (af_files (aw_files w1)) (?d @ ''/'' @ n) \<noteq> None" for n
    using that used [of n] F1 by (auto simp: W1 split: if_splits)
  obtain F2 where s2: "store_bytes ?d ''artifact'' b (aw_files w1) = (Inr (ar_stored_path r'), F2)"
    and p2: "write_atomic (join ?d ?prov) (provenance_text L secs' src' (sha256_hex (x_sha L) b) b) F2 = (Inr (), aw_files w2)"
    and r2: "ar_sha256 r' = sha256_hex (x_sha L) b"
    using file_artifact_ok [OF add_artifact_ok [OF assms(5)]] assms(6,7) by (metis file_read.inject(2))
  have F2: "map_of (af_files F2) = (map_of (af_files (aw_files w1)))(?d @ ''/artifact.tmp'' := None, ?d @ ''/artifact'' \<mapsto> b)"
    using s2
  proof (cases rule: store_bytes_cases)
    case 2
    then show ?thesis using in1 [of "''artifact''"] read_file_Content by (simp add: path)
  next
    case (3 p)
    from find_reusable_Some [OF 3(3)] obtain n where n: "p = join ?d n" "is_name n" "starts_with n ''artifact''"
      "\<not> ends_with n ''.tmp''" "map_of (af_files (aw_files w1)) p = Some b" by metis
    then have "n = ''artifact.tmp'' \<or> n = ?prov" using in1 [of n] path by simp
    moreover have "ends_with ''artifact.tmp'' ''.tmp''" "\<not> starts_with ?prov ''artifact''" by code_simp+
    ultimately show ?thesis using n(3,4) by blast
  next
    case 5
    then show ?thesis using write_atomic_ok [OF 5(1)] path [of "''artifact''"] by simp
  qed simp_all
  note W2 = write_atomic_ok [OF p2, unfolded path [OF is_name_literals(1)]]
  show ?thesis using F1 F2 r1 r2 by (simp add: W1 W2)
qed

section \<open>What an addition records\<close>

definition faultless :: "art_files \<Rightarrow> bool" where
  "faultless F \<longleftrightarrow> af_read_fault F = Map.empty \<and> af_write_fault F = Map.empty \<and> af_dir_fault F = Map.empty"

lemma faultless_writes:
  "faultless F \<Longrightarrow> \<exists>F'. write_atomic t b F = (Inr (), F') \<and> faultless F'"
  by (simp add: faultless_def write_atomic_def Let_def put_file_def)

lemma faultless_reuse:
  assumes "faultless F" and "is_name sha"
  shows "\<exists>p. find_reusable_artifact (artifact_dir root sha) b F = Inr p"
proof -
  let ?d = "artifact_dir root sha"
  have "\<exists>hits'. foldE (reusable_step ?d b F) ns hits = Inr hits'" if "set ns \<subseteq> set (dir_names ?d F)" for ns hits
    using that
  proof (induction ns arbitrary: hits)
    case (Cons n ns)
    then have n: "is_name n" "map_of (af_files F) (?d @ ''/'' @ n) \<noteq> None" by (simp_all add: dir_names_iff)
    then have "read_file F (join ?d n) \<noteq> Missing" "\<forall>e. read_file F (join ?d n) \<noteq> Fault e"
      using assms by (auto simp: read_file_def faultless_def artifact_path)
    then have "\<exists>hits1. reusable_step ?d b F n hits = Inr hits1"
      by (cases "read_file F (join ?d n)") (auto simp: reusable_step_def Let_def)
    then show ?case using Cons by auto
  qed simp
  then show ?thesis using assms(1) by (fastforce simp: find_reusable_artifact_def faultless_def)
qed

lemma faultless_file_artifact:
  assumes "faultless F" and "map_of (af_files F) src = Some b" and "x_sha L b \<noteq> []"
  shows "\<exists>r F'. file_artifact L secs root src F = (Inr r, F') \<and> map_of (af_files F') (ar_stored_path r) = Some b \<and>
    ar_sha256 r = sha256_hex (x_sha L) b \<and> ar_bytes r = length b"
proof -
  let ?sha = "sha256_hex (x_sha L) b"
  let ?d = "artifact_dir root ?sha"
  have read: "read_file F p \<noteq> Fault e" "read_file F src = Content b" for p e
    using assms by (auto simp: read_file_def faultless_def split: option.splits)
  obtain s F1 where sb: "store_bytes ?d (artifact_file_name src) b F = (s, F1)" by (cases "store_bytes ?d (artifact_file_name src) b F")
  obtain reuse where u: "find_reusable_artifact ?d b F = Inr reuse"
    using faultless_reuse [OF assms(1) sha_name [of L b, OF assms(3)]] by blast
  obtain F2 where w: "write_atomic (join ?d (artifact_file_name src)) b F = (Inr (), F2)" "faultless F2"
    using faultless_writes [OF assms(1)] by blast
  have "\<exists>p. s = Inr p \<and> faultless F1"
    using sb read(1) assms(1) w(2)
    by (auto simp: store_bytes_def w(1) u Let_def split: file_read.splits option.splits if_splits)
  then obtain p where p: "s = Inr p" "faultless F1" by blast
  obtain m where m: "p = join ?d m" "is_name m" "starts_with m ''artifact''" "map_of (af_files F1) p = Some b"
    using store_bytes_ok [OF sb [unfolded p] file_name_name] by metis
  obtain F3 where w3: "write_atomic (join ?d ''provenance.json'') (provenance_text L secs src ?sha b) F1 = (Inr (), F3)"
    using faultless_writes [OF p(2)] by blast
  note path = artifact_path [OF sha_name [of L b, OF assms(3)]]
  have "\<not> starts_with ''provenance.json'' ''artifact''" "\<not> starts_with (''provenance.json'' @ ''.tmp'') ''artifact''" by code_simp+
  then have "m \<noteq> ''provenance.json''" "m \<noteq> ''provenance.json'' @ ''.tmp''" using m(3) by blast+
  then have "map_of (af_files F3) p = Some b"
    using write_atomic_ok [OF w3] m(4) by (simp add: m(1) path [OF m(2)] path [OF is_name_literals(1)])
  then have "file_artifact L secs root src F = (Inr \<lparr>ar_sha256 = ?sha, ar_stored_path = p, ar_bytes = length b\<rparr>, F3) \<and>
      map_of (af_files F3) p = Some b"
    using assms(1) by (simp add: file_artifact_def read Let_def create_dir_all_def faultless_def sb p w3)
  then show ?thesis by fastforce
qed

text \<open>The journal: the node, then the edge, if the project can be the end of one.\<close>

definition project_target :: "journal_entry list \<Rightarrow> string option \<Rightarrow> string + string option" where
  "project_target es project =
     (case project of
        None \<Rightarrow> Inr None
      | Some input \<Rightarrow> bindE (resolve_project_id (graph_of es) input) (\<lambda>p. Inr (Some p)))"

lemma resolve_nodes: "nodes h = nodes k \<Longrightarrow> resolve_project_id h input = resolve_project_id k input"
  by (simp add: resolve_project_id_def)

lemma target_Some: "resolve_project_id (graph_of es) input = Inr p \<Longrightarrow> project_target es (Some input) = Inr (Some p)"
  by (simp add: project_target_def)

definition linkable :: "string \<Rightarrow> string option \<Rightarrow> bool" where
  "linkable sha target = (case target of None \<Rightarrow> True | Some p \<Rightarrow> \<not> is_uri_shape p \<and> p \<noteq> artifact_id sha)"

definition node_entry :: "lib \<Rightarrow> nat \<Rightarrow> string \<Rightarrow> string \<Rightarrow> journal_entry" where
  "node_entry L secs sha src = new_entry L secs ''node.upsert'' (artifact_node sha src)"

definition added_entries :: "lib \<Rightarrow> nat \<Rightarrow> string \<Rightarrow> string \<Rightarrow> string option \<Rightarrow> journal_entry list" where
  "added_entries L secs sha src target =
     node_entry L secs sha src #
     (case target of Some p \<Rightarrow> if linkable sha target then [edge_entry L secs (artifact_edge sha p)] else [] | None \<Rightarrow> [])"

lemma artifact_node_fields:
  "map_of (obj_of [(''id'', JStr i), (''type'', JStr t), (''label'', l), (''provenance'', v)]) ''id'' = Some (JStr i)"
  "map_of (rev (obj_of [(''id'', JStr i), (''type'', JStr t), (''label'', l), (''provenance'', v)])) ''type'' = Some (JStr t)"
  by (simp_all add: obj_of_map_of) (simp add: obj_of_def less_char_def)

lemma graph_nodes_objects: "map_of (nodes (graph_of es)) i = Some n \<Longrightarrow> is_object n"
  by (auto simp: node_history split: if_splits)

lemma nodes_after:
  "\<exists>m. map_of (nodes (graph_of (es @ [node_entry L secs sha src]))) nid =
     (if nid = artifact_id sha then Some (JObj m) else map_of (nodes (graph_of es)) nid) \<and>
     map_of m ''type'' = Some (JStr ''artifact'')"
proof -
  define pl where "pl = obj_of [(''id'', JStr (artifact_id sha)), (''type'', JStr ''artifact''),
    (''label'', JStr (case file_name src of None \<Rightarrow> ''artifact'' | Some n \<Rightarrow> to_string_lossy n)), (''provenance'', JStr ''local file add'')]"
  have pl: "map_of pl ''id'' = Some (JStr (artifact_id sha))" "map_of (rev pl) ''type'' = Some (JStr ''artifact'')"
    unfolding pl_def by (rule artifact_node_fields)+
  have "event_parts (event_value (node_entry L secs sha src)) = Some (''node.upsert'', pl, Some (format_utc secs))"
    by (simp add: event_value_parts node_entry_def new_entry_def artifact_node_def pl_def)
  then have "nodes (graph_of (es @ [node_entry L secs sha src])) = upsert_node pl (Some (format_utc secs)) (nodes (graph_of es))"
    by (simp add: apply_event_def)
  then have l: "map_of (nodes (graph_of (es @ [node_entry L secs sha src]))) nid =
    map_of (upsert_node pl (Some (format_utc secs)) (nodes (graph_of es))) nid" by simp
  have u: "map_of (upsert_node pl (Some (format_utc secs)) (nodes (graph_of es))) nid =
      (if nid = artifact_id sha then Some (JObj (merge_upsert (pl, Some (format_utc secs))
         (case map_of (nodes (graph_of es)) nid of Some (JObj s) \<Rightarrow> s | _ \<Rightarrow> obj_of [(''id'', JStr nid)])))
       else map_of (nodes (graph_of es)) nid)"
    by (subst upsert_node_lookup) (auto simp: pl dest: graph_nodes_objects)
  show ?thesis
  proof (cases "nid = artifact_id sha")
    case True
    then show ?thesis unfolding l u by (simp add: pl merge_upsert_other map_add_def)
  next
    case False
    then show ?thesis unfolding l u using exI [of "\<lambda>m. map_of m ''type'' = Some (JStr ''artifact'')", OF pl(2)] by simp
  qed
qed

lemma kind_project: "is_project node \<Longrightarrow> node_kind node = Project"
  by (auto simp: is_project_def node_kind_def jget_str_def jidx_def node_of_str_def eq_ignore_ascii_case_def
      to_ascii_lowercase_def Let_def lower_char_def byte_def split: option.splits)

lemma strict_artifact:
  assumes "map_of (nodes (graph_of es)) p = Some node" and "is_project node"
  shows "strict_decision (graph_of (es @ [node_entry L secs sha src])) (artifact_id sha) BelongsTo p (Some ''local file add'') = Inr ()
    \<longleftrightarrow> linkable sha (Some p)"
proof -
  define g where "g = graph_of (es @ [node_entry L secs sha src])"
  have a: "node_of_str ''artifact'' = Artifact"
    by (simp add: node_of_str_def to_ascii_lowercase_def lower_char_def byte_def char_of_def bit_Suc bit_0 Let_def)
  obtain m where m: "map_of (nodes g) (artifact_id sha) = Some (JObj m)" "map_of m ''type'' = Some (JStr ''artifact'')"
    using nodes_after [of es L secs sha src "artifact_id sha"] unfolding g_def by auto
  then have from_ty: "resolve_from g (artifact_id sha) = Some Artifact"
    by (simp add: resolve_from_def node_kind_def jget_str_def a)
  have "strict_decision g (artifact_id sha) BelongsTo p (Some ''local file add'') = Inr () \<longleftrightarrow> linkable sha (Some p)"
  proof (cases "p = artifact_id sha")
    case True
    then have "resolve_to g p = Some (Uri p) \<or> resolve_to g p = Some (Node Artifact)"
      using m by (simp add: resolve_to_def node_kind_def jget_str_def a)
    then show ?thesis using True
      by (auto simp: strict_decision_def from_ty linkable_def validate_edge_Inr custom_party_def in_table_def node_rows_def)
  next
    case False
    then have "map_of (nodes g) p = Some node" using nodes_after [of es L secs sha src p] assms(1) unfolding g_def by auto
    then have "resolve_to g p = Some (if is_uri_shape p then Uri p else Node Project)"
      using kind_project [OF assms(2)] by (simp add: resolve_to_def)
    then show ?thesis using False
      by (auto simp: strict_decision_def from_ty linkable_def validate_edge_Inr custom_party_def in_table_def node_rows_def)
  qed
  then show ?thesis by (simp only: g_def)
qed

lemma record_artifact_journal:
  assumes "journal_is L es st" and "list_all (reads_back L) (added_entries L secs sha src target)"
    and "\<And>p. target = Some p \<Longrightarrow> \<exists>node. map_of (nodes (graph_of es)) p = Some node \<and> is_project node"
  shows "\<exists>r st'. record_artifact L q secs sha src target st = (r, st') \<and> journal_is L (es @ added_entries L secs sha src target) st' \<and>
    (r = Inr () \<longleftrightarrow> linkable sha target)"
proof -
  let ?n = "node_entry L secs sha src"
  have v: "validate ''node.upsert'' (artifact_node sha src) = Inr ()"
    by (simp add: validate_iff acceptable_def required_fields_def artifact_node_def jget_str_def artifact_node_fields)
  obtain i st1 where a: "journal_append L secs ''node.upsert'' (artifact_node sha src) st = (Inr i, st1)"
    using append_ok [OF v] assms(1) by (simp add: journal_is_def)
  have j1: "journal_is L (es @ [?n]) st1"
    using journal_is_append [OF assms(1) a] assms(2) by (simp add: node_entry_def added_entries_def)
  show ?thesis
  proof (cases target)
    case None
    then show ?thesis using j1 by (simp add: record_artifact_def journal_is_open [OF assms(1)] a added_entries_def linkable_def)
  next
    case (Some p)
    obtain node where node: "map_of (nodes (graph_of es)) p = Some node" "is_project node" using assms(3) [OF Some] by blast
    let ?req = "artifact_edge sha p"
    have req: "a_from ?req = artifact_id sha" "a_edge ?req = BelongsTo" "a_to ?req = p"
        "a_provenance ?req = Some ''local file add''" "\<not> a_allow_dangling ?req"
      by (simp_all add: artifact_edge_def new_edge_assert_def)
    have strict: "validate_relate_request_strict L secs (a_from ?req) (a_edge ?req) (a_to ?req) (a_provenance ?req)
        (a_allow_dangling ?req) st1 = Inr () \<longleftrightarrow> linkable sha (Some p)"
      using strict_artifact [OF node] strict_on_entries [OF j1] req by simp
    show ?thesis
    proof (cases "linkable sha (Some p)")
      case True
      obtain i2 st2 where e: "journal_append L secs ''edge.assert'' (JObj (edge_payload ?req)) st1 = (Inr i2, st2)"
        using append_ok [OF edge_payload_valid] j1 by (simp add: journal_is_def)
      have "append_edge_assert L q secs ?req st1 = (Inr i2, st2)"
        using strict True by (simp add: append_edge_assert_def journal_is_open [OF j1] e)
      moreover have "journal_is L ((es @ [?n]) @ [edge_entry L secs ?req]) st2"
        using journal_is_append [OF j1 e] assms(2) True by (simp add: added_entries_def Some)
      ultimately show ?thesis using True
        by (simp add: record_artifact_def journal_is_open [OF assms(1)] a added_entries_def Some)
    next
      case False
      then obtain e where "validate_relate_request_strict L secs (a_from ?req) (a_edge ?req) (a_to ?req) (a_provenance ?req)
        (a_allow_dangling ?req) st1 = Inl e" using strict by (metis old.unit.exhaust sum.exhaust_sel)
      then have "append_edge_assert L q secs ?req st1 = (Inl (RequestErr e), st1)" by (simp add: append_edge_assert_def)
      then show ?thesis using False j1
        by (simp add: record_artifact_def journal_is_open [OF assms(1)] a added_entries_def Some)
    qed
  qed
qed

lemma resolved_project:
  assumes "resolve_project_id (graph_of es) input = Inr p"
  shows "\<exists>node. map_of (nodes (graph_of es)) p = Some node \<and> is_project node"
proof -
  obtain r where "ranked_at (graph_of es) input r = {p}" using assms by (auto simp: resolve_iff)
  then obtain node where "(p, node) \<in> set (nodes (graph_of es))" "is_project node" by (auto simp: ranked_at_def)
  moreover have "omap_ok (nodes (graph_of es))" by (rule nodes_fold_ok) (simp add: empty_graph_def)
  ultimately show ?thesis by (auto simp: omap_map_of_iff)
qed

text \<open>C24. An addition to a sound journal, when the disk is well: an unknown or ambiguous project is refused before
  anything is written; otherwise the receipt names the digest and the length of the file and a path that holds its
  bytes, and the journal grows by the node of the artifact and by its edge to the project.  Only when the id of the
  project has the shape of a URI, or is that of the artifact, the addition fails, and then the node stays.\<close>

theorem added_artifact_is_recorded:
  assumes "journal_is L es (aw_store w)" and "faultless (aw_files w)" and "map_of (af_files (aw_files w)) src = Some b"
    and "x_sha L b \<noteq> []"
    and "\<forall>target. project_target es project = Inr target \<longrightarrow>
      list_all (reads_back L) (added_entries L secs (sha256_hex (x_sha L) b) src target)"
  shows "case project_target es project of
      Inl e \<Rightarrow> add_artifact L q secs root src project w = (Inl (ArtProject e), w)
    | Inr target \<Rightarrow>
        (case add_artifact L q secs root src project w of
           (res, w') \<Rightarrow>
             read_all L (aw_store w') = Inr (es @ added_entries L secs (sha256_hex (x_sha L) b) src target) \<and>
             (case res of
                Inl _ \<Rightarrow> \<not> linkable (sha256_hex (x_sha L) b) target
              | Inr r \<Rightarrow> linkable (sha256_hex (x_sha L) b) target \<and> ar_sha256 r = sha256_hex (x_sha L) b \<and> ar_bytes r = length b \<and>
                  map_of (af_files (aw_files w')) (ar_stored_path r) = Some b))"
proof -
  let ?sha = "sha256_hex (x_sha L) b"
  obtain r F where f: "file_artifact L secs root src (aw_files w) = (Inr r, F)" "map_of (af_files F) (ar_stored_path r) = Some b"
    "ar_sha256 r = ?sha" "ar_bytes r = length b"
    using faultless_file_artifact [OF assms(2-4)] by blast
  have resolve: "art_resolve_project L q secs input (aw_store w) =
      (mapErr ArtProject (resolve_project_id (graph_of es) input), aw_store w)" for input
    by (simp add: art_resolve_project_def journal_is_open [OF assms(1)] journal_is_read [OF assms(1)]
        resolve_project_id_def edges_materialize)
  show ?thesis
  proof (cases "project_target es project")
    case (Inl e)
    then show ?thesis
      by (cases project) (auto simp: project_target_def add_artifact_def resolve bindE_eq_Inl)
  next
    case (Inr target)
    have "\<exists>node. map_of (nodes (graph_of es)) p = Some node \<and> is_project node" if "target = Some p" for p
      using Inr that resolved_project by (auto simp: project_target_def split: option.splits)
    then obtain res st' where rec: "record_artifact L q secs ?sha src target (aw_store w) = (res, st')"
      "journal_is L (es @ added_entries L secs ?sha src target) st'" "res = Inr () \<longleftrightarrow> linkable ?sha target"
      using record_artifact_journal [OF assms(1)] assms(5) Inr by blast
    have "add_artifact L q secs root src project w =
        (case res of Inl e \<Rightarrow> Inl e | Inr _ \<Rightarrow> Inr r, w\<lparr>aw_store := st', aw_files := F\<rparr>)"
      using Inr rec(1)
      by (cases project; cases res) (auto simp: project_target_def add_artifact_def resolve f)
    then show ?thesis
      using journal_is_read [OF rec(2)] rec(3) f Inr by (cases res) auto
  qed
qed

text \<open>A disk with three files of the same content, and a digest that tells this content from all others.\<close>

definition demo_art_lib :: lib where
  "demo_art_lib =
     \<lparr>x_sha = \<lambda>s. if s = ''x'' then [0, 0] else [0], x_ser = \<lambda>_. ''j'', x_parse = Map.empty, x_entry = Map.empty\<rparr>"

definition demo_art_world :: art_world where
  "demo_art_world =
     \<lparr>aw_files = \<lparr>af_files = [(''/s/a.tmp'', ''x''), (''/s/a.txt'', ''x''), (''/s/b'', ''x'')],
        af_read_fault = Map.empty, af_write_fault = Map.empty, af_dir_fault = Map.empty\<rparr>,
      aw_store = empty_store\<rparr>"

definition demo_add :: "string \<Rightarrow> art_world \<Rightarrow> (artifact_error + art_receipt) \<times> art_world" where
  "demo_add src w = add_artifact demo_art_lib ''q'' 0 ''/r'' src None w"

lemma demo_digest_ok: "digest_ok demo_art_lib ''x''"
  by (simp add: digest_ok_def demo_art_lib_def)

lemma demo_add_run: "isl (fst (demo_add src w)) = False \<Longrightarrow>
    add_artifact demo_art_lib ''q'' 0 ''/r'' src None w = (Inr (projr (fst (demo_add src w))), snd (demo_add src w))"
  by (metis demo_add_def prod.collapse sum.collapse(2))

text \<open>Every addition on this disk succeeds.\<close>

definition demo_ready :: "art_world \<Rightarrow> bool" where
  "demo_ready w \<longleftrightarrow> af_read_fault (aw_files w) = Map.empty \<and> af_write_fault (aw_files w) = Map.empty \<and>
     af_dir_fault (aw_files w) = Map.empty \<and>
     list_all (\<lambda>src. map_of (af_files (aw_files w)) src = Some ''x'') [''/s/a.tmp'', ''/s/a.txt'', ''/s/b''] \<and>
     (case journal_file (aw_store w) of None \<Rightarrow> True | Some c \<Rightarrow> valid_utf8 c)"

lemma demo_ready_start: "demo_ready demo_art_world"
  by (simp add: demo_ready_def demo_art_world_def empty_store_def)

lemma demo_write_ready:
  assumes "demo_ready w" and "is_name n"
  shows "\<exists>F. write_atomic (join (artifact_dir ''/r'' ''0000'') n) t (aw_files w) = (Inr (), F) \<and> demo_ready (w\<lparr>aw_files := F\<rparr>)"
proof -
  have "artifact_dir ''/r'' ''0000'' = ''/r/03-output/artifacts/by-sha256/00/0000''" by code_simp
  moreover have "is_name ''0000''" by (simp add: is_name_def)
  ultimately have "join (artifact_dir ''/r'' ''0000'') n = ''/r/03-output/artifacts/by-sha256/00/0000'' @ ''/'' @ n"
    using artifact_path [OF _ assms(2)] by metis
  then show ?thesis using assms(1) by (simp add: demo_ready_def write_atomic_def Let_def put_file_def)
qed

lemma demo_journal_ready:
  assumes "demo_ready w"
  shows "\<exists>st. record_artifact demo_art_lib ''q'' 0 sha src None (aw_store w) = (Inr (), st) \<and> demo_ready (w\<lparr>aw_store := st\<rparr>)"
proof -
  let ?st = "aw_store w"
  have keep: "keep_line demo_art_lib l = False" for l by (simp add: keep_line_def demo_art_lib_def)
  have "fst (journal_open demo_art_lib ''q'' 0 ?st) = Inr () \<and> innen_dir (snd (journal_open demo_art_lib ''q'' 0 ?st)) \<and>
      (case journal_file (snd (journal_open demo_art_lib ''q'' 0 ?st)) of None \<Rightarrow> True | Some c \<Rightarrow> valid_utf8 c)"
    using assms
    by (cases "journal_file ?st")
      (auto simp: demo_ready_def journal_open_def quarantine_scan_def read_to_string_def Let_def good_lines_def keep)
  then obtain st1 where o: "journal_open demo_art_lib ''q'' 0 ?st = (Inr (), st1)" and d: "innen_dir st1"
    and v1: "case journal_file st1 of None \<Rightarrow> True | Some c \<Rightarrow> valid_utf8 c" by (metis prod.collapse)
  have "validate ''node.upsert'' (artifact_node sha src) = Inr ()"
    by (simp add: validate_iff acceptable_def required_fields_def artifact_node_def jget_str_def artifact_node_fields)
  from append_ok [OF this d] obtain i st2 where a: "journal_append demo_art_lib 0 ''node.upsert'' (artifact_node sha src) st1 = (Inr i, st2)"
    and st2: "journal_file st2 = append_bytes (journal_file st1)
      (stored_line demo_art_lib (new_entry demo_art_lib 0 ''node.upsert'' (artifact_node sha src)) @ [CHR 0x0A])" by simp
  have "plain (stored_line demo_art_lib e)" for e
    by (simp add: stored_line_def field_text_def demo_art_lib_def byte_def)
  then have "valid_utf8 (stored_line demo_art_lib e @ [CHR 0x0A])" for e
    using valid_utf8_unlines [of "[stored_line demo_art_lib e]"] plain_valid by simp
  then have "case journal_file st2 of None \<Rightarrow> True | Some c \<Rightarrow> valid_utf8 c"
    using v1 st2 by (auto simp: append_bytes_def valid_utf8_append split: option.splits)
  then show ?thesis using assms by (simp add: record_artifact_def o a demo_ready_def)
qed

lemma demo_add_ready:
  assumes "demo_ready w" and "src \<in> set [''/s/a.tmp'', ''/s/a.txt'', ''/s/b'']"
  shows "isl (fst (demo_add src w)) = False \<and> demo_ready (snd (demo_add src w))"
proof -
  have src: "map_of (af_files (aw_files w)) src = Some ''x''" and F: "faultless (aw_files w)"
    using assms by (auto simp: demo_ready_def faultless_def)
  have sha: "sha256_hex (x_sha demo_art_lib) ''x'' = ''0000''" by code_simp
  have "x_sha demo_art_lib ''x'' \<noteq> []" by (simp add: demo_art_lib_def)
  from faultless_file_artifact [OF F src this] obtain r F' where
    f: "file_artifact demo_art_lib 0 ''/r'' src (aw_files w) = (Inr r, F')" by blast
  have read: "read_file (aw_files w) src = Content b \<Longrightarrow> b = ''x''" for b using src read_file_Content by force
  have "demo_ready (w\<lparr>aw_files := F'\<rparr>)"
    using file_artifact_writes [OF f]
  proof
    assume "\<exists>b F1 r1 r2. read_file (aw_files w) src = Content b \<and>
       (F1 = aw_files w \<or> write_atomic (join (artifact_dir ''/r'' (sha256_hex (x_sha demo_art_lib) b)) (artifact_file_name src)) b (aw_files w) = (r1, F1)) \<and>
       (F' = F1 \<or> write_atomic (join (artifact_dir ''/r'' (sha256_hex (x_sha demo_art_lib) b)) ''provenance.json'')
          (provenance_text demo_art_lib 0 src (sha256_hex (x_sha demo_art_lib) b) b) F1 = (r2, F'))"
    then obtain F1 r1 r2 where
      1: "F1 = aw_files w \<or> write_atomic (join (artifact_dir ''/r'' ''0000'') (artifact_file_name src)) ''x'' (aw_files w) = (r1, F1)" and
      2: "F' = F1 \<or> write_atomic (join (artifact_dir ''/r'' ''0000'') ''provenance.json'') (provenance_text demo_art_lib 0 src ''0000'' ''x'') F1 = (r2, F')"
      using read sha by metis
    have ready1: "demo_ready (w\<lparr>aw_files := F1\<rparr>)"
      using 1 assms(1) demo_write_ready [OF assms(1) file_name_name(1) [of src], of "''x''"] by auto
    show ?thesis using demo_write_ready [OF ready1 is_name_literals(1), of "provenance_text demo_art_lib 0 src ''0000'' ''x''"] ready1 2 by auto
  qed (use assms(1) in simp)
  from demo_journal_ready [OF this, of "ar_sha256 r" src] obtain st where
    "record_artifact demo_art_lib ''q'' 0 (ar_sha256 r) src None (aw_store w) = (Inr (), st)"
    "demo_ready (w\<lparr>aw_files := F', aw_store := st\<rparr>)" by auto
  then show ?thesis by (simp add: demo_add_def add_artifact_def f demo_ready_def)
qed

theorem receipt_stays_good_witness:
  "map_of (af_files (aw_files (snd (demo_add ''/s/b'' (snd (demo_add ''/s/a.txt'' demo_art_world))))))
     (ar_stored_path (projr (fst (demo_add ''/s/a.txt'' demo_art_world)))) = Some ''x''"
proof -
  have "isl (fst (demo_add ''/s/a.txt'' demo_art_world)) = False" using demo_add_ready [OF demo_ready_start] by simp
  note run = demo_add_run [OF this]
  let ?w1 = "snd (demo_add ''/s/a.txt'' demo_art_world)"
  have "add_artifact demo_art_lib ''q'' 0 ''/r'' ''/s/b'' None ?w1 = (fst (demo_add ''/s/b'' ?w1), snd (demo_add ''/s/b'' ?w1))"
    by (simp add: demo_add_def)
  from again [OF start this] have "art_steps demo_art_lib ''/r'' ?w1 (snd (demo_add ''/s/b'' ?w1))" .
  moreover have "read_file (aw_files demo_art_world) ''/s/a.txt'' = Content ''x''" "extension ''/s/a.txt'' \<noteq> Some ''tmp''"
    by code_simp+
  ultimately show ?thesis using receipt_stays_good [OF run _ _ demo_digest_ok] by blast
qed

theorem tmp_artifact_is_lost_witness:
  "map_of (af_files (aw_files (snd (demo_add ''/s/b'' (snd (demo_add ''/s/a.tmp'' demo_art_world))))))
     (ar_stored_path (projr (fst (demo_add ''/s/a.tmp'' demo_art_world)))) = None"
proof -
  have ok1: "isl (fst (demo_add ''/s/a.tmp'' demo_art_world)) = False" and ready: "demo_ready (snd (demo_add ''/s/a.tmp'' demo_art_world))"
    using demo_add_ready [OF demo_ready_start, of "''/s/a.tmp''"] by simp_all
  note run1 = demo_add_run [OF ok1]
  have "isl (fst (demo_add ''/s/b'' (snd (demo_add ''/s/a.tmp'' demo_art_world)))) = False" using demo_add_ready [OF ready] by simp
  note run2 = demo_add_run [OF this]
  have 1: "read_file (aw_files demo_art_world) ''/s/a.tmp'' = Content ''x''" "extension ''/s/a.tmp'' = Some ''tmp''"
    "dir_names (artifact_dir ''/r'' (sha256_hex (x_sha demo_art_lib) ''x'')) (aw_files demo_art_world) = []"
    "artifact_file_name ''/s/b'' = ''artifact''"
    by code_simp+
  have 2: "read_file (aw_files (snd (demo_add ''/s/a.tmp'' demo_art_world))) ''/s/b'' = Content ''x''"
    using ready by (simp add: demo_ready_def read_file_def)
  have 3: "x_sha demo_art_lib ''x'' \<noteq> []" by (simp add: demo_art_lib_def)
  show ?thesis using tmp_artifact_is_lost [OF run1 1(1-3) run2 2 1(4) 3] by blast
qed

text \<open>A journal with a project, and a file to add to it.\<close>

definition demo_rec_node :: journal_entry where
  "demo_rec_node = new_entry demo_base 0 ''node.upsert'' (artifact_node ''01'' ''/s/a.txt'')"

definition demo_rec_edge :: journal_entry where
  "demo_rec_edge = edge_entry demo_base 0 (artifact_edge ''01'' ''bb'')"

definition demo_rec_lib :: lib where
  "demo_rec_lib = demo_lib [demo_project, demo_rec_node, demo_rec_edge]"

definition demo_rec_world :: art_world where
  "demo_rec_world = demo_art_world\<lparr>aw_store := empty_store\<lparr>journal_file := Some (unlines [stored_line demo_base demo_project])\<rparr>\<rparr>"

lemma demo_rec_payloads:
  "artifact_node ''01'' ''/s/a.txt'' = JObj [(''id'', JStr ''artifact:01''), (''label'', JStr ''a.txt''),
     (''provenance'', JStr ''local file add''), (''type'', JStr ''artifact'')]"
  "edge_payload (artifact_edge ''01'' ''bb'') = [(''from'', JStr ''artifact:01''), (''provenance'', JStr ''local file add''),
     (''to'', JStr ''bb''), (''type'', JStr ''BELONGS_TO'')]"
  by code_simp+

lemma demo_rec_reads_back: "list_all (reads_back demo_rec_lib) [demo_project, demo_rec_node, demo_rec_edge]"
proof -
  let ?es = "[demo_project, demo_rec_node, demo_rec_edge]"
  have "list_all eplain ?es"
    by (simp add: demo_project_def demo_rec_node_def demo_rec_edge_def demo_rec_payloads byte_def)
  moreover have "distinct (map (\<lambda>e. length (stored_line demo_base e)) ?es)"
    by (simp add: demo_project_def demo_rec_node_def demo_rec_edge_def demo_rec_payloads demo_line_length join_with_def)
  ultimately show ?thesis unfolding demo_rec_lib_def by (auto simp: list_all_iff intro: demo_reads_back_all)
qed

theorem added_artifact_is_recorded_witness:
  "case add_artifact demo_rec_lib ''q'' 0 ''/r'' ''/s/a.txt'' (Some ''bb'') demo_rec_world of
     (res, w') \<Rightarrow> read_all demo_rec_lib (aw_store w') = Inr [demo_project, demo_rec_node, demo_rec_edge] \<and>
       map_of (af_files (aw_files w')) (ar_stored_path (projr res)) = Some ''x''"
proof -
  have sha: "sha256_hex (x_sha demo_rec_lib) ''x'' = ''01''" by (simp add: demo_rec_lib_def) code_simp
  have j: "journal_is demo_rec_lib [demo_project] (aw_store demo_rec_world)"
    using demo_rec_reads_back by (simp add: journal_is_def demo_rec_world_def empty_store_def demo_rec_lib_def)
  have f: "faultless (aw_files demo_rec_world)" "map_of (af_files (aw_files demo_rec_world)) ''/s/a.txt'' = Some ''x''"
    by (simp_all add: faultless_def demo_rec_world_def demo_art_world_def)
  have n: "x_sha demo_rec_lib ''x'' \<noteq> []" by (simp add: demo_rec_lib_def demo_sha_def)
  have g: "nodes (graph_of [demo_project]) =
      [(''bb'', JObj [(''id'', JStr ''bb''), (''observed_utc'', JStr (format_utc 0)), (''type'', JStr ''Project'')])]"
    by (simp add: demo_project_def new_entry_def apply_event_def event_value_parts upsert_node_def empty_graph_def
        merge_env_def merge_field_def obj_of_def less_char_def)
  have "resolve_project_id \<lparr>nodes = [(''bb'', JObj [(''id'', JStr ''bb''), (''observed_utc'', JStr u), (''type'', JStr ''Project'')])],
      edges = []\<rparr> ''bb'' = Inr ''bb''" for u
    by code_simp
  from this [of "format_utc 0"] have "resolve_project_id (graph_of [demo_project]) ''bb'' = Inr ''bb''"
    by (rule trans [OF resolve_nodes, rotated]) (simp only: g materialized.simps)
  then have t: "project_target [demo_project] (Some ''bb'') = Inr (Some ''bb'')"
    by (rule target_Some)
  have l: "linkable ''01'' (Some ''bb'')"
    by (simp add: linkable_def artifact_id_def is_uri_shape_def starts_with_def contains_str_def sublist_Cons_right)
  have e: "added_entries demo_rec_lib 0 ''01'' ''/s/a.txt'' (Some ''bb'') = [demo_rec_node, demo_rec_edge]"
    by (simp add: added_entries_def l node_entry_def demo_rec_node_def demo_rec_edge_def demo_rec_lib_def)
  have r: "\<forall>target. project_target [demo_project] (Some ''bb'') = Inr target \<longrightarrow>
      list_all (reads_back demo_rec_lib) (added_entries demo_rec_lib 0 (sha256_hex (x_sha demo_rec_lib) ''x'') ''/s/a.txt'' target)"
    using demo_rec_reads_back by (simp add: t sha e)
  show ?thesis
    using added_artifact_is_recorded [OF j f n r, of "''q''" "''/r''"] l
    by (auto simp: t sha e split: prod.splits sum.splits)
qed

end
