(* ===== verification/Spec2Isabelle.thy ===== *)
theory Spec2Isabelle
  imports Edge_Write Project_Ref Grammar Ledger Selection Prune Attachments Evidence Compaction History_Store Task_State Credentials Config Artifact
begin

text \<open>
  A model of the core of innen (\<open>crates/innen-core\<close>), a local knowledge graph and context tool for
  coding agents: it keeps facts in an append-only journal, replays them into a graph, keeps receipts of
  documents in an archive ledger, and packs transcripts of conversations into pages that an agent reads.

  \<^bold>\<open>Reading guide.\<close>  Each theory models one part.  A definition is named after the function, type or
  constant it translates; where a function of the source is split, the parts carry names of their own and
  the manifest gives the lines of each.  A Rust \<open>Result\<close> is a sum with the error on the left, a panic and
  an early return are branches, a \<open>String\<close> is the list of its UTF-8 bytes (\<open>Text_Model\<close>), a
  \<open>BTreeMap\<close> is an association list in ascending key order (\<open>Prelude\<close>, \<open>omap_ok\<close>), a
  \<open>HashMap\<close> whose order cannot be seen is modelled the same way (where it can be seen, among the attestations of a
  session, the order is the host's: \<open>in_map_order\<close>), and a \<open>serde_json::Value\<close> is the type
  \<open>json\<close> (\<open>Json_Model\<close>), with floats as their 64 bits.

  \<^bold>\<open>The journal and the graph.\<close>
  \<^item> \<open>Ids\<close> (\<open>ids.rs\<close>): canonical payloads and event ids.  The ids do not depend on field order or on the
    observation time, and equal ids mean equal hashed payloads when the digest has no collision.
  \<^item> \<open>Utc_Clock\<close> (\<open>format_utc\<close> of \<open>journal.rs\<close>): civil dates from seconds; texts compare as times do.
  \<^item> \<open>Journal\<close> (\<open>journal.rs\<close>): the state is the directory, the journal file, the quarantine files and the
    reports.  \<open>journal_open\<close> quarantines the lines that do not parse, \<open>journal_append\<close> validates and appends,
    \<open>read_all\<close> parses.  The lemmas treat appending, reading back, crashes in the middle of a line, and when
    a write is refused.
  \<^item> \<open>Adjacency\<close> (\<open>graph/adjacency.rs\<close>): the vocabulary and which triples an edge may form.
  \<^item> \<open>Materialize\<close> (\<open>graph/materialize.rs\<close>): replay of entries into nodes and edges; what each node and
    edge is, as a function of the entries.  \<open>Project_Ref\<close>: project names to nodes.  \<open>Floats\<close>: the casts
    behind edge weights.
  \<^item> \<open>Requests\<close> (\<open>graph/requests.rs\<close>) and \<open>Edge_Write\<close> (\<open>edge_write.rs\<close>): the checks before a write and
    the write itself.  \<open>reachable\<close> is the set of stores that writes and openings lead to; the invariant is
    that no edge of the replayed graph dangles.

  \<^bold>\<open>Pages of conversations.\<close>
  \<^item> \<open>Markers\<close>, \<open>Fragments\<close>, \<open>Prefixes\<close>, \<open>Deltas\<close>, \<open>Compact\<close> (\<open>conversation/compact.rs\<close>, \<open>deltas.rs\<close>,
    \<open>prefixes.rs\<close>): rows, string table, factoring of shared edges and prefixes.  The decoders of the
    source are modelled too, and the round trips are proved against them.  The locale \<open>marker_codec\<close> is what
    the codecs share: a text is replaced by a singleton object whose key occurs nowhere.
  \<^item> \<open>Grammar\<close> (\<open>conversation/grammar\<close>): chunks, pair rules and dictionary packets.  \<open>expands\<close> is the
    specification of what a symbol stands for.
  \<^item> \<open>Prune\<close> (\<open>conversation/prune\<close>): stale tool outputs are replaced by notes.  \<open>stale_output\<close> is the
    specification of what the rules decide.
  \<^item> \<open>Attachments\<close> (\<open>conversation/attachments.rs\<close>, \<open>format.rs\<close>): images and encrypted payloads are
    replaced by references that can be resolved, and the form of a page is chosen.  The locale
    \<open>json_pointer\<close> is the documented behaviour of \<open>Value::pointer\<close>.

  \<^bold>\<open>Archives and selections.\<close>
  \<^item> \<open>Ledger_Model\<close>, \<open>Ledger\<close> (\<open>artifact/ledger\<close>): the log of receipts and events, its views, and the two
    projections that are written from it.  \<open>ledger_run\<close> is the set of archives that operations lead to, each through
    a handle of its own and on the disk as it is at that moment (\<open>same_codec\<close>: only the serializer stays).
  \<^item> \<open>Selection\<close> (\<open>context_selection.rs\<close>): selecting nodes of a requirement graph under a budget, greedily
    by relevance density or exactly for a given set of facts.
  \<^item> \<open>Evidence\<close> (\<open>evidence_closure\<close>): contracts, the snapshot of the journal, the dependency walk from the
    roots of an alternative, and the evaluation, which hands the admitted alternatives to the exact search of
    \<open>Selection\<close>.  An alternative holds exactly what its roots reach, and a covered answer is cheapest.

  \<^bold>\<open>Packets and plans for agents.\<close>
  \<^item> \<open>Context_Packet\<close> (\<open>middleware.rs\<close>): required and optional items under a token budget.  A packet is the
    greedy selection, and what it leaves out can be fetched with its hash.
  \<^item> \<open>History\<close> (\<open>middleware/history\<close>: \<open>model.rs\<close>, \<open>ancestry.rs\<close>, \<open>prepare.rs\<close>, \<open>expand.rs\<close>): immutable decisions that
    supersede and depend on each other.  \<open>dependable\<close> is the specification: a decision whose conditions hold, that
    has no rival and that rests only on decisions that are upheld; a packet states exactly those.  The locale
    \<open>descending\<close> is what the three recursive walks share, a relation that goes down.
  \<^item> \<open>History_Store\<close> (\<open>middleware/history/store.rs\<close>): snapshots and an append-only index for each task.  The
    writes of a save are a list that may be cut anywhere; \<open>history_run\<close> is a run of complete, refused and interrupted
    saves, and a load after it still gives every acknowledged decision.
  \<^item> \<open>Task_State\<close> (\<open>conversation/task_state\<close>): the plan that the calls and results in a transcript leave.
    \<open>last_confirmed\<close> and \<open>open_call\<close> say which write that is, without the extractor's state.
  \<^item> \<open>Credentials\<close> (\<open>credentials.rs\<close>): the scan that keeps secrets out of the journal.  \<open>documented\<close> states the
    patterns of its documentation and \<open>reported\<close> those that the matchers find: the same, less the \<open>sk-\<close> keys that
    continue a word.
  \<^item> \<open>Config\<close> (\<open>toml.rs\<close>, \<open>config\<close>): the layers of the configuration, the root of the knowledge base and the two
    files the program writes.  Environment, disk, JSON printer and parser are parameters; \<open>prints_back\<close> is what is asked
    of the last two.
  \<^item> \<open>Artifact_Tree\<close> and \<open>Artifact\<close> (\<open>artifact.rs\<close>): the inventory of a directory, and storing a file by its digest with
    its record in the journal.  \<open>listing\<close> is the recursive inventory; \<open>art_steps\<close> are further additions, complete or cut
    short by a failing write, under which a receipt stays good.  \<open>Paths\<close> has the operations on paths that both use, and
    \<open>to_string_lossy\<close>, through which names that are no UTF-8 enter the manifest and the journal.

  \<^bold>\<open>Retention of native sessions.\<close>  The world is a file tree and the store of the journal; an operation takes a
  world to a result and a world (\<open>act\<close>), and other processes run between any two of its steps (\<open>interfere\<close>).  The
  locale \<open>frame_relation\<close> is what every operation keeps of the world; it is interpreted as \<open>same_file\<close> (one
  file stays as it is) and \<open>kept\<close> (the journal too).
  \<^item> \<open>Retention_Model\<close> (\<open>session_retention/types.rs\<close>, \<open>support.rs\<close>, \<open>archive.rs\<close>, \<open>activity.rs\<close>, \<open>policy.rs\<close>,
    \<open>conversation/opencode_db.rs\<close>): the files of a session and their digest, open handles, the assessment.
    \<open>justified\<close> is the specification: when a session may go.  The assessment asks in addition that the attestation
    it meets first is a sound one (\<open>decided\<close>).
  \<^item> \<open>Retention\<close> (\<open>attest.rs\<close>, \<open>receipt.rs\<close>, \<open>delete_adapter\<close>, \<open>purge.rs\<close>): attestation, deletion and purge.
    A purge changes a file only after an attempt was recorded, the removal was justified and rechecked, and only
    within \<open>deletion_scope\<close>; two theorems show what that scope and the digest leave open.
  \<^item> \<open>Sweep\<close> (\<open>compact.rs\<close>, \<open>inventory.rs\<close>, \<open>sweep.rs\<close>) and \<open>Compaction\<close>: a closed session is reduced to its
    dialogue, which proves it to the next assessment; sweeps take children first and their receipts add up.

  \<^bold>\<open>How the parts meet.\<close>  An edge write checks the strict content of the journal (\<open>Requests\<close> over
  \<open>Journal\<close> and \<open>Materialize\<close>), opens it and appends, and the replay of the result is the graph with one more
  row.  A page goes through \<open>encode_page\<close>, then \<open>encode_deltas\<close>, then \<open>with_guide\<close>, or through
  \<open>externalize\<close> first; \<open>format_page\<close> composes them.  \<open>prune_page\<close> and \<open>encode_grammar\<close> work on the same pages.
  A compaction appends to the journal what the policy later reads from the replayed graph (\<open>Compaction\<close> over
  \<open>Journal\<close>, \<open>Materialize\<close> and \<open>Retention\<close>); an evidence query replays the same journal.

  \<^bold>\<open>Parameters.\<close>  Code outside the repository is an argument: \<open>sha\<close> for SHA-256, \<open>ser\<close> and the
  parsers in \<open>lib\<close> for \<open>serde_json\<close>'s printer and readers, the tokenizer for the token costs (\<open>count_tokens\<close>), \<open>lookup\<close> for
  JSON pointers, and the record \<open>host\<close> for the clock, other processes, \<open>/proc\<close>, path resolution, the programs that
  are started, the order of hash maps and the enumeration and projection of native transcripts.  What is used of them is stated as a hypothesis (for the journal, \<open>reads_back\<close>: a printed entry is one
  line of UTF-8 that parses back) and each property with such a hypothesis has a witness with a concrete
  function.

  \<^bold>\<open>Bounds and fuel.\<close>  Recursion is structural or has a measure, with three exceptions: \<open>emit\<close> in \<open>Grammar\<close>
  expands symbol \<open>i\<close> with fuel \<open>2 * i + 2\<close>, enough because a rule only refers to earlier symbols; the walks of
  \<open>History\<close> go no deeper than the number of events, because a reference points backwards; and the exact search of \<open>Selection\<close> stops with the source's own limit of states.  The retries of \<open>sqlite3\<close> (6) and the walk to
  the ancestors of a session (64) are bounded as in the source.  Sizes are natural numbers; the widths that matter are
  written out (\<open>checked_succ\<close> on 64 bits, \<open>as_i64\<close>, the float bit patterns, digests as \<open>8 word\<close>).

  \<^bold>\<open>Not modelled.\<close>  The search engine (vendored) and the ranking over it; readers of transcript files and
  databases; the other directory walks and reports; the wiki and task entry commands; the macOS form of the open-handle check.  Failing writes of single
  files are modelled for the journal, the ledger and the history store only where the source handles them.  Concurrent use is
  modelled as a sequence of operations: the ledger and the history store take an exclusive lock; the journal's open and append by two
  processes at once are outside the model.
\<close>

end
